(* ===== verification/HAL_Prelude.thy ===== *)
theory HAL_Prelude
  imports Main "HOL-Library.Word" "HOL-Library.Signed_Division"
begin

text \<open>
  Shared vocabulary of the development: the outcomes of C code that the language
  leaves undefined, C's \<open>int\<close> with its range checks, the constants of newlib's
  \<open>errno.h\<close> and \<open>fcntl.h\<close> that the sources use, and the generic lemmas on lists
  and words that several components need.
\<close>

unbundle bit_operations_syntax

named_theorems c_simps "evaluation of checked C arithmetic and of the result monad"
named_theorems fd_simps "field and update lemmas of the descriptor table"

section \<open>Outcomes\<close>

text \<open>
  A C function either returns or does something the language (or the machine) gives no
  meaning to. The second case is a value of \<open>c_fault\<close>; \<open>NoInput\<close> is a \<open>scanf\<close>
  that waits for an operator who types nothing more, \<open>Hang\<close> a loop that never exits.
\<close>

datatype c_fault =
    SignedOverflow | DivByZero | BadShift | NullDeref | OutOfBounds | NoInput | Hang

type_synonym 'a c_res = "c_fault + 'a"

definition res_bind :: "'a c_res \<Rightarrow> ('a \<Rightarrow> 'b c_res) \<Rightarrow> 'b c_res" where
  "res_bind r f = (case r of Inl e \<Rightarrow> Inl e | Inr x \<Rightarrow> f x)"

lemma res_bind_Inl [simp]: "res_bind (Inl e) f = Inl e"
  by (simp add: res_bind_def)

lemma res_bind_Inr [simp]: "res_bind (Inr x) f = f x"
  by (simp add: res_bind_def)

lemma res_bind_cong [fundef_cong]:
  "r = r' \<Longrightarrow> (\<And>x. r' = Inr x \<Longrightarrow> f x = f' x) \<Longrightarrow> res_bind r f = res_bind r' f'"
  by (cases r') auto

lemma res_bind_eq_Inr:
  "res_bind r f = Inr y \<longleftrightarrow> (\<exists>x. r = Inr x \<and> f x = Inr y)"
  by (cases r) auto

lemma res_bind_eq_Inl:
  "res_bind r f = Inl e \<longleftrightarrow> r = Inl e \<or> (\<exists>x. r = Inr x \<and> f x = Inl e)"
  by (cases r) auto

lemma res_bind_assoc: "res_bind (res_bind r f) g = res_bind r (\<lambda>x. res_bind (f x) g)"
  by (cases r) auto

text \<open>
  A postcondition on the successful results, pushed through a computation from the outside
  in; \<open>post_simps\<close> collects its rules.
\<close>

definition res_post :: "('a \<Rightarrow> bool) \<Rightarrow> 'a c_res \<Rightarrow> bool" where
  "res_post P r \<longleftrightarrow> (\<forall>x. r = Inr x \<longrightarrow> P x)"

named_theorems post_simps

lemma res_post_simps [simp, post_simps]:
  "res_post P (Inr x) = P x" "res_post P (Inl e)"
  "res_post P (res_bind m f) = res_post (\<lambda>x. res_post P (f x)) m"
  by (cases m; simp add: res_post_def)+

lemma res_postD: "res_post P r \<Longrightarrow> r = Inr x \<Longrightarrow> P x"
  by (simp add: res_post_def)

lemma res_post_all: "(\<And>x. P x) \<Longrightarrow> res_post P r"
  by (simp add: res_post_def)

lemma res_post_mono: "res_post P r \<Longrightarrow> (\<And>x. P x \<Longrightarrow> Q x) \<Longrightarrow> res_post Q r"
  by (simp add: res_post_def)

section \<open>C's int on a 32-bit target\<close>

abbreviation (input) INT_MAX :: int where "INT_MAX \<equiv> 2147483647"
abbreviation (input) INT_MIN :: int where "INT_MIN \<equiv> - 2147483648"

definition int_ok :: "int \<Rightarrow> bool" where
  "int_ok x \<longleftrightarrow> INT_MIN \<le> x \<and> x \<le> INT_MAX"

definition c_int :: "int \<Rightarrow> int c_res" where
  "c_int x = (if int_ok x then Inr x else Inl SignedOverflow)"

definition c_mul :: "int \<Rightarrow> int \<Rightarrow> int c_res" where
  "c_mul a b = c_int (a * b)"

definition c_sub :: "int \<Rightarrow> int \<Rightarrow> int c_res" where
  "c_sub a b = c_int (a - b)"

definition c_add :: "int \<Rightarrow> int \<Rightarrow> int c_res" where
  "c_add a b = c_int (a + b)"

text \<open>
  C's remainder truncates towards zero (\<open>smod\<close>); a zero divisor is undefined, and so
  is \<open>INT_MIN % -1\<close>, whose quotient does not fit.
\<close>

definition c_rem :: "int \<Rightarrow> int \<Rightarrow> int c_res" where
  "c_rem a b = (if b = 0 then Inl DivByZero
                else if a = INT_MIN \<and> b = - 1 then Inl SignedOverflow
                else Inr (a smod b))"

lemma int_okI: "INT_MIN \<le> x \<Longrightarrow> x \<le> INT_MAX \<Longrightarrow> int_ok x"
  by (simp add: int_ok_def)

lemma c_int_ok [c_simps]: "int_ok x \<Longrightarrow> c_int x = Inr x"
  by (simp add: c_int_def)

lemma c_int_eq_Inr: "c_int x = Inr y \<longleftrightarrow> int_ok x \<and> y = x"
  by (auto simp: c_int_def)

lemma c_rem_nonneg [c_simps]: "0 \<le> a \<Longrightarrow> 0 < b \<Longrightarrow> c_rem a b = Inr (a mod b)"
  by (simp add: c_rem_def signed_modulo_int_def signed_divide_int_def sgn_if minus_mult_div_eq_mod)

text \<open>Reading a word as C's signed \<open>int\<close> and back.\<close>

lemma sint_range32: "INT_MIN \<le> sint (w :: 32 word)" "sint (w :: 32 word) \<le> INT_MAX"
  using sint_ge [of w] sint_lt [of w] by simp_all

lemma int_ok_sint [simp]: "int_ok (sint (w :: 32 word))"
  by (simp add: int_ok_def sint_range32)

section \<open>Words\<close>

type_synonym alt_u32 = "32 word"
type_synonym alt_u8 = "8 word"

text \<open>
  \<open>1 << n\<close> on 32 bits: a shift count outside the word is undefined; a shift into the sign
  bit is not (the compiler documents that it defines it).
\<close>

definition c_shl1 :: "nat \<Rightarrow> alt_u32 c_res" where
  "c_shl1 n = (if n < 32 then Inr (push_bit n 1) else Inl BadShift)"

lemma c_shl1_ok [c_simps]: "n < 32 \<Longrightarrow> c_shl1 n = Inr (push_bit n 1)"
  by (simp add: c_shl1_def)

lemma bit_single: "n < 32 \<Longrightarrow> bit (push_bit n (1 :: alt_u32)) m \<longleftrightarrow> m = n"
  by (auto simp: bit_simps)

lemma and_single_eq_0 [simp]: "n < 32 \<Longrightarrow> (w AND push_bit n 1 = 0) \<longleftrightarrow> \<not> bit w n" for w :: alt_u32
proof -
  assume n: "n < 32"
  show "(w AND push_bit n 1 = 0) \<longleftrightarrow> \<not> bit w n"
  proof
    assume "w AND push_bit n 1 = 0"
    then have "\<not> bit (w AND push_bit n 1) n" by (metis bit_0_eq bot_fun_def bot_bool_def)
    then show "\<not> bit w n" using n by (simp add: bit_and_iff bit_single del: push_bit_of_1)
  next
    assume "\<not> bit w n"
    then have "\<not> bit (w AND push_bit n 1) m" for m
      using n by (cases "m = n") (simp_all add: bit_and_iff bit_single del: push_bit_of_1)
    then show "w AND push_bit n 1 = 0" by (simp add: bit_eq_iff del: push_bit_of_1)
  qed
qed

lemma unat32_lt: "unat (w :: alt_u32) < 4294967296"
proof -
  have "unat w < 2 ^ LENGTH(32)" by (rule unsigned_less)
  then show ?thesis by simp
qed

lemma sint_word_of_int32: "- (2 ^ 31) \<le> x \<Longrightarrow> x < 2 ^ 31 \<Longrightarrow> sint (word_of_int x :: alt_u32) = x"
  by (simp add: sint_sbintrunc' signed_take_bit_int_eq_self_iff)

text \<open>Word addition with its one possible wrap-around.\<close>

lemma add_mod_wrap: "a < m \<Longrightarrow> b \<le> m \<Longrightarrow> (a + b) mod m = (if a + b < m then a + b else a + b - m)"
  for a b m :: nat
  by (auto simp: le_mod_geq)

lemma unat_plus32:
  "unat (a + b) = (if unat a + unat b < 2 ^ 32 then unat a + unat b else unat a + unat b - 2 ^ 32)"
  for a b :: alt_u32
proof -
  have "unat (a + b) = (unat a + unat b) mod 2 ^ 32" by (simp add: unat_word_ariths)
  moreover have "unat a < 2 ^ 32" "unat b \<le> 2 ^ 32"
    using unat32_lt [of a] unat32_lt [of b] by simp_all
  ultimately show ?thesis by (simp only: add_mod_wrap)
qed

text \<open>Setting, clearing and testing the bits of a mask.\<close>

lemma mask_set [simp]: "(w OR m) AND m = m" for w m :: "'a::len word"
  by (auto simp: bit_eq_iff bit_simps)

lemma mask_clear: "w AND NOT m AND m = 0" for w m :: "'a::len word"
  by (auto simp: bit_eq_iff bit_simps)

lemma word_eq_0_bits: "w = 0 \<longleftrightarrow> (\<forall>n<32. \<not> bit w n)" for w :: alt_u32
  by (auto simp: bit_eq_iff)

text \<open>The first hit of a filtered interval.\<close>

lemma filter_upt_Cons:
  "filter P [a..<b] = n # ns \<Longrightarrow>
   a \<le> n \<and> n < b \<and> P n \<and> (\<forall>j. a \<le> j \<longrightarrow> j < n \<longrightarrow> \<not> P j) \<and> ns = filter P [Suc n..<b]"
proof (induction "b - a" arbitrary: a)
  case (Suc d)
  then have ab: "a < b" "[a..<b] = a # [Suc a..<b]" by (simp_all add: upt_conv_Cons)
  show ?case
  proof (cases "P a")
    case False
    then have "filter P [Suc a..<b] = n # ns" using Suc.prems ab by simp
    moreover have "d = b - Suc a" using Suc.hyps by simp
    ultimately have "Suc a \<le> n \<and> n < b \<and> P n \<and> (\<forall>j. Suc a \<le> j \<longrightarrow> j < n \<longrightarrow> \<not> P j) \<and>
      ns = filter P [Suc n..<b]" by (intro Suc.hyps)
    with False show ?thesis by (metis Suc_leD Suc_leI le_neq_implies_less)
  qed (use Suc.prems ab in auto)
qed simp

lemma ex_ge_step: "(\<exists>j\<ge>i. P j) \<longleftrightarrow> P i \<or> (\<exists>j\<ge>Suc i. P j)" for i :: nat
  using le_eq_less_or_eq less_eq_Suc_le by metis

section \<open>Constants of newlib's headers\<close>

text \<open>Values of \<open>errno.h\<close>, \<open>fcntl.h\<close> and \<open>sys/stat.h\<close> on this target.\<close>

abbreviation (input) EIO :: int where "EIO \<equiv> 5"
abbreviation (input) ESRCH :: int where "ESRCH \<equiv> 3"
abbreviation (input) ECHILD :: int where "ECHILD \<equiv> 10"
abbreviation (input) EWOULDBLOCK :: int where "EWOULDBLOCK \<equiv> 11"
abbreviation (input) EACCES :: int where "EACCES \<equiv> 13"
abbreviation (input) ENODEV :: int where "ENODEV \<equiv> 19"
abbreviation (input) EINVAL :: int where "EINVAL \<equiv> 22"
abbreviation (input) EMFILE :: int where "EMFILE \<equiv> 24"
abbreviation (input) ENOTTY :: int where "ENOTTY \<equiv> 25"
abbreviation (input) EBADFD :: int where "EBADFD \<equiv> 81"
abbreviation (input) ENOSYS :: int where "ENOSYS \<equiv> 88"
abbreviation (input) ENOTSUP :: int where "ENOTSUP \<equiv> 134"

abbreviation (input) O_RDONLY :: "32 word" where "O_RDONLY \<equiv> 0"
abbreviation (input) O_WRONLY :: "32 word" where "O_WRONLY \<equiv> 1"
abbreviation (input) O_ACCMODE :: "32 word" where "O_ACCMODE \<equiv> 3"
abbreviation (input) O_APPEND :: "32 word" where "O_APPEND \<equiv> 8"
abbreviation (input) O_NONBLOCK :: "32 word" where "O_NONBLOCK \<equiv> 0x4000"
abbreviation (input) F_GETFL :: int where "F_GETFL \<equiv> 3"
abbreviation (input) F_SETFL :: int where "F_SETFL \<equiv> 4"
abbreviation (input) IFCHR :: "32 word" where "IFCHR \<equiv> 0x2000"

end
