(* ===== verification/Number_Facts.thy ===== *)
theory Number_Facts
  imports HAL_Prelude
begin

text \<open>
  The arithmetic behind RSA: primes of the natural numbers, Fermat's little theorem
  (by the binomial theorem, since Number\_Theory is not among the imports), and the
  statement that raising to an exponent that is 1 modulo \<open>(p - 1) * (q - 1)\<close> is the
  identity modulo \<open>p * q\<close>.
\<close>

definition is_prime :: "nat \<Rightarrow> bool" where
  "is_prime p \<longleftrightarrow> 1 < p \<and> (\<forall>d. d dvd p \<longrightarrow> d = 1 \<or> d = p)"

lemma is_prime_gt1: "is_prime p \<Longrightarrow> 1 < p"
  by (simp add: is_prime_def)

lemma prime_coprime: "is_prime p \<Longrightarrow> \<not> p dvd a \<Longrightarrow> coprime p a"
proof (rule coprimeI)
  fix c assume p: "is_prime p" "\<not> p dvd a" and c: "c dvd p" "c dvd a"
  from p(1) c(1) have "c = 1 \<or> c = p" by (simp add: is_prime_def)
  with p(2) c(2) show "is_unit c" by auto
qed

lemma prime_dvd_mult: "is_prime p \<Longrightarrow> p dvd a * b \<Longrightarrow> p dvd a \<or> p dvd b"
  using prime_coprime coprime_dvd_mult_right_iff by blast

lemma distinct_primes_coprime: "is_prime p \<Longrightarrow> is_prime q \<Longrightarrow> p \<noteq> q \<Longrightarrow> coprime p q"
  by (rule prime_coprime) (auto simp: is_prime_def)

lemma prime_dvd_choose:
  assumes p: "is_prime p" and k: "0 < k" "k < p"
  shows "p dvd (p choose k)"
proof -
  obtain k' where k': "k = Suc k'" using k(1) gr0_implies_Suc by blast
  obtain p' where p': "p = Suc p'" using k(2) by (cases p) auto
  have "k * (p choose k) = p * (p' choose k')"
    unfolding k' p' using Suc_times_binomial_eq [of p' k'] by (simp add: mult.commute)
  then have dv: "p dvd k * (p choose k)" by simp
  have "\<not> p dvd k" using k by (auto dest: dvd_imp_le)
  then show ?thesis using prime_dvd_mult [OF p dv] by blast
qed

lemma freshman_dream:
  assumes p: "is_prime p"
  shows "(Suc a) ^ p mod p = Suc (a ^ p) mod p"
proof -
  have p0: "0 < p" using is_prime_gt1 [OF p] by simp
  let ?f = "\<lambda>k. (p choose k) * a ^ k"
  have "(Suc a) ^ p = (a + 1) ^ p" by simp
  also have "\<dots> = (\<Sum>k\<le>p. ?f k)"
    unfolding binomial by simp
  also have "{..p} = insert 0 (insert p {0<..<p})" using p0 by auto
  also have "sum ?f (insert 0 (insert p {0<..<p})) = 1 + (a ^ p + sum ?f {0<..<p})"
    using p0 by simp
  finally have eq: "(Suc a) ^ p = Suc (a ^ p) + sum ?f {0<..<p}" by simp
  have "p dvd sum ?f {0<..<p}"
    by (rule dvd_sum) (auto intro: dvd_mult2 prime_dvd_choose [OF p])
  then show ?thesis unfolding eq by (auto simp: dvd_def)
qed

lemma fermat_little: "is_prime p \<Longrightarrow> a ^ p mod p = a mod p"
proof (induction a)
  case 0
  then show ?case using is_prime_gt1 [of p] by (simp add: power_0_left)
next
  case (Suc a)
  have "(Suc a) ^ p mod p = Suc (a ^ p) mod p" by (rule freshman_dream [OF Suc.prems])
  also have "\<dots> = Suc (a ^ p mod p) mod p" by (simp add: mod_Suc_eq)
  also have "\<dots> = Suc a mod p" using Suc by (simp add: mod_Suc_eq)
  finally show ?case .
qed

lemma fermat_iterate:
  assumes p: "is_prime p"
  shows "a ^ Suc (k * (p - 1)) mod p = a mod p"
proof (induction k)
  case 0
  show ?case by simp
next
  case (Suc k)
  have p1: "Suc (p - 1) = p" using is_prime_gt1 [OF p] by simp
  have "Suc (Suc k * (p - 1)) = k * (p - 1) + Suc (p - 1)" by simp
  then have "a ^ Suc (Suc k * (p - 1)) = a ^ (k * (p - 1)) * a ^ Suc (p - 1)"
    by (simp only: power_add)
  also have "\<dots> mod p = a ^ (k * (p - 1)) * (a ^ p mod p) mod p"
    unfolding p1 by (simp add: mod_mult_right_eq)
  also have "\<dots> = a ^ Suc (k * (p - 1)) mod p"
    by (simp add: fermat_little [OF p] mod_simps mult.commute)
  finally show ?case using Suc by simp
qed

theorem rsa_exponent:
  assumes p: "is_prime p" and q: "is_prime q" and ne: "p \<noteq> q"
    and x: "x mod ((p - 1) * (q - 1)) = 1" and m: "m < p * q"
  shows "m ^ x mod (p * q) = m"
proof -
  define k where "k = x div ((p - 1) * (q - 1))"
  have xk: "x = Suc (k * ((p - 1) * (q - 1)))"
    using div_mult_mod_eq [of x "(p - 1) * (q - 1)"] x by (simp add: k_def)
  have ap: "m ^ x mod p = m mod p"
    using fermat_iterate [OF p, of m "k * (q - 1)"] by (simp add: xk ac_simps)
  have aq: "m ^ x mod q = m mod q"
    using fermat_iterate [OF q, of m "k * (p - 1)"] by (simp add: xk ac_simps)
  have le: "m \<le> m ^ x" unfolding xk by (cases "m = 0") simp_all
  from ap aq have "p dvd m ^ x - m" "q dvd m ^ x - m"
    using le by (simp_all add: mod_eq_dvd_iff_nat)
  then have "p * q dvd m ^ x - m"
    by (rule divides_mult) (rule distinct_primes_coprime [OF p q ne])
  then have "m ^ x mod (p * q) = m mod (p * q)"
    using le by (simp add: mod_eq_dvd_iff_nat)
  with m show ?thesis by simp
qed

end
