(* ===== verification/RSA_Software.thy ===== *)
theory RSA_Software
  imports Number_Facts
begin

text \<open>
  The software RSA of \<open>software/rsa/rsa_intonly.c\<close> (the stand-alone
  \<open>src/rsa_intonly.c\<close> has the same functions): primality by trial division, the
  exponent check, encryption and decryption by repeated multiplication, the search for
  the private key, and the whole dialogue \<open>software_encrypt\<close> with its operator.

  Every \<open>int\<close> of the code is an \<open>int\<close> with C's range check: a product, sum or
  difference that does not fit is \<open>SignedOverflow\<close>, which C leaves undefined. The
  operator is the list of the numbers \<open>scanf\<close> reads; the program's \<open>printf\<close> calls are
  a list of pairs (format string without its line end, arguments).
\<close>

section \<open>Primality and the public exponent\<close>

function prime_loop :: "int \<Rightarrow> int \<Rightarrow> int" where
  "prime_loop number i =
     (if i < number
      then (if number smod i = 0 \<and> i \<noteq> number then 0 else prime_loop number (i + 1))
      else 1)"
  by pat_completeness auto
termination
  by (relation "measure (\<lambda>(number, i). nat (number - i))") auto

declare prime_loop.simps [simp del]

definition prime_checker :: "int \<Rightarrow> int" where
  "prime_checker number = prime_loop number 2"

definition e_checker :: "int \<Rightarrow> int \<Rightarrow> int" where
  "e_checker e phi =
     (let prime = prime_checker e;
          lessthan = (if e < phi then 1 else 0 :: int)
      in if lessthan = 1 \<and> prime = 1 then 1 else 0)"

section \<open>Encryption and decryption\<close>

function encrypt_loop :: "int \<Rightarrow> int \<Rightarrow> int \<Rightarrow> int \<Rightarrow> int \<Rightarrow> int c_res" where
  "encrypt_loop M e n i C =
     (if i < e
      then res_bind (c_mul C M) (\<lambda>x. res_bind (c_rem x n) (\<lambda>C'. encrypt_loop M e n (i + 1) C'))
      else Inr C)"
  by pat_completeness auto
termination
  by (relation "measure (\<lambda>(M, e, n, i, C). nat (e - i))") auto

declare encrypt_loop.simps [simp del]

definition encrypt :: "int \<Rightarrow> int \<Rightarrow> int \<Rightarrow> int c_res" where
  "encrypt M e n = res_bind (encrypt_loop M e n 0 1) (\<lambda>C. c_rem C n)"

function decrypt_loop :: "int \<Rightarrow> int \<Rightarrow> int \<Rightarrow> int \<Rightarrow> int \<Rightarrow> int c_res" where
  "decrypt_loop C d n i M =
     (if i < d
      then res_bind (c_mul M C) (\<lambda>x. res_bind (c_rem x n) (\<lambda>M'. decrypt_loop C d n (i + 1) M'))
      else Inr M)"
  by pat_completeness auto
termination
  by (relation "measure (\<lambda>(C, d, n, i, M). nat (d - i))") auto

declare decrypt_loop.simps [simp del]

definition decrypt :: "int \<Rightarrow> int \<Rightarrow> int \<Rightarrow> int c_res" where
  "decrypt C d n = res_bind (decrypt_loop C d n 0 1) (\<lambda>M. c_rem M n)"

section \<open>The private key\<close>

text \<open>
  \<open>d = 1; s = (d * e) % phi; while (s != 1) { s = (d * e) % phi; d++; } d--;\<close>
  The recursion ends because \<open>d\<close> cannot be incremented past \<open>INT_MAX\<close>.
\<close>

function gen_d_loop :: "int \<Rightarrow> int \<Rightarrow> int \<Rightarrow> int \<Rightarrow> int c_res" where
  "gen_d_loop e phi d s =
     (if s \<noteq> 1
      then res_bind (c_mul d e) (\<lambda>x. res_bind (c_rem x phi) (\<lambda>s'.
           res_bind (c_add d 1) (\<lambda>d'. gen_d_loop e phi d' s')))
      else c_sub d 1)"
  by pat_completeness auto
termination
  by (relation "measure (\<lambda>(e, phi, d, s). nat (INT_MAX - d))")
     (auto simp: c_add_def c_int_eq_Inr int_ok_def)

declare gen_d_loop.simps [simp del]

definition gen_d :: "int \<Rightarrow> int \<Rightarrow> int c_res" where
  "gen_d e phi = res_bind (c_mul 1 e) (\<lambda>x. res_bind (c_rem x phi) (\<lambda>s. gen_d_loop e phi 1 s))"

section \<open>The dialogue\<close>

type_synonym printed = "string \<times> int list"

fun read_prime :: "string \<Rightarrow> string \<Rightarrow> int list \<Rightarrow> printed list \<Rightarrow>
    (int \<times> int list \<times> printed list) c_res" where
  "read_prime ask bad [] out = Inl NoInput"
| "read_prime ask bad (x # inp) out =
     (if prime_checker x = 0
      then read_prime ask bad inp (out @ [(ask, []), (bad, [])])
      else Inr (x, inp, out @ [(ask, [])]))"

fun read_e :: "int \<Rightarrow> int list \<Rightarrow> printed list \<Rightarrow> (int \<times> int list \<times> printed list) c_res" where
  "read_e phi [] out = Inl NoInput"
| "read_e phi (x # inp) out =
     (let out = out @ [(''Enter a prime number that is less than phi for (e): '', [])]
      in if e_checker x phi = 0
         then read_e phi inp (out @ [(''Your e number is not valid.'', [])])
         else Inr (x, inp, out))"

definition scanf_int :: "int list \<Rightarrow> (int \<times> int list) c_res" where
  "scanf_int inp = (case inp of [] \<Rightarrow> Inl NoInput | x # xs \<Rightarrow> Inr (x, xs))"

text \<open>
  The session in three parts, as the source orders them: the primes with \<open>n\<close> and
  \<open>phi\<close>; the keys; the two messages.
\<close>

definition session_primes :: "int list \<Rightarrow> (int \<times> int \<times> int list \<times> printed list) c_res" where
  "session_primes inp =
     res_bind (read_prime ''Enter first prime number: '' ''Your first number is not prime.''
                 inp [(''RSA encryption ready...'', [])]) (\<lambda>(p, inp, out).
     res_bind (read_prime ''Enter second prime number: '' ''Your second number is not prime.''
                 inp out) (\<lambda>(q, inp, out).
     res_bind (c_mul p q) (\<lambda>n.
     res_bind (c_sub p 1) (\<lambda>p1. res_bind (c_sub q 1) (\<lambda>q1. res_bind (c_mul p1 q1) (\<lambda>phi.
     Inr (n, phi, inp,
          out @ [(''First number: %d, Second number: %d'', [p, q]),
                 (''Phi value = %d'', [phi])])))))))"

definition session_keys :: "int \<Rightarrow> int \<Rightarrow> int list \<Rightarrow> printed list \<Rightarrow>
    (int \<times> int \<times> int list \<times> printed list) c_res" where
  "session_keys n phi inp out =
     res_bind (read_e phi inp out) (\<lambda>(e, inp, out).
     res_bind (gen_d e phi) (\<lambda>d.
     Inr (e, d, inp, out @ [(''Public Key: %d %d'', [e, n]), (''Private key: %d %d'', [d, n])])))"

definition session_messages :: "int \<Rightarrow> int \<Rightarrow> int \<Rightarrow> int list \<Rightarrow> printed list \<Rightarrow>
    (int list \<times> printed list) c_res" where
  "session_messages n e d inp out =
     res_bind (scanf_int inp) (\<lambda>(M, inp).
     res_bind (encrypt M e n) (\<lambda>ciphertext.
     res_bind (scanf_int inp) (\<lambda>(C, inp).
     res_bind (decrypt C d n) (\<lambda>plaintext.
     Inr (inp, out @ [(''Enter plaintext: '', []), (''Encrypted: %d'', [ciphertext]),
                      (''Enter ciphertext: '', []), (''Decrypted: %d'', [plaintext])])))))"

definition software_encrypt :: "int list \<Rightarrow> (int list \<times> printed list) c_res" where
  "software_encrypt inp =
     res_bind (session_primes inp) (\<lambda>(n, phi, inp, out).
     res_bind (session_keys n phi inp out) (\<lambda>(e, d, inp, out).
     session_messages n e d inp out))"


section \<open>Trial division decides primality\<close>

lemma smod_eq_0_iff: "0 < i \<Longrightarrow> 0 \<le> number \<Longrightarrow> number smod i = 0 \<longleftrightarrow> i dvd number"
  for number i :: int
  by (simp add: signed_modulo_int_def signed_divide_int_def sgn_if minus_mult_div_eq_mod
      mod_eq_0_iff_dvd)

lemma prime_loop_spec:
  "2 \<le> i \<Longrightarrow> prime_loop number i = (if \<exists>k. i \<le> k \<and> k < number \<and> k dvd number then 0 else 1)"
proof (induction number i rule: prime_loop.induct)
  case (1 number i)
  show ?case
  proof (cases "i < number \<and> \<not> i dvd number")
    case True
    then have "(\<exists>k. i \<le> k \<and> k < number \<and> k dvd number) \<longleftrightarrow>
        (\<exists>k. i + 1 \<le> k \<and> k < number \<and> k dvd number)"
      by (metis order_le_less zless_imp_add1_zle zle_add1_eq_le add1_zle_eq order_less_imp_le)
    with True 1 show ?thesis
      by (simp add: prime_loop.simps [of number i] smod_eq_0_iff)
  next
    case False
    with "1.prems" show ?thesis
      by (auto simp: prime_loop.simps [of number i] smod_eq_0_iff)
  qed
qed

lemma no_divisor_is_prime:
  assumes "2 \<le> number"
  shows "(\<nexists>k. 2 \<le> k \<and> k < number \<and> k dvd number) \<longleftrightarrow> is_prime (nat number)"
proof
  assume L: "\<nexists>k. 2 \<le> k \<and> k < number \<and> k dvd number"
  show "is_prime (nat number)"
    unfolding is_prime_def
  proof (intro conjI allI impI)
    show "1 < nat number" using assms by simp
    fix d assume d: "d dvd nat number"
    then have di: "int d dvd number" using assms by (simp add: int_dvd_int_iff [symmetric])
    have "d \<le> nat number" "d \<noteq> 0" using d assms by (auto dest: dvd_imp_le intro: ccontr)
    then show "d = 1 \<or> d = nat number" using L di by (auto simp: not_le dest: spec [of _ "int d"])
  qed
next
  assume R: "is_prime (nat number)"
  show "\<nexists>k. 2 \<le> k \<and> k < number \<and> k dvd number"
  proof
    assume "\<exists>k. 2 \<le> k \<and> k < number \<and> k dvd number"
    then obtain k where k: "2 \<le> k" "k < number" "k dvd number" by blast
    then have "nat k dvd nat number" by (simp add: nat_dvd_iff)
    with R have "nat k = 1 \<or> nat k = nat number" by (simp add: is_prime_def)
    with k show False by auto
  qed
qed

lemma prime_checker_value:
  "prime_checker number = (if number < 2 \<or> is_prime (nat number) then 1 else 0)"
proof (cases "number < 2")
  case True
  then show ?thesis by (simp add: prime_checker_def prime_loop.simps [of number 2])
next
  case False
  then show ?thesis
    using no_divisor_is_prime [of number] by (auto simp: prime_checker_def prime_loop_spec)
qed

lemma e_checker_value:
  "e_checker e phi = (if e < phi \<and> (e < 2 \<or> is_prime (nat e)) then 1 else 0)"
  by (simp add: e_checker_def prime_checker_value)

text \<open>
  C2. \<open>e_checker\<close> accepts exactly the exponents below \<open>phi\<close> that are prime or less than
  2; \<open>prime_checker\<close> likewise returns 1 exactly for the primes and for every number below
  2, so 0, 1 and the negative numbers pass both checks.
\<close>

theorem prime_checker_correct:
  "prime_checker number = (if number < 2 \<or> is_prime (nat number) then 1 else 0) \<and>
   e_checker number phi = (if number < phi \<and> (number < 2 \<or> is_prime (nat number)) then 1 else 0)"
  by (simp add: prime_checker_value e_checker_value)

section \<open>Repeated multiplication is modular exponentiation\<close>

lemma mult_fits:
  assumes "0 \<le> M" "M \<le> INT_MAX" "M * (n - 1) \<le> INT_MAX" "0 \<le> C" "C = 1 \<or> C < n"
  shows "int_ok (C * M)"
proof -
  have "C * M \<le> INT_MAX"
  proof (cases "C = 1")
    case False
    with assms have "C * M \<le> (n - 1) * M" by (intro mult_right_mono) auto
    then show ?thesis using assms by (simp add: mult.commute)
  qed (use assms in simp)
  moreover have "0 \<le> C * M" using assms by simp
  ultimately show ?thesis by (simp add: int_ok_def)
qed

lemma encrypt_loop_spec:
  assumes M: "0 \<le> M" "M \<le> INT_MAX" and n: "0 < n" and fits: "M * (n - 1) \<le> INT_MAX"
  shows "0 \<le> C \<Longrightarrow> C = 1 \<or> C < n \<Longrightarrow>
    \<exists>x. encrypt_loop M e n i C = Inr x \<and> 0 \<le> x \<and> x mod n = C * M ^ nat (e - i) mod n"
proof (induction "nat (e - i)" arbitrary: i C)
  case 0
  then show ?case by (simp add: encrypt_loop.simps [of M e n i])
next
  case (Suc k)
  then have lt: "i < e" and k: "k = nat (e - (i + 1))" by simp_all
  have ok: "int_ok (C * M)" using mult_fits [OF M fits] Suc.prems by blast
  then have step: "encrypt_loop M e n i C = encrypt_loop M e n (i + 1) (C * M mod n)"
    using lt n Suc.prems M
    by (subst encrypt_loop.simps) (simp add: c_mul_def c_simps)
  obtain x where x: "encrypt_loop M e n (i + 1) (C * M mod n) = Inr x" "0 \<le> x"
    "x mod n = (C * M mod n) * M ^ nat (e - (i + 1)) mod n"
    using Suc.hyps(1) [OF k, of "C * M mod n"] n by auto
  have "C * M ^ nat (e - i) = C * M * M ^ nat (e - (i + 1))"
    using Suc.hyps(2) k by (metis mult.assoc power_Suc)
  then have "x mod n = C * M ^ nat (e - i) mod n"
    using x(3) by (simp only: mod_mult_left_eq)
  with x step show ?case by simp
qed

lemma encrypt_value:
  assumes "0 \<le> M" "M \<le> INT_MAX" "0 < n" "M * (n - 1) \<le> INT_MAX"
  shows "encrypt M e n = Inr (M ^ nat e mod n)"
  using encrypt_loop_spec [OF assms, of 1 e 0] \<open>0 < n\<close>
  by (auto simp: encrypt_def c_simps)

lemma decrypt_loop_eq: "decrypt_loop C d n i M = encrypt_loop C d n i M"
proof (induction C d n i M rule: decrypt_loop.induct)
  case (1 C d n i M)
  show ?case
    by (subst decrypt_loop.simps, subst encrypt_loop.simps)
      (auto simp: 1 res_bind_def split: sum.splits)
qed

lemma decrypt_eq_encrypt: "decrypt C d n = encrypt C d n"
  by (simp add: decrypt_def encrypt_def decrypt_loop_eq)

text \<open>
  C3. Where no product can leave the range of \<open>int\<close>, \<open>encrypt\<close> and \<open>decrypt\<close> both return
  the power of their argument modulo \<open>n\<close>: the loop of \<open>e\<close> multiplications computes
  modular exponentiation.
\<close>

theorem encrypt_is_modexp:
  assumes "0 \<le> M" "M \<le> INT_MAX" "0 < n" "M * (n - 1) \<le> INT_MAX"
  shows "encrypt M e n = Inr (M ^ nat e mod n) \<and> decrypt M e n = Inr (M ^ nat e mod n)"
  using assms by (simp add: encrypt_value decrypt_eq_encrypt)

theorem encrypt_is_modexp_witness:
  "encrypt 65 17 3233 = Inr 2790 \<and> decrypt 65 17 3233 = Inr 2790"
  using encrypt_is_modexp [of 65 3233 17] by simp

section \<open>The private key search\<close>

lemma gen_d_step:
  assumes "s \<noteq> 1" "0 < e" "0 < phi" "1 \<le> d"
  shows "gen_d_loop e phi d s =
    (if d * e \<le> INT_MAX \<and> d < INT_MAX
     then gen_d_loop e phi (d + 1) (d * e mod phi) else Inl SignedOverflow)"
proof -
  have "0 \<le> d * e" using assms by simp
  then have "int_ok (d * e) \<longleftrightarrow> d * e \<le> INT_MAX" unfolding int_ok_def by linarith
  moreover have "int_ok (d + 1) \<longleftrightarrow> d < INT_MAX" using assms by (auto simp: int_ok_def)
  ultimately show ?thesis using \<open>0 \<le> d * e\<close> assms
    by (subst gen_d_loop.simps) (simp add: c_mul_def c_add_def c_int_def c_simps)
qed

lemma gen_d_loop_found: "2 \<le> d \<Longrightarrow> d \<le> INT_MAX \<Longrightarrow> gen_d_loop e phi d 1 = Inr (d - 1)"
  by (subst gen_d_loop.simps) (simp add: c_sub_def c_int_def int_ok_def)

lemma gen_d_loop_least:
  assumes e: "0 < e" "0 < phi"
    and r: "r * e mod phi = 1" "r * e \<le> INT_MAX" "r < INT_MAX"
    and least: "\<And>k. 1 \<le> k \<Longrightarrow> k < r \<Longrightarrow> k * e mod phi \<noteq> 1"
  shows "s \<noteq> 1 \<Longrightarrow> 1 \<le> d \<Longrightarrow> d \<le> r \<Longrightarrow> gen_d_loop e phi d s = Inr r"
proof (induction "nat (r - d)" arbitrary: d s)
  case 0
  then have "d = r" by simp
  with 0 e r show ?case
    by (simp add: gen_d_step gen_d_loop_found)
next
  case (Suc k)
  then have lt: "d < r" and k: "k = nat (r - (d + 1))" by simp_all
  have "d * e \<le> r * e" using lt e by (intro mult_right_mono) auto
  then have "d * e \<le> INT_MAX" using r by linarith
  moreover have "d * e mod phi \<noteq> 1" using least Suc.prems lt by simp
  ultimately show ?case
    using Suc.hyps(1) [OF k, of "d * e mod phi"] Suc.prems lt r e by (simp add: gen_d_step)
qed

lemma gen_d_loop_none:
  assumes e: "0 < e" "0 < phi" and none: "\<And>k. 1 \<le> k \<Longrightarrow> k * e mod phi \<noteq> 1"
  shows "s \<noteq> 1 \<Longrightarrow> 1 \<le> d \<Longrightarrow> gen_d_loop e phi d s = Inl SignedOverflow"
proof (induction "nat (INT_MAX - d)" arbitrary: d s rule: less_induct)
  case less
  show ?case
  proof (cases "d * e \<le> INT_MAX \<and> d < INT_MAX")
    case True
    then have "nat (INT_MAX - (d + 1)) < nat (INT_MAX - d)" by simp
    from less.hyps [OF this, of "d * e mod phi"] True less.prems none e show ?thesis
      by (simp add: gen_d_step)
  next
    case False
    with less.prems e show ?thesis by (auto simp: gen_d_step)
  qed
qed

lemma mod_inverse_exists:
  fixes e phi :: int
  assumes "1 < phi" "coprime e phi"
  obtains r where "1 \<le> r" "r < phi" "r * e mod phi = 1"
proof -
  obtain u v where "u * e + v * phi = 1"
    using bezout_int [of e phi] assms(2) by auto
  then have "u * e mod phi = 1" using assms(1) by (metis mod_mult_self1 mod_pos_pos_trivial
      zero_le_one)
  then have r: "(u mod phi) * e mod phi = 1" by (simp add: mod_mult_left_eq)
  have "u mod phi \<noteq> 0" using r assms(1) by auto
  moreover have "0 \<le> u mod phi" "u mod phi < phi" using assms(1) by simp_all
  ultimately show thesis using that [of "u mod phi"] r by linarith
qed

lemma mod_inverse_coprime:
  fixes e phi :: int
  assumes "k * e mod phi = 1"
  shows "coprime e phi"
proof (rule coprimeI)
  fix c assume "c dvd e" "c dvd phi"
  then have "c dvd k * e mod phi" by (simp add: dvd_mod)
  with assms show "is_unit c" by simp
qed

lemma least_inverse:
  fixes e phi :: int
  assumes "1 < phi" "coprime e phi"
  obtains r where "1 \<le> r" "r < phi" "r * e mod phi = 1"
    "\<And>k. 1 \<le> k \<Longrightarrow> k < r \<Longrightarrow> k * e mod phi \<noteq> 1"
proof -
  let ?P = "\<lambda>n. 1 \<le> n \<and> int n * e mod phi = 1"
  obtain r where r: "1 \<le> r" "r < phi" "r * e mod phi = 1"
    using mod_inverse_exists [OF assms] .
  then have ex: "?P (nat r)" by simp
  show thesis
  proof (rule that [of "int (LEAST n. ?P n)"])
    show "1 \<le> int (LEAST n. ?P n)" "int (LEAST n. ?P n) * e mod phi = 1"
      using LeastI [of ?P, OF ex] by simp_all
    show "int (LEAST n. ?P n) < phi" using Least_le [of ?P, OF ex] r by simp
    fix k assume "1 \<le> k" "k < int (LEAST n. ?P n)"
    then show "k * e mod phi \<noteq> 1"
      using not_less_Least [of "nat k" ?P] by auto
  qed
qed

lemma gen_d_start:
  assumes "1 < e" "e < phi" "e \<le> INT_MAX"
  shows "gen_d e phi = gen_d_loop e phi 1 e"
  using assms by (simp add: gen_d_def c_mul_def c_int_def int_ok_def c_simps)

lemma gen_d_least:
  assumes "1 < e" "e < phi" "phi * e \<le> INT_MAX" "coprime e phi"
  obtains d where "gen_d e phi = Inr d" "1 \<le> d" "d < phi" "d * e mod phi = 1"
    "\<And>k. 1 \<le> k \<Longrightarrow> k < d \<Longrightarrow> k * e mod phi \<noteq> 1"
proof -
  obtain d where d: "1 \<le> d" "d < phi" "d * e mod phi = 1"
    "\<And>k. 1 \<le> k \<Longrightarrow> k < d \<Longrightarrow> k * e mod phi \<noteq> 1"
    using least_inverse [of phi e] assms by auto
  have "d * e \<le> phi * e" "phi * 1 \<le> phi * e"
    using d assms by (auto intro: mult_right_mono mult_left_mono)
  then have "d * e \<le> INT_MAX" "d < INT_MAX" "e \<le> INT_MAX"
    using assms d by linarith+
  then have "gen_d e phi = Inr d"
    using gen_d_loop_least [of e phi d e 1] gen_d_start [of e phi] assms d by simp
  with d that show thesis by blast
qed

text \<open>
  C4. The search for the private key. With \<open>1 < e < phi\<close> and \<open>phi * e\<close> in range it
  returns, when \<open>e\<close> and \<open>phi\<close> are coprime, the least positive inverse of \<open>e\<close> modulo
  \<open>phi\<close>; when they are not, the loop runs on until \<open>d * e\<close> or \<open>d\<close> overflows, although
  \<open>e_checker\<close> may have accepted \<open>e\<close>.
\<close>

theorem gen_d_correct:
  assumes "1 < e" "e < phi" "phi * e \<le> INT_MAX"
  shows "if coprime e phi
         then \<exists>d. gen_d e phi = Inr d \<and> 1 \<le> d \<and> d < phi \<and> d * e mod phi = 1 \<and>
                  (\<forall>k. 1 \<le> k \<and> k < d \<longrightarrow> k * e mod phi \<noteq> 1)
         else gen_d e phi = Inl SignedOverflow"
proof (cases "coprime e phi")
  case True
  then show ?thesis using gen_d_least [OF assms True] by (metis (no_types, lifting))
next
  case False
  have "e * 1 \<le> phi * e" using assms by (simp add: mult.commute [of phi])
  then have "e \<le> INT_MAX" using assms by linarith
  moreover have "\<And>k. k * e mod phi \<noteq> 1" using False mod_inverse_coprime by blast
  ultimately show ?thesis
    using gen_d_loop_none [of e phi e 1] gen_d_start [of e phi] assms False by simp
qed

theorem gen_d_correct_witness:
  "(\<exists>d. gen_d 17 3120 = Inr d \<and> 1 \<le> d \<and> d < 3120 \<and> d * 17 mod 3120 = 1 \<and>
        (\<forall>k. 1 \<le> k \<and> k < d \<longrightarrow> k * 17 mod 3120 \<noteq> 1)) \<and>
   gen_d 3 12 = Inl SignedOverflow"
proof -
  have "coprime (17::int) 3120" by (rule mod_inverse_coprime [of 2753]) simp
  moreover have "\<not> coprime (3::int) 12"
    using not_coprimeI [of 3 "3::int" 12] by simp
  ultimately show ?thesis using gen_d_correct [of 17 3120] gen_d_correct [of 3 12] by simp
qed

section \<open>Decryption undoes encryption\<close>

lemma rsa_exponent_int:
  fixes p q x M :: int
  assumes "is_prime (nat p)" "is_prime (nat q)" "p \<noteq> q" "0 \<le> x"
    and "x mod ((p - 1) * (q - 1)) = 1" "0 \<le> M" "M < p * q"
  shows "M ^ nat x mod (p * q) = M"
proof -
  define P Q X m where "P = nat p" and "Q = nat q" and "X = nat x" and "m = nat M"
  have pos: "1 < P" "1 < Q" 
    using is_prime_gt1 [OF assms(1)] is_prime_gt1 [OF assms(2)] by (simp_all add: P_def Q_def)
  then have eqs: "p = int P" "q = int Q" "x = int X" "M = int m"
    using assms by (simp_all add: P_def Q_def X_def m_def)
  have "int (X mod ((P - 1) * (Q - 1))) = 1"
    using assms pos by (simp add: eqs of_nat_mod)
  then have "X mod ((P - 1) * (Q - 1)) = 1" by simp
  moreover have "m < P * Q"
    using assms(7) unfolding eqs by (simp flip: of_nat_mult)
  ultimately have "m ^ X mod (P * Q) = m"
    using rsa_exponent [of P Q X m] assms by (simp add: P_def Q_def eq_nat_nat_iff)
  then have "int (m ^ X mod (P * Q)) = int m" by simp
  then show ?thesis by (simp add: eqs of_nat_mod)
qed

text \<open>The range that makes every product of a session fit: \<open>n\<close> at most 46341.\<close>

lemma key_bounds:
  fixes p q e :: int
  assumes "is_prime (nat p)" "is_prime (nat q)" "p * q \<le> 46341"
    and e: "1 < e" "e < (p - 1) * (q - 1)"
  shows "2 \<le> p" "2 \<le> q" "(p - 1) * (q - 1) < p * q" "(p - 1) * (q - 1) * e \<le> INT_MAX"
proof -
  show p: "2 \<le> p" and q: "2 \<le> q" using assms is_prime_gt1 by force+
  show lt: "(p - 1) * (q - 1) < p * q" using p q by (simp add: algebra_simps)
  then have "(p - 1) * (q - 1) * e \<le> 46340 * 46340"
    using assms p q by (intro mult_mono) auto
  then show "(p - 1) * (q - 1) * e \<le> INT_MAX" by simp
qed

lemma modexp_fits:
  fixes M n :: int
  assumes "0 \<le> M" "M < n" "n \<le> 46341"
  shows "M \<le> INT_MAX" "0 < n" "M * (n - 1) \<le> INT_MAX"
proof -
  have "M * (n - 1) \<le> 46340 * 46340" using assms by (intro mult_mono) auto
  then show "M * (n - 1) \<le> INT_MAX" by simp
qed (use assms in simp_all)

lemma encrypt_small: "0 \<le> M \<Longrightarrow> M < n \<Longrightarrow> n \<le> 46341 \<Longrightarrow> encrypt M e n = Inr (M ^ nat e mod n)"
  using modexp_fits encrypt_value by blast

lemma gen_d_inverts:
  assumes "1 < e" "e < phi" "phi * e \<le> INT_MAX" "gen_d e phi = Inr d"
  shows "1 \<le> d" "d * e mod phi = 1"
proof -
  have "coprime e phi"
  proof (rule ccontr)
    assume nc: "\<not> coprime e phi"
    have "e * 1 \<le> phi * e" using assms by (simp add: mult.commute [of phi])
    then have "e \<le> INT_MAX" using assms by linarith
    moreover have "\<And>k. k * e mod phi \<noteq> 1" using nc mod_inverse_coprime by blast
    ultimately show False
      using gen_d_loop_none [of e phi e 1] gen_d_start [of e phi] assms by simp
  qed
  then show "1 \<le> d" "d * e mod phi = 1"
    using gen_d_least [of e phi] assms by (metis sum.inject(2))+
qed

lemma crypt_inverts:
  assumes "is_prime (nat p)" "is_prime (nat q)" "p \<noteq> q" "p * q \<le> 46341"
    and e: "1 < e" "e < (p - 1) * (q - 1)"
    and d: "gen_d e ((p - 1) * (q - 1)) = Inr d" and M: "0 \<le> M" "M < p * q"
  shows "encrypt (M ^ nat e mod (p * q)) d (p * q) = Inr M"
proof -
  let ?n = "p * q" and ?phi = "(p - 1) * (q - 1)"
  note kb = key_bounds [OF assms(1,2,4) e]
  have d': "1 \<le> d" "d * e mod ?phi = 1"
    using gen_d_inverts [OF e kb(4) d] by simp_all
  have n: "0 < ?n" using M by linarith
  have "encrypt (M ^ nat e mod ?n) d ?n = Inr ((M ^ nat e mod ?n) ^ nat d mod ?n)"
    using n assms(4) by (intro encrypt_small) simp_all
  also have "(M ^ nat e mod ?n) ^ nat d mod ?n = M ^ nat (d * e) mod ?n"
    using d' e by (simp add: power_mod power_mult [symmetric] nat_mult_distrib mult.commute)
  also have "\<dots> = M"
    using rsa_exponent_int [OF assms(1-3), of "d * e" M] d' e M by simp
  finally show ?thesis .
qed

text \<open>
  C5. Decryption inverts encryption: for distinct primes whose product is at most 46341,
  an exponent between 1 and \<open>phi\<close> for which the key search returns, and a message below
  \<open>n\<close>, neither call overflows and \<open>decrypt (encrypt M)\<close> is \<open>M\<close>.
\<close>

theorem decrypt_encrypt:
  assumes "is_prime (nat p)" "is_prime (nat q)" "p \<noteq> q" "p * q \<le> 46341"
    and "1 < e" "e < (p - 1) * (q - 1)" "gen_d e ((p - 1) * (q - 1)) = Inr d"
    and "0 \<le> M" "M < p * q"
  shows "res_bind (encrypt M e (p * q)) (\<lambda>C. decrypt C d (p * q)) = Inr M"
  using encrypt_small [OF assms(8,9,4)] crypt_inverts [OF assms]
  by (simp add: decrypt_eq_encrypt)

lemma is_prime_small: "is_prime 3" "is_prime 11"
proof -
  have "prime_checker 3 = 1" "prime_checker 11 = 1" by code_simp+
  then show "is_prime 3" "is_prime 11" by (simp_all add: prime_checker_value split: if_splits)
qed

lemma gen_d_7_20: "gen_d 7 20 = Inr 3"
  by (simp add: gen_d_start gen_d_step gen_d_loop_found)

theorem decrypt_encrypt_witness:
  "res_bind (encrypt 5 7 (3 * 11)) (\<lambda>C. decrypt C 3 (3 * 11)) = Inr 5"
  by (rule decrypt_encrypt) (simp_all add: is_prime_small gen_d_7_20)

section \<open>The whole session\<close>

lemma prime_accepted: "is_prime (nat p) \<Longrightarrow> prime_checker p = 1"
  by (simp add: prime_checker_value)

lemma phi_ok:
  fixes p q :: int
  assumes "2 \<le> p" "2 \<le> q" "p * q \<le> 46341"
  shows "int_ok (p * q)" "int_ok (p - 1)" "int_ok (q - 1)" "int_ok ((p - 1) * (q - 1))"
proof -
  have "p * 1 \<le> p * q" "1 * q \<le> p * q" using assms by (auto intro: mult_mono)
  then have "p \<le> 46341" "q \<le> 46341" using assms by linarith+
  moreover have "0 \<le> p * q" "0 \<le> (p - 1) * (q - 1)" "(p - 1) * (q - 1) \<le> p * q"
    using assms by (simp_all add: mult_mono)
  ultimately show "int_ok (p * q)" "int_ok (p - 1)" "int_ok (q - 1)" "int_ok ((p - 1) * (q - 1))"
    using assms unfolding int_ok_def by linarith+
qed

text \<open>
  C6. A whole session. The operator types distinct primes with product at most 46341, a
  prime exponent coprime to \<open>phi\<close>, a message below \<open>n\<close> and then the ciphertext the program
  printed: the program reads all five numbers, prints \<open>n\<close>, \<open>phi\<close>, both keys and the
  ciphertext, and the last line it prints is the message.
\<close>

theorem software_encrypt_session:
  assumes "is_prime (nat p)" "is_prime (nat q)" "p \<noteq> q" "p * q \<le> 46341"
    and "is_prime (nat e)" "e < (p - 1) * (q - 1)" "coprime e ((p - 1) * (q - 1))"
    and "0 \<le> M" "M < p * q"
  defines "C \<equiv> M ^ nat e mod (p * q)"
  shows "\<exists>d. gen_d e ((p - 1) * (q - 1)) = Inr d \<and>
    software_encrypt [p, q, e, M, C] = Inr ([],
      [(''RSA encryption ready...'', []), (''Enter first prime number: '', []),
       (''Enter second prime number: '', []),
       (''First number: %d, Second number: %d'', [p, q]),
       (''Phi value = %d'', [(p - 1) * (q - 1)]),
       (''Enter a prime number that is less than phi for (e): '', []),
       (''Public Key: %d %d'', [e, p * q]), (''Private key: %d %d'', [d, p * q]),
       (''Enter plaintext: '', []), (''Encrypted: %d'', [C]),
       (''Enter ciphertext: '', []), (''Decrypted: %d'', [M])])"
proof -
  have e1: "1 < e" using is_prime_gt1 [OF assms(5)] by simp
  note kb = key_bounds [OF assms(1,2,4) e1 assms(6)]
  obtain d where d: "gen_d e ((p - 1) * (q - 1)) = Inr d"
    using gen_d_least [OF e1 assms(6) kb(4) assms(7)] by blast
  have inv: "decrypt C d (p * q) = Inr M"
    using crypt_inverts [OF assms(1-4) e1 assms(6) d assms(8,9)]
    by (simp add: C_def decrypt_eq_encrypt)
  have enc: "encrypt M e (p * q) = Inr C"
    using encrypt_small [OF assms(8,9,4)] by (simp add: C_def)
  note ok = phi_ok [OF kb(1,2) assms(4)]
  have primes: "session_primes [p, q, e, M, C] = Inr (p * q, (p - 1) * (q - 1), [e, M, C],
      [(''RSA encryption ready...'', []), (''Enter first prime number: '', []),
       (''Enter second prime number: '', []),
       (''First number: %d, Second number: %d'', [p, q]),
       (''Phi value = %d'', [(p - 1) * (q - 1)])])"
    using ok assms(1,2)
    by (simp add: session_primes_def prime_accepted c_mul_def c_sub_def c_int_def)
  show ?thesis
    using assms(5,6) d inv enc
    by (intro exI [of _ d]) (simp add: software_encrypt_def primes session_keys_def
        session_messages_def e_checker_value scanf_int_def)
qed

theorem software_encrypt_session_witness:
  "snd (case software_encrypt [3, 11, 7, 5, 14] of Inr r \<Rightarrow> r) \<noteq> [] \<and>
   last (snd (case software_encrypt [3, 11, 7, 5, 14] of Inr r \<Rightarrow> r)) = (''Decrypted: %d'', [5])"
proof -
  have "is_prime 7"
  proof -
    have "prime_checker 7 = 1" by code_simp
    then show ?thesis by (simp add: prime_checker_value split: if_splits)
  qed
  moreover have "coprime (7::int) 20" by (rule mod_inverse_coprime [of 3]) simp
  ultimately show ?thesis
    using software_encrypt_session [of 3 11 7 5] is_prime_small by auto
qed

section \<open>Degenerate exponents\<close>

text \<open>
  C11. The checks accept numbers that no RSA key may use. The exponent 1 passes
  \<open>e_checker\<close>, the key search then skips its loop and returns the private key 0, with
  which \<open>decrypt\<close> answers \<open>1 % n\<close> for every ciphertext; and a first "prime" 1 makes \<open>phi\<close>
  zero, by which the search divides.
\<close>

theorem degenerate_keys:
  "(1 < phi \<longrightarrow> e_checker 1 phi = 1 \<and> gen_d 1 phi = Inr 0) \<and>
   (1 < n \<longrightarrow> decrypt C 0 n = Inr 1) \<and>
   prime_checker 1 = 1 \<and> (int_ok e \<longrightarrow> gen_d e ((1 - 1) * (q - 1)) = Inl DivByZero)"
proof (intro conjI impI)
  assume "1 < phi"
  then show "e_checker 1 phi = 1" "gen_d 1 phi = Inr 0"
    by (simp_all add: e_checker_value gen_d_def c_mul_def c_int_def c_simps int_ok_def
        gen_d_loop.simps [of 1 phi 1] c_sub_def)
next
  assume "1 < n"
  then show "decrypt C 0 n = Inr 1"
    by (simp add: decrypt_def decrypt_loop.simps [of C 0 n 0 1] c_simps)
next
  show "prime_checker 1 = 1" by (simp add: prime_checker_value)
next
  assume "int_ok e"
  then show "gen_d e ((1 - 1) * (q - 1)) = Inl DivByZero"
    by (simp add: gen_d_def c_mul_def c_simps c_rem_def)
qed

theorem degenerate_keys_witness:
  "e_checker 1 20 = 1 \<and> gen_d 1 20 = Inr 0 \<and> decrypt 14 0 33 = Inr 1 \<and>
   gen_d (- 3) ((1 - 1) * (5 - 1)) = Inl DivByZero"
  using degenerate_keys [of 20 33 14 "- 3" 5] by (simp add: int_ok_def)

end
