(* ===== verification/Llist.thy ===== *)
theory Llist
  imports HAL_Prelude
begin

text \<open>
  The intrusive, circular, doubly linked lists of \<open>HAL/inc/sys/alt_llist.h\<close>, on which
  the device list, the file system list and the alarm list are built. The store maps an
  address to its \<open>alt_llist\<close> link fields; \<open>llist_repr h head xs\<close> says that the nodes
  \<open>xs\<close> hang off \<open>head\<close> in this order. Insertion and removal are translated pointer write
  by pointer write and refine consing and \<open>remove1\<close>.
\<close>

record alt_llist =
  ll_next :: nat
  ll_prev :: nat

type_synonym llheap = "nat \<Rightarrow> alt_llist"

text \<open>\<open>ALT_LLIST_HEAD\<close>: a head that points to itself; \<open>ALT_LLIST_ENTRY\<close>: both fields 0.\<close>

definition alt_llist_head :: "nat \<Rightarrow> llheap \<Rightarrow> llheap" where
  "alt_llist_head head h = h(head := \<lparr>ll_next = head, ll_prev = head\<rparr>)"

definition set_next :: "nat \<Rightarrow> nat \<Rightarrow> llheap \<Rightarrow> llheap" where
  "set_next a v h = h(a := (h a)\<lparr>ll_next := v\<rparr>)"

definition set_prev :: "nat \<Rightarrow> nat \<Rightarrow> llheap \<Rightarrow> llheap" where
  "set_prev a v h = h(a := (h a)\<lparr>ll_prev := v\<rparr>)"

definition alt_llist_insert :: "nat \<Rightarrow> nat \<Rightarrow> llheap \<Rightarrow> llheap" where
  "alt_llist_insert list entry h =
     (let h = set_prev entry list h;
          h = set_next entry (ll_next (h list)) h;
          h = set_prev (ll_next (h list)) entry h
      in set_next list entry h)"

definition alt_llist_remove :: "nat \<Rightarrow> llheap \<Rightarrow> llheap" where
  "alt_llist_remove entry h =
     (let h = set_prev (ll_next (h entry)) (ll_prev (h entry)) h;
          h = set_next (ll_prev (h entry)) (ll_next (h entry)) h;
          h = set_prev entry entry h
      in set_next entry entry h)"

text \<open>
  Following \<open>next\<close> pointers from \<open>cur\<close> until the head comes round again; \<open>None\<close> when the
  given number of hops is not enough.
\<close>

fun llist_walk :: "nat \<Rightarrow> llheap \<Rightarrow> nat \<Rightarrow> nat \<Rightarrow> nat list option" where
  "llist_walk 0 h head cur = None"
| "llist_walk (Suc fuel) h head cur =
     (if cur = head then Some []
      else map_option ((#) cur) (llist_walk fuel h head (ll_next (h cur))))"

section \<open>The abstraction\<close>

fun seg :: "llheap \<Rightarrow> nat \<Rightarrow> nat list \<Rightarrow> nat \<Rightarrow> bool" where
  "seg h a [] b \<longleftrightarrow> ll_next (h a) = b \<and> ll_prev (h b) = a"
| "seg h a (x # xs) b \<longleftrightarrow> ll_next (h a) = x \<and> ll_prev (h x) = a \<and> seg h x xs b"

definition llist_repr :: "llheap \<Rightarrow> nat \<Rightarrow> nat list \<Rightarrow> bool" where
  "llist_repr h head xs \<longleftrightarrow> distinct (head # xs) \<and> seg h head xs head"

lemma set_next_simps [simp]:
  "ll_next (set_next a v h b) = (if b = a then v else ll_next (h b))"
  "ll_prev (set_next a v h b) = ll_prev (h b)"
  by (auto simp: set_next_def)

lemma set_prev_simps [simp]:
  "ll_prev (set_prev a v h b) = (if b = a then v else ll_prev (h b))"
  "ll_next (set_prev a v h b) = ll_next (h b)"
  by (auto simp: set_prev_def)

lemma seg_append:
  "seg h a (xs @ y # ys) b \<longleftrightarrow> seg h a xs y \<and> seg h y ys b"
  by (induction xs arbitrary: a) auto

text \<open>A segment only depends on the next fields of its sources and the prev fields of its targets.\<close>

lemma seg_cong:
  assumes "\<And>x. x \<in> set (a # xs) \<Longrightarrow> ll_next (h' x) = ll_next (h x)"
    and "\<And>x. x \<in> set (xs @ [b]) \<Longrightarrow> ll_prev (h' x) = ll_prev (h x)"
  shows "seg h' a xs b = seg h a xs b"
  using assms by (induction xs arbitrary: a) auto

lemma seg_last_prev: "seg h a xs b \<Longrightarrow> ll_prev (h b) = last (a # xs)"
  by (induction xs arbitrary: a) auto

lemma seg_first_next: "seg h a xs b \<Longrightarrow> ll_next (h a) = hd (xs @ [b])"
  by (cases xs) auto

lemma last_notin_butlast: "distinct xs \<Longrightarrow> xs \<noteq> [] \<Longrightarrow> last xs \<notin> set (butlast xs)"
  by (induction xs) (auto split: if_splits)

text \<open>Sending the last node of a segment to another target.\<close>

lemma seg_retarget:
  assumes "seg h a xs e"
    and "\<And>x. x \<in> set (butlast (a # xs)) \<Longrightarrow> ll_next (h' x) = ll_next (h x)"
    and "\<And>x. x \<in> set xs \<Longrightarrow> ll_prev (h' x) = ll_prev (h x)"
    and "ll_next (h' (last (a # xs))) = b" "ll_prev (h' b) = last (a # xs)"
  shows "seg h' a xs b"
  using assms by (induction xs arbitrary: a) auto

section \<open>Insertion and removal refine cons and \<open>remove1\<close>\<close>

lemma insert_repr:
  assumes r: "llist_repr h head xs" and new: "entry \<notin> set (head # xs)"
  shows "llist_repr (alt_llist_insert head entry h) head (entry # xs)"
proof -
  let ?f = "ll_next (h head)"
  have f: "?f = hd (xs @ [head])"
    using r seg_first_next by (auto simp: llist_repr_def)
  have ne: "entry \<noteq> head" "entry \<noteq> ?f" using new f by (cases xs; auto)+
  let ?h = "alt_llist_insert head entry h"
  have n: "ll_next (?h x) = (if x = head then entry else if x = entry then ?f else ll_next (h x))"
    and p: "ll_prev (?h x) = (if x = ?f then entry else if x = entry then head else ll_prev (h x))" for x
    using ne by (auto simp: alt_llist_insert_def Let_def)
  have "seg ?h entry xs head"
  proof (cases xs)
    case Nil
    then show ?thesis using f ne by (simp add: n p)
  next
    case (Cons y ys)
    then have "seg h y ys head" "?f = y" using r by (simp_all add: llist_repr_def)
    moreover have "seg ?h y ys head = seg h y ys head"
      using r new Cons \<open>?f = y\<close> by (intro seg_cong) (auto simp: n p llist_repr_def)
    ultimately show ?thesis using Cons ne by (simp add: n p)
  qed
  then show ?thesis using r new ne by (auto simp: llist_repr_def n p)
qed

lemma remove_repr:
  assumes r: "llist_repr h head (ys @ entry # zs)"
  shows "llist_repr (alt_llist_remove entry h) head (ys @ zs)"
    and "alt_llist_remove entry h entry = \<lparr>ll_next = entry, ll_prev = entry\<rparr>"
proof -
  let ?p = "last (head # ys)" and ?n = "hd (zs @ [head])"
  have s: "seg h head ys entry" "seg h entry zs head" and d: "distinct (head # ys @ entry # zs)"
    using r by (simp_all add: llist_repr_def seg_append)
  have pe: "ll_prev (h entry) = ?p" and ne: "ll_next (h entry) = ?n"
    using s seg_last_prev seg_first_next by blast+
  have ne_p: "entry \<noteq> ?p" using d by (auto split: if_splits)
  have ne_n: "entry \<noteq> ?n" using d by (cases zs) auto
  let ?h = "alt_llist_remove entry h"
  have n: "ll_next (?h x) = (if x = entry then entry else if x = ?p then ?n else ll_next (h x))"
    and p: "ll_prev (?h x) = (if x = entry then entry else if x = ?n then ?p else ll_prev (h x))" for x
    using ne_p ne_n by (auto simp: alt_llist_remove_def Let_def pe ne)
  show "?h entry = \<lparr>ll_next = entry, ll_prev = entry\<rparr>"
    by (rule alt_llist.equality) (simp_all add: n p)
  have "seg ?h head (ys @ zs) head"
  proof (cases zs)
    case Nil
    show ?thesis
      using d Nil by (simp, intro seg_retarget [OF s(1)]) 
        (auto simp: n p last_notin_butlast dest: in_set_butlastD)
  next
    case (Cons z zs')
    have "seg ?h head ys z"
      using d Cons by (intro seg_retarget [OF s(1)])
        (auto simp: n p last_notin_butlast dest: in_set_butlastD)
    moreover have "ys = [] \<or> last ys \<notin> set zs'"
      using d Cons by (cases ys rule: rev_cases) auto
    then have "seg ?h z zs' head = seg h z zs' head"
      using d Cons by (intro seg_cong) (auto simp: n p)
    ultimately show ?thesis using s(2) Cons by (simp add: seg_append)
  qed
  with d show "llist_repr ?h head (ys @ zs)" by (auto simp: llist_repr_def)
qed

lemma remove_repr1:
  assumes "llist_repr h head xs" "entry \<in> set xs"
  shows "llist_repr (alt_llist_remove entry h) head (remove1 entry xs)"
proof -
  obtain ys zs where xs: "xs = ys @ entry # zs" "entry \<notin> set ys"
    using split_list_first [OF assms(2)] by blast
  then show ?thesis
    using remove_repr [of h head ys entry zs] assms(1) by (simp add: remove1_append)
qed

lemma remove_unlinked:
  "h entry = \<lparr>ll_next = entry, ll_prev = entry\<rparr> \<Longrightarrow> alt_llist_remove entry h = h"
  by (auto simp: alt_llist_remove_def Let_def set_next_def set_prev_def)

lemma head_repr: "llist_repr (alt_llist_head head h) head []"
  by (simp add: llist_repr_def alt_llist_head_def)

lemma repr_unique: "llist_repr h head xs \<Longrightarrow> llist_repr h head ys \<Longrightarrow> xs = ys"
proof -
  have "seg h a xs head \<Longrightarrow> seg h a ys head \<Longrightarrow> head \<notin> set xs \<Longrightarrow> head \<notin> set ys \<Longrightarrow> xs = ys" for a
  proof (induction xs arbitrary: a ys)
    case Nil
    then show ?case by (cases ys) auto
  next
    case (Cons x xs)
    then show ?case by (cases ys) auto
  qed
  then show "llist_repr h head xs \<Longrightarrow> llist_repr h head ys \<Longrightarrow> xs = ys"
    by (auto simp: llist_repr_def)
qed

lemma walk_seg:
  "seg h a xs head \<Longrightarrow> head \<notin> set xs \<Longrightarrow> length xs < fuel \<Longrightarrow>
   llist_walk fuel h head (ll_next (h a)) = Some xs"
proof (induction xs arbitrary: a fuel)
  case Nil
  then show ?case by (cases fuel) auto
next
  case (Cons x xs)
  then show ?case by (cases fuel) auto
qed

lemma walk_repr:
  "llist_repr h head xs \<Longrightarrow> length xs < fuel \<Longrightarrow> llist_walk fuel h head (ll_next (h head)) = Some xs"
  by (rule walk_seg) (auto simp: llist_repr_def)

text \<open>Operations on one list leave the nodes of a disjoint one alone.\<close>

lemma repr_frame:
  assumes "llist_repr h head xs" "\<And>x. x \<in> set (head # xs) \<Longrightarrow> h' x = h x"
  shows "llist_repr h' head xs"
proof -
  have "seg h' head xs head = seg h head xs head"
    using assms(2) by (intro seg_cong) auto
  with assms(1) show ?thesis by (simp add: llist_repr_def)
qed

lemma insert_other:
  "x \<noteq> head \<Longrightarrow> x \<noteq> entry \<Longrightarrow> x \<noteq> ll_next (h head) \<Longrightarrow> alt_llist_insert head entry h x = h x"
  by (auto simp: alt_llist_insert_def set_next_def set_prev_def Let_def)

section \<open>The registry interface\<close>

text \<open>
  What the clients of a list rely on: inserting puts a fresh element first, removing takes
  it out, and the list a store represents is unique. \<open>ok x\<close> says that \<open>x\<close> may be linked
  in (for the pointer lists: it is not the head).
\<close>

locale registry =
  fixes repr :: "'s \<Rightarrow> nat list \<Rightarrow> bool"
    and ins :: "nat \<Rightarrow> 's \<Rightarrow> 's"
    and rem :: "nat \<Rightarrow> 's \<Rightarrow> 's"
    and ok :: "nat \<Rightarrow> bool"
  assumes ins: "repr s xs \<Longrightarrow> ok x \<Longrightarrow> x \<notin> set xs \<Longrightarrow> repr (ins x s) (x # xs)"
    and rem: "repr s xs \<Longrightarrow> x \<in> set xs \<Longrightarrow> repr (rem x s) (remove1 x xs)"
    and unique: "repr s xs \<Longrightarrow> repr s ys \<Longrightarrow> xs = ys"
    and repr_distinct: "repr s xs \<Longrightarrow> distinct xs"
    and repr_ok: "repr s xs \<Longrightarrow> x \<in> set xs \<Longrightarrow> ok x"
begin

lemma rem_ins: "repr s xs \<Longrightarrow> ok x \<Longrightarrow> x \<notin> set xs \<Longrightarrow> repr (rem x (ins x s)) xs"
  using rem [OF ins, of s xs x x] by simp

lemma rem_gone:
  assumes "repr s xs" "x \<in> set xs" "repr (rem x s) ys"
  shows "x \<notin> set ys" "set ys = set xs - {x}"
  using unique [OF rem [OF assms(1,2)] assms(3)] repr_distinct [OF assms(1)]
  by (auto dest: sym)

lemma rem_commute:
  assumes "repr s xs" "x \<in> set xs" "y \<in> set xs" "x \<noteq> y"
    and "repr (rem x (rem y s)) ys" "repr (rem y (rem x s)) zs"
  shows "ys = zs"
proof -
  have "repr (rem x (rem y s)) (remove1 x (remove1 y xs))"
    using assms by (intro rem) simp_all
  moreover have "repr (rem y (rem x s)) (remove1 y (remove1 x xs))"
    using assms by (intro rem) simp_all
  ultimately show ?thesis using assms unique remove1_commute by metis
qed

text \<open>Registering a batch: the last one registered is found first.\<close>

lemma fold_ins:
  "repr s xs \<Longrightarrow> distinct ys \<Longrightarrow> set ys \<inter> set xs = {} \<Longrightarrow> (\<And>y. y \<in> set ys \<Longrightarrow> ok y) \<Longrightarrow>
   repr (fold ins ys s) (rev ys @ xs)"
proof (induction ys arbitrary: s xs)
  case (Cons y ys)
  then have "repr (ins y s) (y # xs)" using ins by simp
  from Cons.IH [OF this] Cons.prems show ?case by auto
qed simp

end

interpretation ll: registry "\<lambda>h. llist_repr h head" "alt_llist_insert head" alt_llist_remove
  "\<lambda>x. x \<noteq> head" for head
proof
  show "llist_repr (alt_llist_insert head x s) head (x # xs)"
    if "llist_repr s head xs" "x \<noteq> head" "x \<notin> set xs" for s xs x
    using insert_repr [of s head xs x] that by simp
  show "llist_repr (alt_llist_remove x s) head (remove1 x xs)"
    if "llist_repr s head xs" "x \<in> set xs" for s xs x using remove_repr1 that .
qed (auto simp: llist_repr_def intro: repr_unique [unfolded llist_repr_def])

text \<open>
  C12. The pointer operations of \<open>alt_llist.h\<close> refine list operations: inserting a fresh
  node puts it first, removing a node takes exactly it out and leaves it linked to itself
  (so that removing it again changes nothing), and a walk over the result visits these
  nodes in this order and ends.
\<close>

theorem llist_refines_list:
  assumes "llist_repr h head xs" "entry \<notin> set (head # xs)" "x \<in> set xs"
  shows "llist_repr (alt_llist_insert head entry h) head (entry # xs) \<and>
    llist_repr (alt_llist_remove x h) head (remove1 x xs) \<and>
    alt_llist_remove x (alt_llist_remove x h) = alt_llist_remove x h \<and>
    llist_walk (Suc (Suc (length xs))) (alt_llist_insert head entry h) head entry = Some (entry # xs)"
proof (intro conjI)
  show i: "llist_repr (alt_llist_insert head entry h) head (entry # xs)"
    using insert_repr assms by simp
  show "llist_repr (alt_llist_remove x h) head (remove1 x xs)" using remove_repr1 assms by simp
  show "alt_llist_remove x (alt_llist_remove x h) = alt_llist_remove x h"
    using split_list_first [OF assms(3)] remove_repr(2) assms(1) remove_unlinked by blast
  have "ll_next (alt_llist_insert head entry h head) = entry"
    using i by (simp add: llist_repr_def)
  then show "llist_walk (Suc (Suc (length xs))) (alt_llist_insert head entry h) head entry = Some (entry # xs)"
    using walk_repr [OF i, of "Suc (Suc (length xs))"] by simp
qed

theorem llist_refines_list_witness:
  "let h = alt_llist_insert 0 5 (alt_llist_head 0 (\<lambda>_. \<lparr>ll_next = 0, ll_prev = 0\<rparr>))
   in llist_repr (alt_llist_insert 0 7 h) 0 [7, 5] \<and> llist_repr (alt_llist_remove 5 h) 0 []"
proof -
  let ?h = "\<lambda>_. \<lparr>ll_next = 0, ll_prev = 0\<rparr>"
  have "llist_repr (alt_llist_insert 0 5 (alt_llist_head 0 ?h)) 0 [5]"
    using insert_repr [OF head_repr, of 5 0 ?h] by simp
  from llist_refines_list [OF this, of 7 5] show ?thesis by simp
qed

end
