(* ===== verification/Irq.thy ===== *)
theory Irq
  imports HAL_Prelude
begin

text \<open>
  Interrupts of the Nios II internal controller: the processor's status and enable
  registers (\<open>sys/alt_irq.h\<close>), the legacy and the enhanced interface
  (\<open>priv/alt_legacy_irq.h\<close>, \<open>alt_iic.c\<close>), registration of handlers
  (\<open>alt_irq_register.c\<close>, \<open>alt_iic_isr_register.c\<close>) and their dispatch
  (\<open>alt_irq_handler.c\<close>). A handler is a function pointer: \<open>None\<close> for \<open>NULL\<close>.
\<close>

section \<open>The processor\<close>

record cpu =
  cpu_status :: alt_u32
  cpu_ienable :: alt_u32

text \<open>The only bit of the status register that this configuration uses is \<open>PIE\<close>.\<close>

abbreviation (input) NIOS2_STATUS_PIE_MSK :: alt_u32 where "NIOS2_STATUS_PIE_MSK \<equiv> 1"

definition alt_irq_enabled :: "cpu \<Rightarrow> alt_u32" where
  "alt_irq_enabled c = cpu_status c AND NIOS2_STATUS_PIE_MSK"

definition alt_irq_disable_all :: "cpu \<Rightarrow> alt_u32 \<times> cpu" where
  "alt_irq_disable_all c =
     (cpu_status c, c\<lparr>cpu_status := cpu_status c AND NOT NIOS2_STATUS_PIE_MSK\<rparr>)"

definition alt_irq_enable_all :: "alt_u32 \<Rightarrow> cpu \<Rightarrow> cpu" where
  "alt_irq_enable_all context c = c\<lparr>cpu_status := context\<rparr>"

definition alt_irq_cpu_enable_interrupts :: "cpu \<Rightarrow> cpu" where
  "alt_irq_cpu_enable_interrupts c = c\<lparr>cpu_status := NIOS2_STATUS_PIE_MSK\<rparr>"

definition altera_nios2_qsys_irq_init :: "cpu \<Rightarrow> cpu" where
  "altera_nios2_qsys_irq_init c = c\<lparr>cpu_ienable := 0\<rparr>"

text \<open>\<open>alt_irq_init\<close> of \<open>alt_sys_init.c\<close>.\<close>

definition alt_irq_init :: "cpu \<Rightarrow> cpu" where
  "alt_irq_init c = alt_irq_cpu_enable_interrupts (altera_nios2_qsys_irq_init c)"

lemma disable_enable [simp]:
  "alt_irq_enable_all (fst (alt_irq_disable_all c)) (snd (alt_irq_disable_all c)) = c"
  by (simp add: alt_irq_disable_all_def alt_irq_enable_all_def)

lemma disable_all_masks: "alt_irq_enabled (snd (alt_irq_disable_all c)) = 0"
proof -
  have "(w AND NOT 1) AND 1 = 0" for w :: alt_u32 by (simp add: and.assoc)
  then show ?thesis by (simp add: alt_irq_disable_all_def alt_irq_enabled_def)
qed

section \<open>Registration\<close>

abbreviation (input) ALT_NIRQ :: nat where "ALT_NIRQ \<equiv> 32"

record irq_entry =
  handler :: "nat option"
  context_arg :: nat

record irq =
  irq_cpu :: cpu
  alt_irq_active :: alt_u32
  alt_priority_mask :: alt_u32
  alt_irq :: "irq_entry list"

text \<open>
  \<open>alt_irq_enable\<close> and \<open>alt_irq_disable\<close> update the software copy of the enable register
  and write it out with interrupts off.
\<close>

definition alt_irq_enable :: "alt_u32 \<Rightarrow> irq \<Rightarrow> (int \<times> irq) c_res" where
  "alt_irq_enable irqn s =
     (let (status, c) = alt_irq_disable_all (irq_cpu s)
      in res_bind (c_shl1 (unat irqn)) (\<lambda>m.
         let active = alt_irq_active s OR m;
             c = c\<lparr>cpu_ienable := active\<rparr>
         in Inr (0, s\<lparr>alt_irq_active := active, irq_cpu := alt_irq_enable_all status c\<rparr>)))"

definition alt_irq_disable :: "alt_u32 \<Rightarrow> irq \<Rightarrow> (int \<times> irq) c_res" where
  "alt_irq_disable irqn s =
     (let (status, c) = alt_irq_disable_all (irq_cpu s)
      in res_bind (c_shl1 (unat irqn)) (\<lambda>m.
         let active = alt_irq_active s AND NOT m;
             c = c\<lparr>cpu_ienable := active\<rparr>
         in Inr (0, s\<lparr>alt_irq_active := active, irq_cpu := alt_irq_enable_all status c\<rparr>)))"

definition alt_ic_irq_enable :: "alt_u32 \<Rightarrow> alt_u32 \<Rightarrow> irq \<Rightarrow> (int \<times> irq) c_res" where
  "alt_ic_irq_enable ic_id i s = alt_irq_enable i s"

definition alt_ic_irq_disable :: "alt_u32 \<Rightarrow> alt_u32 \<Rightarrow> irq \<Rightarrow> (int \<times> irq) c_res" where
  "alt_ic_irq_disable ic_id i s = alt_irq_disable i s"

definition alt_ic_irq_enabled :: "alt_u32 \<Rightarrow> alt_u32 \<Rightarrow> irq \<Rightarrow> alt_u32 c_res" where
  "alt_ic_irq_enabled ic_id i s =
     res_bind (c_shl1 (unat i)) (\<lambda>m. Inr (if cpu_ienable (irq_cpu s) AND m \<noteq> 0 then 1 else 0))"

text \<open>A store to the handler table, whose index the caller has to have checked.\<close>

definition set_handler :: "int \<Rightarrow> nat option \<Rightarrow> nat \<Rightarrow> irq \<Rightarrow> irq c_res" where
  "set_handler irqn h ctx s =
     (if 0 \<le> irqn \<and> nat irqn < length (alt_irq s)
      then Inr (s\<lparr>alt_irq := (alt_irq s)[nat irqn := \<lparr>handler = h, context_arg = ctx\<rparr>]\<rparr>)
      else Inl OutOfBounds)"

text \<open>The legacy interface compares the unsigned number.\<close>

definition alt_irq_register :: "alt_u32 \<Rightarrow> nat \<Rightarrow> nat option \<Rightarrow> irq \<Rightarrow> (int \<times> irq) c_res" where
  "alt_irq_register irqn ctx h s =
     (if unat irqn < ALT_NIRQ
      then (let (status, c) = alt_irq_disable_all (irq_cpu s); s = s\<lparr>irq_cpu := c\<rparr>
            in res_bind (set_handler (uint irqn) h ctx s) (\<lambda>s.
               res_bind (if h \<noteq> None then alt_irq_enable irqn s else alt_irq_disable irqn s) (\<lambda>(rc, s).
               Inr (rc, s\<lparr>irq_cpu := alt_irq_enable_all status (irq_cpu s)\<rparr>))))
      else Inr (- EINVAL, s))"

text \<open>
  The enhanced interface first copies the unsigned number into an \<open>int\<close> and compares that.
\<close>

definition alt_iic_isr_register ::
    "alt_u32 \<Rightarrow> alt_u32 \<Rightarrow> nat option \<Rightarrow> nat \<Rightarrow> irq \<Rightarrow> (int \<times> irq) c_res" where
  "alt_iic_isr_register ic_id i isr ctx s =
     (let irqn = sint i
      in if irqn < int ALT_NIRQ
         then (let (status, c) = alt_irq_disable_all (irq_cpu s); s = s\<lparr>irq_cpu := c\<rparr>
               in res_bind (set_handler irqn isr ctx s) (\<lambda>s.
                  res_bind (if isr \<noteq> None then alt_ic_irq_enable ic_id (word_of_int irqn) s
                            else alt_ic_irq_disable ic_id (word_of_int irqn) s) (\<lambda>(rc, s).
                  Inr (rc, s\<lparr>irq_cpu := alt_irq_enable_all status (irq_cpu s)\<rparr>))))
         else Inr (- EINVAL, s))"

definition alt_ic_isr_register ::
    "alt_u32 \<Rightarrow> alt_u32 \<Rightarrow> nat option \<Rightarrow> nat \<Rightarrow> irq \<Rightarrow> (int \<times> irq) c_res" where
  "alt_ic_isr_register ic_id i isr ctx s = alt_iic_isr_register ic_id i isr ctx s"

text \<open>Nesting: only interrupts above the current priority stay enabled.\<close>

definition alt_irq_interruptible :: "alt_u32 \<Rightarrow> irq \<Rightarrow> (alt_u32 \<times> irq) c_res" where
  "alt_irq_interruptible priority s =
     res_bind (c_shl1 (unat priority)) (\<lambda>m.
       let old_priority = alt_priority_mask s; msk = m - 1;
           c = (irq_cpu s)\<lparr>cpu_ienable := alt_irq_active s AND msk\<rparr>
       in Inr (old_priority, s\<lparr>alt_priority_mask := msk, irq_cpu := c\<lparr>cpu_status := 1\<rparr>\<rparr>))"

definition alt_irq_non_interruptible :: "alt_u32 \<Rightarrow> irq \<Rightarrow> irq" where
  "alt_irq_non_interruptible msk s =
     (let c = (irq_cpu s)\<lparr>cpu_status := 0\<rparr>
      in s\<lparr>alt_priority_mask := msk, irq_cpu := c\<lparr>cpu_ienable := msk AND alt_irq_active s\<rparr>\<rparr>)"

section \<open>Dispatch\<close>

text \<open>
  The inner loop looks for the lowest set bit of \<open>active\<close> and has no other exit:
  \<open>None\<close> is "never returns". \<open>i\<close> is the C variable \<open>i\<close>, \<open>msk\<close> its \<open>msk\<close>.
\<close>

partial_function (option) irq_scan :: "alt_u32 \<Rightarrow> alt_u32 \<Rightarrow> nat \<Rightarrow> nat option" where
  "irq_scan active msk i =
     (if active AND msk \<noteq> 0 then Some i else irq_scan active (push_bit 1 msk) (Suc i))"

text \<open>
  Calling entry \<open>i\<close> of the table. \<open>run\<close> is what the handler a pointer names does to the
  rest of the system when it is called with its context.
\<close>

definition irq_call :: "(nat \<Rightarrow> nat \<Rightarrow> 'w \<Rightarrow> 'w) \<Rightarrow> irq \<Rightarrow> nat \<Rightarrow> 'w \<Rightarrow> 'w c_res" where
  "irq_call run s i w =
     (if i < length (alt_irq s)
      then (case handler (alt_irq s ! i) of
              None \<Rightarrow> Inl NullDeref
            | Some f \<Rightarrow> Inr (run f (context_arg (alt_irq s ! i)) w))
      else Inl OutOfBounds)"

text \<open>
  The outer \<open>do ... while (active)\<close>; \<open>pending\<close> reads the \<open>ipending\<close> register, that is, the
  interrupt lines of the devices in the current state of the world.
\<close>

partial_function (option) irq_dispatch ::
    "(nat \<Rightarrow> nat \<Rightarrow> 'w \<Rightarrow> 'w) \<Rightarrow> irq \<Rightarrow> ('w \<Rightarrow> alt_u32) \<Rightarrow> alt_u32 \<Rightarrow> 'w \<Rightarrow> 'w c_res option" where
  "irq_dispatch run s pending active w =
     Option.bind (irq_scan active 1 0) (\<lambda>i.
       (case irq_call run s i w of
          Inl f \<Rightarrow> Some (Inl f)
        | Inr w' \<Rightarrow> if pending w' \<noteq> 0 then irq_dispatch run s pending (pending w') w'
                   else Some (Inr w')))"

definition alt_irq_handler ::
    "(nat \<Rightarrow> nat \<Rightarrow> 'w \<Rightarrow> 'w) \<Rightarrow> irq \<Rightarrow> ('w \<Rightarrow> alt_u32) \<Rightarrow> 'w \<Rightarrow> 'w c_res option" where
  "alt_irq_handler run s pending w = irq_dispatch run s pending (pending w) w"

section \<open>Registration: the effect of each call\<close>

definition irq_boot :: "irq \<Rightarrow> bool" where
  "irq_boot s \<longleftrightarrow> length (alt_irq s) = ALT_NIRQ \<and> alt_irq_active s = 0 \<and> cpu_ienable (irq_cpu s) = 0"

text \<open>
  The invariant of registration: the table has an entry per line, the enable register is the
  software copy, and every enabled line has a handler.
\<close>

definition irq_ok :: "irq \<Rightarrow> bool" where
  "irq_ok s \<longleftrightarrow> length (alt_irq s) = ALT_NIRQ \<and> cpu_ienable (irq_cpu s) = alt_irq_active s \<and>
     (\<forall>n<ALT_NIRQ. bit (alt_irq_active s) n \<longrightarrow> handler (alt_irq s ! n) \<noteq> None)"

text \<open>The state after registering \<open>h\<close> on line \<open>n\<close>, written out.\<close>

definition registered :: "nat \<Rightarrow> nat option \<Rightarrow> nat \<Rightarrow> irq \<Rightarrow> irq" where
  "registered n h ctx s =
     (let act = (if h \<noteq> None then alt_irq_active s OR push_bit n 1
                 else alt_irq_active s AND NOT (push_bit n 1))
      in s\<lparr>alt_irq := (alt_irq s)[n := \<lparr>handler = h, context_arg = ctx\<rparr>],
           alt_irq_active := act,
           irq_cpu := (irq_cpu s)\<lparr>cpu_ienable := act\<rparr>\<rparr>)"

lemma legacy_register:
  assumes "unat n < ALT_NIRQ" "length (alt_irq s) = ALT_NIRQ"
  shows "alt_irq_register n ctx h s = Inr (0, registered (unat n) h ctx s)"
  using assms
  by (simp add: alt_irq_register_def alt_irq_disable_all_def alt_irq_enable_all_def set_handler_def
      alt_irq_enable_def alt_irq_disable_def registered_def c_shl1_ok Let_def)

lemma unat_less_uint: "unat (n :: alt_u32) < k \<longleftrightarrow> uint n < int k"
  by (metis nat_less_iff uint_ge_0 unat_eq_nat_uint)

lemma sint_signed32: "sint (n :: alt_u32) = (if uint n < 2 ^ 31 then uint n else uint n - 2 ^ 32)"
proof -
  have s: "sint n = signed_take_bit 31 (uint n)" by (simp add: sint_uint)
  have r: "0 \<le> uint n" "uint n < 2 ^ 32" using uint_lt2p [of n] by simp_all
  have "(uint n + 2 ^ 31) mod 2 ^ 32 = uint n - 2 ^ 31" if "2 ^ 31 \<le> uint n"
    using minus_mod_self2 [of "uint n + 2 ^ 31" "2 ^ 32"] that r by simp
  with s r show ?thesis
    by (auto simp: signed_take_bit_int_eq_self_iff signed_take_bit_eq_take_bit_shift take_bit_eq_mod)
qed

text \<open>
  The enhanced interface does the same below \<open>ALT_NIRQ\<close> and reports an error up to
  \<open>2 ^ 31 - 1\<close>; above that the signed copy is negative, passes the check and indexes the
  handler table out of bounds.
\<close>

lemma enhanced_register:
  assumes "length (alt_irq s) = ALT_NIRQ"
  shows "alt_ic_isr_register ic n h ctx s =
    (if unat n < ALT_NIRQ then Inr (0, registered (unat n) h ctx s)
     else if unat n < 2 ^ 31 then Inr (- EINVAL, s) else Inl OutOfBounds)"
proof (cases "sint n < 32")
  case False
  moreover from this have "\<not> unat n < 32" "unat n < 2 ^ 31"
    using uint_lt2p [of n] by (simp_all add: sint_signed32 unat_less_uint split: if_splits)
  ultimately show ?thesis by (simp add: alt_ic_isr_register_def alt_iic_isr_register_def)
next
  case True
  show ?thesis
  proof (cases "sint n < 0")
    case True
    moreover from this have "\<not> unat n < 2 ^ 31"
      by (simp add: sint_signed32 unat_less_uint split: if_splits)
    ultimately show ?thesis
      by (simp add: alt_ic_isr_register_def alt_iic_isr_register_def set_handler_def
          alt_irq_disable_all_def Let_def)
  next
    case False
    with \<open>sint n < 32\<close> have "unat n < 32" "uint n < 32" "sint n = uint n"
      using uint_lt2p [of n] by (simp_all add: sint_signed32 unat_less_uint split: if_splits)
    moreover have "alt_ic_irq_enable ic = alt_irq_enable" "alt_ic_irq_disable ic = alt_irq_disable"
      by (simp_all add: fun_eq_iff alt_ic_irq_enable_def alt_ic_irq_disable_def)
    ultimately show ?thesis
      using legacy_register [of n s ctx h] assms
      by (simp add: alt_ic_isr_register_def alt_iic_isr_register_def alt_irq_register_def
          alt_irq_disable_all_def Let_def cong: if_cong)
  qed
qed

lemma irq_boot_ok: "irq_boot s \<Longrightarrow> irq_ok s"
  by (simp add: irq_boot_def irq_ok_def)

lemma registered_ok: "irq_ok s \<Longrightarrow> n < ALT_NIRQ \<Longrightarrow> irq_ok (registered n h ctx s)"
  by (auto simp: irq_ok_def registered_def Let_def nth_list_update bit_or_iff bit_and_iff bit_not_iff bit_single
      simp del: push_bit_of_1)

section \<open>Any sequence of calls\<close>

text \<open>
  The calls of the two interfaces, as a program or a handler may issue them: registering,
  masking and unmasking a line, turning interrupts off and back on, and opening and closing a
  nested section. \<open>irq_run\<close> stops at a call that faults. (\<open>alt_ic_irq_enable\<close> and
  \<open>alt_ic_irq_disable\<close> are the enhanced interface's names of \<open>alt_irq_enable\<close> and
  \<open>alt_irq_disable\<close>.)
\<close>

datatype irq_op = Register_Legacy alt_u32 nat "nat option" | Register_IC alt_u32 alt_u32 "nat option" nat |
  Disable alt_u32 alt_u32 | Enable alt_u32 alt_u32 | Disable_All | Enable_All alt_u32 |
  Interruptible alt_u32 | Non_Interruptible alt_u32

fun irq_op_step :: "irq_op \<Rightarrow> irq \<Rightarrow> irq c_res" where
  "irq_op_step (Register_Legacy n ctx h) s = res_bind (alt_irq_register n ctx h s) (\<lambda>(rc, s). Inr s)"
| "irq_op_step (Register_IC ic n h ctx) s = res_bind (alt_ic_isr_register ic n h ctx s) (\<lambda>(rc, s). Inr s)"
| "irq_op_step (Disable ic n) s = res_bind (alt_ic_irq_disable ic n s) (\<lambda>(rc, s). Inr s)"
| "irq_op_step (Enable ic n) s = res_bind (alt_ic_irq_enable ic n s) (\<lambda>(rc, s). Inr s)"
| "irq_op_step Disable_All s = Inr (s\<lparr>irq_cpu := snd (alt_irq_disable_all (irq_cpu s))\<rparr>)"
| "irq_op_step (Enable_All context) s = Inr (s\<lparr>irq_cpu := alt_irq_enable_all context (irq_cpu s)\<rparr>)"
| "irq_op_step (Interruptible priority) s = res_bind (alt_irq_interruptible priority s) (\<lambda>(old, s). Inr s)"
| "irq_op_step (Non_Interruptible msk) s = Inr (alt_irq_non_interruptible msk s)"

fun irq_run :: "irq_op list \<Rightarrow> irq \<Rightarrow> irq c_res" where
  "irq_run [] s = Inr s"
| "irq_run (op # ops) s = res_bind (irq_op_step op s) (irq_run ops)"

text \<open>The states a system reaches after \<open>alt_irq_init\<close> with no line enabled.\<close>

definition irq_reach :: "irq \<Rightarrow> bool" where
  "irq_reach s \<longleftrightarrow> (\<exists>s0 ops. irq_boot s0 \<and> irq_run ops (s0\<lparr>irq_cpu := alt_irq_init (irq_cpu s0)\<rparr>) = Inr s)"

text \<open>
  The specification: each line is a switch and a table entry of its own, and one word gates
  all lines. A registration sets the entry, and the switch by its handler; masking and
  unmasking move the switch only. The gate is what was last written to the enable register
  besides the switches: everything after a call about a line, the lines of higher priority in a
  nested section.
\<close>

fun line_step :: "nat \<Rightarrow> irq_op \<Rightarrow> bool \<times> irq_entry \<Rightarrow> bool \<times> irq_entry" where
  "line_step k (Register_Legacy n ctx h) l = (if unat n = k then (h \<noteq> None, \<lparr>handler = h, context_arg = ctx\<rparr>) else l)"
| "line_step k (Register_IC ic n h ctx) l = (if unat n = k then (h \<noteq> None, \<lparr>handler = h, context_arg = ctx\<rparr>) else l)"
| "line_step k (Disable ic n) l = (if unat n = k then (False, snd l) else l)"
| "line_step k (Enable ic n) l = (if unat n = k then (True, snd l) else l)"
| "line_step k _ l = l"

fun gate_step :: "irq_op \<Rightarrow> alt_u32 \<Rightarrow> alt_u32" where
  "gate_step (Register_Legacy n ctx h) g = (if unat n < ALT_NIRQ then - 1 else g)"
| "gate_step (Register_IC ic n h ctx) g = (if unat n < ALT_NIRQ then - 1 else g)"
| "gate_step (Disable ic n) g = - 1"
| "gate_step (Enable ic n) g = - 1"
| "gate_step (Interruptible priority) g = push_bit (unat priority) 1 - 1"
| "gate_step (Non_Interruptible msk) g = msk"
| "gate_step _ g = g"

text \<open>The state refines the switches \<open>L\<close> and the gate \<open>g\<close>; every call keeps that.\<close>

definition irq_refines :: "(nat \<Rightarrow> bool \<times> irq_entry) \<Rightarrow> alt_u32 \<Rightarrow> irq \<Rightarrow> bool" where
  "irq_refines L g s \<longleftrightarrow> length (alt_irq s) = ALT_NIRQ \<and> cpu_ienable (irq_cpu s) = alt_irq_active s AND g \<and>
     (\<forall>n<ALT_NIRQ. (bit (alt_irq_active s) n, alt_irq s ! n) = L n)"

lemma registered_refines:
  assumes "irq_refines L g s" "n < ALT_NIRQ"
  shows "irq_refines (\<lambda>k. if n = k then (h \<noteq> None, \<lparr>handler = h, context_arg = ctx\<rparr>) else L k) (- 1) (registered n h ctx s)"
  using assms
  by (auto simp: irq_refines_def registered_def Let_def nth_list_update bit_or_iff bit_and_iff bit_not_iff bit_single
      simp del: push_bit_of_1)

lemma switch_refines:
  assumes "irq_refines L g s" "unat n < ALT_NIRQ"
  shows "\<exists>s'. alt_irq_enable n s = Inr (0, s') \<and> irq_refines (\<lambda>k. if unat n = k then (True, snd (L k)) else L k) (- 1) s'"
    and "\<exists>s'. alt_irq_disable n s = Inr (0, s') \<and> irq_refines (\<lambda>k. if unat n = k then (False, snd (L k)) else L k) (- 1) s'"
proof -
  have e: "alt_irq s ! k = snd (L k)" if "k < ALT_NIRQ" for k using assms(1) that by (metis irq_refines_def snd_conv)
  show "\<exists>s'. alt_irq_enable n s = Inr (0, s') \<and> irq_refines (\<lambda>k. if unat n = k then (True, snd (L k)) else L k) (- 1) s'"
    "\<exists>s'. alt_irq_disable n s = Inr (0, s') \<and> irq_refines (\<lambda>k. if unat n = k then (False, snd (L k)) else L k) (- 1) s'"
    using assms e
    by (auto simp: irq_refines_def alt_irq_enable_def alt_irq_disable_def alt_irq_disable_all_def alt_irq_enable_all_def
        c_shl1_def Let_def bit_or_iff bit_and_iff bit_not_iff bit_single simp del: push_bit_of_1)
qed

lemma irq_step_refines:
  assumes "irq_refines L g s" "irq_op_step op s = Inr s'"
  shows "irq_refines (\<lambda>k. line_step k op (L k)) (gate_step op g) s'"
proof -
  have len: "length (alt_irq s) = ALT_NIRQ" using assms(1) by (simp add: irq_refines_def)
  have off: "irq_refines (\<lambda>k. if unat n = k then x k else L k) g s" if "\<not> unat n < ALT_NIRQ" for n :: alt_u32 and x
    using assms(1) that by (auto simp: irq_refines_def)
  have shift: "c_shl1 (unat n) = (if unat n < ALT_NIRQ then Inr (push_bit (unat n) 1) else Inl BadShift)" for n :: alt_u32
    by (simp add: c_shl1_def)
  show ?thesis
  proof (cases op)
    case (Register_Legacy n ctx h)
    with assms len legacy_register [of n s ctx h] registered_refines [OF assms(1), of "unat n" h ctx] off [of n]
    show ?thesis by (cases "unat n < ALT_NIRQ") (auto simp: alt_irq_register_def)
  next
    case (Register_IC ic n h ctx)
    with assms len enhanced_register [of s ic n h ctx] registered_refines [OF assms(1), of "unat n" h ctx] off [of n]
    show ?thesis by (cases "unat n < ALT_NIRQ") (auto split: if_splits)
  next
    case (Disable ic n)
    then have "unat n < ALT_NIRQ"
      using assms(2) by (auto simp: alt_ic_irq_disable_def alt_irq_disable_def shift split: if_splits prod.splits)
    from switch_refines(2) [OF assms(1) this] Disable assms(2) show ?thesis by (auto simp: alt_ic_irq_disable_def)
  next
    case (Enable ic n)
    then have "unat n < ALT_NIRQ"
      using assms(2) by (auto simp: alt_ic_irq_enable_def alt_irq_enable_def shift split: if_splits prod.splits)
    from switch_refines(1) [OF assms(1) this] Enable assms(2) show ?thesis by (auto simp: alt_ic_irq_enable_def)
  qed (use assms in \<open>auto simp: irq_refines_def alt_irq_disable_all_def alt_irq_enable_all_def alt_irq_interruptible_def
      alt_irq_non_interruptible_def shift Let_def and.commute split: if_splits\<close>)
qed

text \<open>The calls that do not fault: line numbers and priorities below 32, registration numbers checked.\<close>

fun op_ok :: "irq_op \<Rightarrow> bool" where
  "op_ok (Register_IC ic n h ctx) \<longleftrightarrow> unat n < 2 ^ 31"
| "op_ok (Disable ic n) \<longleftrightarrow> unat n < ALT_NIRQ"
| "op_ok (Enable ic n) \<longleftrightarrow> unat n < ALT_NIRQ"
| "op_ok (Interruptible priority) \<longleftrightarrow> unat priority < ALT_NIRQ"
| "op_ok _ \<longleftrightarrow> True"

lemma irq_step_total: "irq_refines L g s \<Longrightarrow> op_ok op \<longleftrightarrow> (\<exists>s'. irq_op_step op s = Inr s')"
proof (cases op)
  case (Register_Legacy n ctx h)
  assume "irq_refines L g s"
  then show ?thesis using Register_Legacy legacy_register [of n s ctx h]
    by (cases "unat n < ALT_NIRQ") (auto simp: alt_irq_register_def irq_refines_def)
qed (auto simp: irq_refines_def enhanced_register alt_ic_irq_disable_def alt_irq_disable_def alt_ic_irq_enable_def
    alt_irq_enable_def alt_irq_disable_all_def c_shl1_def alt_irq_interruptible_def Let_def)

lemma irq_run_total: "irq_refines L g s \<Longrightarrow> list_all op_ok ops \<longleftrightarrow> (\<exists>s'. irq_run ops s = Inr s')"
proof (induction ops arbitrary: L g s)
  case (Cons op ops)
  show ?case
  proof (cases "irq_op_step op s")
    case (Inl f)
    then show ?thesis using irq_step_total [OF Cons.prems, of op] by auto
  next
    case (Inr s1)
    from Cons.IH [OF irq_step_refines [OF Cons.prems Inr]] show ?thesis
      using irq_step_total [OF Cons.prems, of op] Inr by auto
  qed
qed simp

lemma irq_boot_refines:
  "irq_boot s0 \<Longrightarrow> irq_refines (\<lambda>n. (False, alt_irq s0 ! n)) (- 1) (s0\<lparr>irq_cpu := alt_irq_init (irq_cpu s0)\<rparr>)"
  by (simp add: irq_refines_def irq_boot_def alt_irq_init_def alt_irq_cpu_enable_interrupts_def
      altera_nios2_qsys_irq_init_def)

lemma irq_run_refines:
  "irq_refines L g s \<Longrightarrow> irq_run ops s = Inr s' \<Longrightarrow> irq_refines (\<lambda>n. fold (line_step n) ops (L n)) (fold gate_step ops g) s'"
proof (induction ops arbitrary: L g s)
  case (Cons op ops)
  then obtain s1 where s1: "irq_op_step op s = Inr s1" "irq_run ops s1 = Inr s'"
    by (auto simp: res_bind_def split: sum.splits)
  from Cons.IH [OF irq_step_refines [OF Cons.prems(1) s1(1)] s1(2)] show ?case by simp
qed simp

text \<open>A line that is on without a handler was switched on explicitly while it had none.\<close>

lemma bare_line:
  "fst (fold (line_step n) ops (False, e)) \<Longrightarrow> handler (snd (fold (line_step n) ops (False, e))) = None \<Longrightarrow>
   \<exists>pre ic k post. ops = pre @ Enable ic k # post \<and> unat k = n \<and> handler (snd (fold (line_step n) pre (False, e))) = None"
proof (induction ops rule: rev_induct)
  case (snoc op ops)
  let ?l = "fold (line_step n) ops (False, e)"
  have "line_step n op l = l \<or> (\<exists>ic k. op = Enable ic k \<and> unat k = n) \<or>
      \<not> fst (line_step n op l) \<or> handler (snd (line_step n op l)) \<noteq> None" for l
    by (cases op) simp_all
  then consider (same) "line_step n op ?l = ?l" | (on) ic k where "op = Enable ic k" "unat k = n" |
    (off) "\<not> fst (line_step n op ?l) \<or> handler (snd (line_step n op ?l)) \<noteq> None" by blast
  then show ?case
  proof cases
    case same
    with snoc obtain pre ic k post where "ops = pre @ Enable ic k # post" "unat k = n"
        "handler (snd (fold (line_step n) pre (False, e))) = None" by auto
    then show ?thesis by (intro exI [of _ pre] exI [of _ ic] exI [of _ k] exI [of _ "post @ [op]"]) simp
  next
    case on
    with snoc.prems show ?thesis by (intro exI [of _ ops]) auto
  qed (use snoc.prems in auto)
qed simp

section \<open>Dispatch: order and termination\<close>

text \<open>The lines of a pending word, lowest number (highest priority) first.\<close>

definition irq_lines :: "alt_u32 \<Rightarrow> nat list" where
  "irq_lines p = filter (bit p) [0..<ALT_NIRQ]"

lemma irq_lines_empty: "irq_lines p = [] \<longleftrightarrow> p = 0"
  by (auto simp: irq_lines_def filter_empty_conv word_eq_0_bits)

lemma scan_from:
  assumes "i \<le> n" "n < 32" "bit a n" "\<And>j. i \<le> j \<Longrightarrow> j < n \<Longrightarrow> \<not> bit a j"
  shows "irq_scan a (push_bit i 1) i = Some n"
  using assms
proof (induction "n - i" arbitrary: i)
  case 0
  then show ?case by (subst irq_scan.simps) (simp del: push_bit_of_1)
next
  case (Suc d)
  then have "\<not> bit a i" "i < 32" by auto
  moreover have "irq_scan a (push_bit (Suc i) 1) (Suc i) = Some n" using Suc by (simp del: push_bit_of_1 push_bit_Suc)
  moreover have "push_bit 1 (push_bit i (1 :: alt_u32)) = push_bit (Suc i) 1"
    by (simp only: push_bit_push_bit plus_1_eq_Suc)
  ultimately show ?case
    unfolding irq_scan.simps [of a "push_bit i 1"] by (simp only: and_single_eq_0 simp_thms if_False)
qed

lemma scan_first: "irq_lines a = n # ns \<Longrightarrow> irq_scan a 1 0 = Some n"
  using scan_from [of 0 n a] filter_upt_Cons [of "bit a" 0 ALT_NIRQ n ns]
  by (auto simp: irq_lines_def)

text \<open>What calling the entry of line \<open>i\<close> does, and the calls of one run of the handler.\<close>

definition irq_service :: "(nat \<Rightarrow> nat \<Rightarrow> 'w \<Rightarrow> 'w) \<Rightarrow> irq \<Rightarrow> nat \<Rightarrow> 'w \<Rightarrow> 'w" where
  "irq_service run s i w =
     (case handler (alt_irq s ! i) of None \<Rightarrow> w | Some f \<Rightarrow> run f (context_arg (alt_irq s ! i)) w)"

inductive irq_trace :: "('w \<Rightarrow> alt_u32) \<Rightarrow> (nat \<Rightarrow> 'w \<Rightarrow> 'w) \<Rightarrow> 'w \<Rightarrow> nat list \<Rightarrow> 'w \<Rightarrow> bool"
  for pending serve where
  quiet: "pending w = 0 \<Longrightarrow> irq_trace pending serve w [] w"
| serve: "irq_lines (pending w) = n # ns \<Longrightarrow> irq_trace pending serve (serve n w) is w' \<Longrightarrow>
    irq_trace pending serve w (n # is) w'"

inductive_cases quiet_traceE: "irq_trace pending serve w [] w'"

inductive_simps trace_Cons_simp: "irq_trace pending serve w (n # is) w'"

lemma trace_quiet: "irq_trace pending serve w is w' \<Longrightarrow> pending w' = 0"
  by (induction rule: irq_trace.induct) auto

lemma trace_deterministic:
  "irq_trace pending serve w is w' \<Longrightarrow> irq_trace pending serve w js w'' \<Longrightarrow> is = js \<and> w' = w''"
proof (induction arbitrary: js rule: irq_trace.induct)
  case (quiet w)
  then show ?case by (cases js) (auto elim: quiet_traceE simp: trace_Cons_simp irq_lines_def)
next
  case (serve w n ns "is" w')
  then show ?case by (cases js) (auto elim: quiet_traceE simp: trace_Cons_simp irq_lines_def)
qed

lemma trace_agree:
  assumes "irq_trace pending f w is w'" and "\<And>n w. bit (pending w) n \<Longrightarrow> g n w = f n w"
  shows "irq_trace pending g w is w'"
  using assms(1)
proof (induction rule: irq_trace.induct)
  case (serve w n ns "is" w')
  have "bit (pending w) n" using filter_upt_Cons serve.hyps(1) unfolding irq_lines_def by blast
  with serve.IH have "irq_trace pending g (g n w) is w'" using assms(2) by simp
  then show ?case by (rule irq_trace.serve [where serve = g and pending = pending and w = w, OF serve.hyps(1)])
qed (rule irq_trace.quiet)

text \<open>A trace of the sources is what the dispatch loop does.\<close>

lemma dispatch_follows_trace:
  assumes "irq_trace pending (irq_service run s) w is w'" "pending w \<noteq> 0" "length (alt_irq s) = ALT_NIRQ"
    and "\<And>w n. n < ALT_NIRQ \<Longrightarrow> bit (pending w) n \<Longrightarrow> handler (alt_irq s ! n) \<noteq> None"
  shows "irq_dispatch run s pending (pending w) w = Some (Inr w')"
  using assms(1,2)
proof (induction rule: irq_trace.induct)
  case (serve w n ns "is" w')
  have n: "n < 32" "bit (pending w) n"
    using filter_upt_Cons serve.hyps(1) unfolding irq_lines_def by blast+
  then obtain f where f: "handler (alt_irq s ! n) = Some f" using assms(4) by blast
  let ?v = "irq_service run s n w"
  have "irq_call run s n w = Inr ?v"
    using n f assms(3) by (simp add: irq_call_def irq_service_def)
  moreover have "pending ?v = 0 \<Longrightarrow> w' = ?v"
    using serve.hyps(2) by (cases rule: irq_trace.cases) (auto simp: irq_lines_def)
  ultimately show ?case
    using serve.IH scan_first [OF serve.hyps(1)]
    by (subst irq_dispatch.simps) (auto simp: Option.bind_def)
qed simp

text \<open>
  The interface of the interrupt sources: serving a line that is pending makes progress on
  a count of outstanding work. Then every dispatch ends.
\<close>

locale irq_source =
  fixes pending :: "'w \<Rightarrow> alt_u32" and serve :: "nat \<Rightarrow> 'w \<Rightarrow> 'w" and work :: "'w \<Rightarrow> nat"
    and reach :: "'w \<Rightarrow> bool"
  assumes progress: "reach w \<Longrightarrow> n < ALT_NIRQ \<Longrightarrow> bit (pending w) n \<Longrightarrow> work (serve n w) < work w"
    and closed: "reach w \<Longrightarrow> n < ALT_NIRQ \<Longrightarrow> bit (pending w) n \<Longrightarrow> reach (serve n w)"
begin

lemma trace_exists: "reach w \<Longrightarrow> \<exists>is w'. irq_trace pending serve w is w' \<and> length is \<le> work w \<and> reach w'"
proof (induction "work w" arbitrary: w rule: less_induct)
  case less
  show ?case
  proof (cases "irq_lines (pending w)")
    case Nil
    then show ?thesis using irq_trace.quiet less.prems irq_lines_empty by fastforce
  next
    case (Cons n ns)
    then have "n < 32" "bit (pending w) n" using filter_upt_Cons unfolding irq_lines_def by blast+
    then obtain "is" w' where "irq_trace pending serve (serve n w) is w'"
        "length is \<le> work (serve n w)" "reach w'" "work (serve n w) < work w"
      using less progress closed by blast
    moreover from this have "irq_trace pending serve w (n # is) w'" using irq_trace.serve Cons by metis
    ultimately show ?thesis by (intro exI [of _ "n # is"] exI [of _ w']) simp
  qed
qed

end

text \<open>With no line pending the scan has no exit: it shifts its mask for ever.\<close>

lemma scan_zero_diverges: "irq_scan 0 m i = None"
proof -
  have "irq_scan a m i = Some r \<Longrightarrow> a \<noteq> 0" for a r
    by (rule irq_scan.raw_induct [of "\<lambda>a m i r. a \<noteq> 0" a m i r]) (auto split: if_splits)
  then show ?thesis by (cases "irq_scan 0 m i") auto
qed

section \<open>Properties\<close>

text \<open>
  C13. Registration: for a table of 32 entries, both interfaces store the handler and its
  context at the line and enable it exactly when the handler is not \<open>NULL\<close>, in the software
  copy and in the enable register alike, leaving every other entry, the interrupt enable
  bit and the priority mask alone, and return 0. A number from 32 on is refused with
  \<open>-EINVAL\<close> and no effect by the legacy interface; by the enhanced one only below
  \<open>2 ^ 31\<close>: it compares a signed copy, so a larger one writes outside the table.
\<close>

theorem isr_register_spec:
  assumes "length (alt_irq s) = ALT_NIRQ"
  shows "alt_irq_register n ctx h s =
      (if unat n < ALT_NIRQ then Inr (0, registered (unat n) h ctx s) else Inr (- EINVAL, s)) \<and>
    alt_ic_isr_register ic n h ctx s =
      (if unat n < ALT_NIRQ then Inr (0, registered (unat n) h ctx s)
       else if unat n < 2 ^ 31 then Inr (- EINVAL, s) else Inl OutOfBounds) \<and>
    (\<forall>k. bit (alt_irq_active (registered (unat n) h ctx s)) k \<longleftrightarrow>
       (if k = unat n \<and> unat n < ALT_NIRQ then h \<noteq> None else bit (alt_irq_active s) k))"
proof (intro conjI)
  show "alt_irq_register n ctx h s =
      (if unat n < ALT_NIRQ then Inr (0, registered (unat n) h ctx s) else Inr (- EINVAL, s))"
    using legacy_register [OF _ assms, of n ctx h] by (simp add: alt_irq_register_def)
  show "\<forall>k. bit (alt_irq_active (registered (unat n) h ctx s)) k \<longleftrightarrow>
       (if k = unat n \<and> unat n < ALT_NIRQ then h \<noteq> None else bit (alt_irq_active s) k)"
    by (auto simp: registered_def Let_def bit_simps dest: bit_imp_le_length)
qed (rule enhanced_register [OF assms])

definition demo_irq :: irq where
  "demo_irq = \<lparr>irq_cpu = \<lparr>cpu_status = 1, cpu_ienable = 0\<rparr>, alt_irq_active = 0,
     alt_priority_mask = - 1, alt_irq = replicate 32 \<lparr>handler = None, context_arg = 0\<rparr>\<rparr>"

theorem isr_register_spec_witness:
  "alt_ic_isr_register 0 5 (Some 7) 9 demo_irq = Inr (0, registered 5 (Some 7) 9 demo_irq) \<and>
   alt_ic_isr_register 0 0x80000000 (Some 7) 9 demo_irq = Inl OutOfBounds"
  using isr_register_spec [of demo_irq 5 9 "Some 7" 0]
    isr_register_spec [of demo_irq "0x80000000" 9 "Some 7" 0]
  by (simp add: demo_irq_def)

text \<open>
  C14. Any sequence of calls. After \<open>alt_irq_init\<close> with no line enabled, any sequence of calls of
  either interface (registering, masking, unmasking, turning interrupts off and on, nested
  sections; line numbers and priorities below 32, numbers to register anything the enhanced
  interface checks) succeeds and leaves every line as its own calls say, whatever was done to
  the others; the enable register holds the enabled lines, in a nested section those of higher
  priority only, until a call about a line opens the gate for all of them again. A line
  enabled without a handler was unmasked explicitly while it had none, which
  \<open>alt_ic_irq_enable\<close> does not refuse: an interrupt on it calls a null pointer.
\<close>

theorem irq_run_spec:
  assumes "irq_boot s0" "list_all op_ok ops"
  shows "\<exists>s. irq_run ops (s0\<lparr>irq_cpu := alt_irq_init (irq_cpu s0)\<rparr>) = Inr s \<and> length (alt_irq s) = ALT_NIRQ \<and>
    cpu_ienable (irq_cpu s) = alt_irq_active s AND fold gate_step ops (- 1) \<and>
    (\<forall>n<ALT_NIRQ. let l = fold (line_step n) ops (False, alt_irq s0 ! n) in
       bit (alt_irq_active s) n = fst l \<and> alt_irq s ! n = snd l \<and>
       (fst l \<and> handler (snd l) = None \<longrightarrow>
          (\<exists>pre ic k post. ops = pre @ Enable ic k # post \<and> unat k = n \<and>
             handler (snd (fold (line_step n) pre (False, alt_irq s0 ! n))) = None) \<and>
          (\<forall>(run :: nat \<Rightarrow> nat \<Rightarrow> 'w \<Rightarrow> 'w) pending w ns. irq_lines (pending w) = n # ns \<longrightarrow> alt_irq_handler run s pending w = Some (Inl NullDeref))))"
proof -
  note boot = irq_boot_refines [OF assms(1)]
  obtain s where s: "irq_run ops (s0\<lparr>irq_cpu := alt_irq_init (irq_cpu s0)\<rparr>) = Inr s"
    using irq_run_total [OF boot] assms(2) by blast
  from irq_run_refines [OF boot s]
  have run: "irq_refines (\<lambda>n. fold (line_step n) ops (False, alt_irq s0 ! n)) (fold gate_step ops (- 1)) s" .
  have null: "alt_irq_handler run s pending w = Some (Inl NullDeref)"
    if "n < ALT_NIRQ" "handler (alt_irq s ! n) = None" "irq_lines (pending w) = n # ns"
    for run :: "nat \<Rightarrow> nat \<Rightarrow> 'w \<Rightarrow> 'w" and pending w n ns
    using that run scan_first [OF that(3)]
    by (simp add: alt_irq_handler_def irq_dispatch.simps [of run s pending "pending w"] irq_call_def irq_refines_def)
  have pair: "fold (line_step n) ops (False, alt_irq s0 ! n) = (bit (alt_irq_active s) n, alt_irq s ! n)" if "n < ALT_NIRQ" for n
    using run that by (simp add: irq_refines_def)
  have lines: "let l = fold (line_step n) ops (False, alt_irq s0 ! n) in
       bit (alt_irq_active s) n = fst l \<and> alt_irq s ! n = snd l \<and>
       (fst l \<and> handler (snd l) = None \<longrightarrow>
          (\<exists>pre ic k post. ops = pre @ Enable ic k # post \<and> unat k = n \<and>
             handler (snd (fold (line_step n) pre (False, alt_irq s0 ! n))) = None) \<and>
          (\<forall>(run :: nat \<Rightarrow> nat \<Rightarrow> 'w \<Rightarrow> 'w) pending w ns. irq_lines (pending w) = n # ns \<longrightarrow> alt_irq_handler run s pending w = Some (Inl NullDeref)))"
    if n: "n < ALT_NIRQ" for n
    using pair [OF n] bare_line [of n ops "alt_irq s0 ! n"] null [OF n] unfolding Let_def by simp
  have "length (alt_irq s) = ALT_NIRQ" "cpu_ienable (irq_cpu s) = alt_irq_active s AND fold gate_step ops (- 1)"
    using run by (simp_all add: irq_refines_def)
  with s lines show ?thesis by blast
qed

text \<open>
  Line 5 is registered and opened, line 3 registered and masked, a nested section of priority 4
  is entered and left, and line 9 is unmasked without a handler.
\<close>

definition demo_ops :: "irq_op list" where
  "demo_ops = [Register_IC 0 5 (Some 7) 9, Register_Legacy 3 1 (Some 2), Disable 0 3, Interruptible 4,
     Non_Interruptible (- 1), Enable 0 9]"

theorem irq_run_spec_witness:
  "\<exists>s. irq_run demo_ops (demo_irq\<lparr>irq_cpu := alt_irq_init (irq_cpu demo_irq)\<rparr>) = Inr s \<and>
     cpu_ienable (irq_cpu s) = alt_irq_active s \<and> bit (alt_irq_active s) 5 \<and> \<not> bit (alt_irq_active s) 3 \<and>
     alt_irq s ! 3 = \<lparr>handler = Some 2, context_arg = 1\<rparr> \<and> bit (alt_irq_active s) 9 \<and>
     alt_irq_handler (\<lambda>f ctx w. w) s (\<lambda>w. w) 0x200 = Some (Inl NullDeref)"
proof -
  have boot: "irq_boot demo_irq" by (simp add: irq_boot_def demo_irq_def)
  have ok: "list_all op_ok demo_ops" by (simp add: demo_ops_def)
  have bits: "bit (0x200 :: alt_u32) n \<longleftrightarrow> n = 9" if "n < 32" for n
    using bit_single [of 9 n] that by simp
  have "irq_lines 0x200 = filter (\<lambda>n. n = 9) [0..<32]" unfolding irq_lines_def using bits by (intro filter_cong) auto
  then have lines: "irq_lines 0x200 = [9]" by (simp add: upt_conv_Cons)
  have e: "alt_irq demo_irq ! n = \<lparr>handler = None, context_arg = 0\<rparr>" if "n < 32" for n using that by (simp add: demo_irq_def)
  have l: "fold (line_step 3) demo_ops (False, alt_irq demo_irq ! 3) = (False, \<lparr>handler = Some 2, context_arg = 1\<rparr>)"
    "fst (fold (line_step 5) demo_ops (False, alt_irq demo_irq ! 5))"
    "fold (line_step 9) demo_ops (False, alt_irq demo_irq ! 9) = (True, \<lparr>handler = None, context_arg = 0\<rparr>)"
    "fold gate_step demo_ops (- 1) = - 1"
    by (simp_all add: demo_ops_def e)
  obtain s where s: "irq_run demo_ops (demo_irq\<lparr>irq_cpu := alt_irq_init (irq_cpu demo_irq)\<rparr>) = Inr s"
    "cpu_ienable (irq_cpu s) = alt_irq_active s AND - 1"
    and each: "\<forall>n<ALT_NIRQ. let l = fold (line_step n) demo_ops (False, alt_irq demo_irq ! n) in
       bit (alt_irq_active s) n = fst l \<and> alt_irq s ! n = snd l \<and>
       (fst l \<and> handler (snd l) = None \<longrightarrow>
          (\<exists>pre ic k post. demo_ops = pre @ Enable ic k # post \<and> unat k = n \<and>
             handler (snd (fold (line_step n) pre (False, alt_irq demo_irq ! n))) = None) \<and>
          (\<forall>(run :: nat \<Rightarrow> nat \<Rightarrow> alt_u32 \<Rightarrow> alt_u32) pending w ns.
             irq_lines (pending w) = n # ns \<longrightarrow> alt_irq_handler run s pending w = Some (Inl NullDeref)))"
    using irq_run_spec [OF boot ok, where ?'w = alt_u32, unfolded l(4)] by blast
  have n9: "alt_irq_handler (\<lambda>f ctx w. w) s (\<lambda>w. w) 0x200 = Some (Inl NullDeref)" "bit (alt_irq_active s) 9"
    using each [rule_format, of 9] lines unfolding l(3) Let_def by simp_all
  have "bit (alt_irq_active s) 5" "\<not> bit (alt_irq_active s) 3" "alt_irq s ! 3 = \<lparr>handler = Some 2, context_arg = 1\<rparr>"
    using each [rule_format, of 5] each [rule_format, of 3] l(2) unfolding l(1) Let_def by simp_all
  with s n9 show ?thesis by (intro exI [of _ s]) simp
qed

text \<open>
  C15. Dispatch. The handler loop returns exactly when a line is pending on entry, provided
  that serving a line makes progress: it then serves, at each turn, the lowest pending line
  through the entry registered for it, stops once no line is pending, and never calls a null
  pointer, because only enabled lines can be pending and every enabled line has a handler.
  With no line pending (a spurious interrupt) it never returns.
\<close>

theorem irq_handler_dispatches:
  assumes ok: "irq_ok s" and masked: "\<And>w. pending w AND NOT (cpu_ienable (irq_cpu s)) = 0"
    and progress: "\<And>w n. n < ALT_NIRQ \<Longrightarrow> bit (pending w) n \<Longrightarrow> work (irq_service run s n w) < (work w :: nat)"
  shows "if pending w = 0 then alt_irq_handler run s pending w = None
    else (\<exists>is w'. irq_trace pending (irq_service run s) w is w' \<and> pending w' = 0 \<and>
      alt_irq_handler run s pending w = Some (Inr w'))"
proof (cases "pending w = 0")
  case True
  then show ?thesis
    by (simp add: alt_irq_handler_def irq_dispatch.simps [of _ _ _ 0] scan_zero_diverges)
next
  case False
  have "irq_source pending (irq_service run s) work (\<lambda>_. True)"
    by unfold_locales (use progress in auto)
  from irq_source.trace_exists [OF this, of w] obtain "is" w' where
    t: "irq_trace pending (irq_service run s) w is w'" by blast
  have "handler (alt_irq s ! n) \<noteq> None" if n: "n < ALT_NIRQ" "bit (pending v) n" for v n
  proof -
    have "bit (pending v AND NOT (cpu_ienable (irq_cpu s))) n \<longleftrightarrow> False" using masked by simp
    then have "bit (cpu_ienable (irq_cpu s)) n" using n by (simp add: bit_and_iff bit_not_iff)
    then show ?thesis using ok n by (simp add: irq_ok_def)
  qed
  with dispatch_follows_trace [OF t False] ok trace_quiet [OF t] t False show ?thesis
    by (auto simp: irq_ok_def alt_irq_handler_def)
qed

text \<open>A driver whose handler drops its line: line 5 of a world that is the pending word.\<close>

definition demo_drop :: "nat \<Rightarrow> nat \<Rightarrow> alt_u32 \<Rightarrow> alt_u32" where
  "demo_drop f ctx w = w AND NOT 0x20"

theorem irq_handler_dispatches_witness:
  "\<exists>w'. alt_irq_handler demo_drop (registered 5 (Some 7) 9 demo_irq) (\<lambda>w. w AND 0x20) 0xff
     = Some (Inr w') \<and> w' AND 0x20 = 0"
proof -
  let ?s = "registered 5 (Some 7) 9 demo_irq"
  have ok: "irq_ok ?s" by (rule registered_ok) (simp_all add: irq_ok_def demo_irq_def)
  have en: "cpu_ienable (irq_cpu ?s) = 0x20" by (simp add: registered_def demo_irq_def)
  have "bit (w AND 0x20 :: alt_u32) n \<Longrightarrow> n = 5" for w n
    using bit_single [of 5 n] by (simp add: bit_and_iff)
  then have bit: "bit (w AND 0x20 :: alt_u32) n \<Longrightarrow> n = 5 \<and> bit w 5" for w n
    by (metis bit_and_iff)
  have "irq_service demo_drop ?s 5 w = w AND NOT 0x20" for w
    by (simp add: irq_service_def registered_def demo_irq_def demo_drop_def)
  then have "n < ALT_NIRQ \<Longrightarrow> bit (w AND 0x20) n \<Longrightarrow>
      of_bool (bit (irq_service demo_drop ?s n w) 5) < (of_bool (bit w 5) :: nat)" for w n
    using bit [of w n] by (auto simp: bit_simps)
  with irq_handler_dispatches [where s = ?s and pending = "\<lambda>w. w AND 0x20" and run = demo_drop
      and work = "\<lambda>w. of_bool (bit w 5)" and w = "0xff"] ok en
  show ?thesis by (auto simp: and.assoc)
qed

end
