(* ===== verification/Fd_Table.thy ===== *)
theory Fd_Table
  imports Llist
begin

text \<open>
  The file descriptor table and the device registries: \<open>sys/alt_dev.h\<close>, \<open>priv/alt_file.h\<close>,
  \<open>alt_dev.c\<close>, \<open>alt_get_fd.c\<close>, \<open>alt_release_fd.c\<close>, \<open>alt_fd_lock.c\<close>, \<open>alt_fd_unlock.c\<close>,
  \<open>alt_find_dev.c\<close>, \<open>alt_find_file.c\<close>, \<open>alt_dev_llist_insert.c\<close>, \<open>alt_fs_reg.c\<close>. A device is
  known by its address; a driver's functions are arguments of the model (fields of the
  device record), \<open>'w\<close> is the state they work on.
\<close>

section \<open>Descriptors, devices and the state\<close>

record alt_fd =
  fd_dev :: "nat option"
  fd_priv :: nat
  fd_flags :: alt_u32

text \<open>
  A driver function may change the descriptor it is given and the state of the hardware; it
  answers with a count or a negative error number. \<open>read\<close> also delivers the bytes it put into
  the buffer, \<open>fstat\<close> the mode it stored, if it stored one, and \<open>ioctl\<close> the value it left
  behind its argument pointer.
\<close>

record 'w alt_dev =
  dev_name :: "string option"
  dev_open :: "(alt_fd \<Rightarrow> string \<Rightarrow> alt_u32 \<Rightarrow> int \<Rightarrow> 'w \<Rightarrow> int \<times> alt_fd \<times> 'w) option"
  dev_close :: "(alt_fd \<Rightarrow> 'w \<Rightarrow> int \<times> alt_fd \<times> 'w) option"
  dev_read :: "(alt_fd \<Rightarrow> int \<Rightarrow> 'w \<Rightarrow> int \<times> alt_u8 list \<times> alt_fd \<times> 'w) option"
  dev_write :: "(alt_fd \<Rightarrow> alt_u8 list \<Rightarrow> int \<Rightarrow> 'w \<Rightarrow> int \<times> alt_fd \<times> 'w) option"
  dev_lseek :: "(alt_fd \<Rightarrow> int \<Rightarrow> int \<Rightarrow> 'w \<Rightarrow> int \<times> alt_fd \<times> 'w) option"
  dev_fstat :: "(alt_fd \<Rightarrow> 'w \<Rightarrow> int \<times> alt_u32 option \<times> alt_fd \<times> 'w) option"
  dev_ioctl :: "(alt_fd \<Rightarrow> int \<Rightarrow> int \<Rightarrow> 'w \<Rightarrow> int \<times> int \<times> alt_fd \<times> 'w) option"

record 'w hal =
  alt_fd_list :: "alt_fd list"
  alt_max_fd :: int
  alt_devs :: "nat \<Rightarrow> 'w alt_dev"
  alt_links :: llheap
  alt_errno :: int
  world :: 'w

abbreviation (input) ALT_MAX_FD :: nat where "ALT_MAX_FD \<equiv> 32"

abbreviation (input) ALT_FD_EXCL :: alt_u32 where "ALT_FD_EXCL \<equiv> 0x80000000"
abbreviation (input) ALT_FD_DEV :: alt_u32 where "ALT_FD_DEV \<equiv> 0x40000000"
abbreviation (input) ALT_FD_FLAGS_MASK :: alt_u32 where "ALT_FD_FLAGS_MASK \<equiv> 0xC0000000"

text \<open>The addresses of the two list heads and of the null device.\<close>

abbreviation (input) alt_dev_list :: nat where "alt_dev_list \<equiv> 0"
abbreviation (input) alt_fs_list :: nat where "alt_fs_list \<equiv> 1"
abbreviation (input) alt_dev_null :: nat where "alt_dev_null \<equiv> 2"

definition alt_dev_null_write :: "alt_fd \<Rightarrow> alt_u8 list \<Rightarrow> int \<Rightarrow> 'w \<Rightarrow> int \<times> alt_fd \<times> 'w" where
  "alt_dev_null_write fd ptr len w = (len, fd, w)"

definition alt_dev_null_dev :: "'w alt_dev" where
  "alt_dev_null_dev = \<lparr>dev_name = Some ''/dev/null'', dev_open = None, dev_close = None,
     dev_read = None, dev_write = Some alt_dev_null_write, dev_lseek = None,
     dev_fstat = None, dev_ioctl = None\<rparr>"

abbreviation free_fd :: alt_fd where "free_fd \<equiv> \<lparr>fd_dev = None, fd_priv = 0, fd_flags = 0\<rparr>"
abbreviation null_fd :: alt_fd where "null_fd \<equiv> \<lparr>fd_dev = Some alt_dev_null, fd_priv = 0, fd_flags = 0\<rparr>"

text \<open>The static initialisers of \<open>alt_dev.c\<close>.\<close>

definition alt_fd_list_init :: "alt_fd list" where
  "alt_fd_list_init = [null_fd, null_fd, null_fd] @ replicate 29 free_fd"

definition alt_links_init :: llheap where
  "alt_links_init = (alt_llist_head alt_fs_list (\<lambda>_. \<lparr>ll_next = 0, ll_prev = 0\<rparr>))
     (alt_dev_list := \<lparr>ll_next = alt_dev_null, ll_prev = alt_dev_null\<rparr>,
      alt_dev_null := \<lparr>ll_next = alt_dev_list, ll_prev = alt_dev_list\<rparr>)"

definition hal_init :: "(nat \<Rightarrow> 'w alt_dev) \<Rightarrow> 'w \<Rightarrow> 'w hal" where
  "hal_init ds w = \<lparr>alt_fd_list = alt_fd_list_init, alt_max_fd = - 1,
     alt_devs = ds(alt_dev_null := alt_dev_null_dev), alt_links = alt_links_init, alt_errno = 0, world = w\<rparr>"

section \<open>Strings\<close>

text \<open>
  A C string in memory ends in a zero byte. \<open>c_char s i\<close> is \<open>s[i]\<close>, and \<open>c_memcmp_eq\<close> is
  \<open>!memcmp(a, b, n)\<close>, which reads byte by byte and stops at the first difference. Reading on
  beyond the terminating zero is out of bounds.
\<close>

definition c_char :: "string \<Rightarrow> int \<Rightarrow> char c_res" where
  "c_char s i = (if 0 \<le> i \<and> nat i \<le> length s then Inr ((s @ [CHR 0x00]) ! nat i) else Inl OutOfBounds)"

fun bytes_eq :: "char list \<Rightarrow> char list \<Rightarrow> nat \<Rightarrow> bool c_res" where
  "bytes_eq a b 0 = Inr True"
| "bytes_eq (x # a) (y # b) (Suc n) = (if x = y then bytes_eq a b n else Inr False)"
| "bytes_eq _ _ (Suc n) = Inl OutOfBounds"

definition c_memcmp_eq :: "string \<Rightarrow> string \<Rightarrow> nat \<Rightarrow> bool c_res" where
  "c_memcmp_eq a b n = bytes_eq (a @ [CHR 0x00]) (b @ [CHR 0x00]) n"

section \<open>The registries\<close>

text \<open>\<open>alt_dev_llist_insert\<close>; a null pointer is \<open>None\<close>.\<close>

definition alt_dev_llist_insert :: "nat option \<Rightarrow> nat \<Rightarrow> 'w hal \<Rightarrow> int \<times> 'w hal" where
  "alt_dev_llist_insert dev list s =
     (case dev of
        None \<Rightarrow> (- EINVAL, s\<lparr>alt_errno := EINVAL\<rparr>)
      | Some d \<Rightarrow>
          if dev_name (alt_devs s d) = None then (- EINVAL, s\<lparr>alt_errno := EINVAL\<rparr>)
          else (0, s\<lparr>alt_links := alt_llist_insert list d (alt_links s)\<rparr>))"

definition alt_dev_reg :: "nat option \<Rightarrow> 'w hal \<Rightarrow> int \<times> 'w hal" where
  "alt_dev_reg dev s = alt_dev_llist_insert dev alt_dev_list s"

definition alt_fs_reg :: "nat \<Rightarrow> 'w hal \<Rightarrow> int \<times> 'w hal" where
  "alt_fs_reg dev s =
     (if dev_name (alt_devs s dev) = None then (- ENODEV, s)
      else (0, s\<lparr>alt_links := alt_llist_insert alt_fs_list dev (alt_links s)\<rparr>))"

text \<open>
  The two lookups follow \<open>next\<close> pointers until they are back at the head. \<open>None\<close>: the walk
  never gets there.
\<close>

partial_function (option) find_dev_from :: "string \<Rightarrow> nat \<Rightarrow> 'w hal \<Rightarrow> nat \<Rightarrow> nat option c_res option" where
  "find_dev_from name llist s cur =
     (if cur = llist then Some (Inr None)
      else case dev_name (alt_devs s cur) of
        None \<Rightarrow> Some (Inl NullDeref)
      | Some dn \<Rightarrow>
          (case c_memcmp_eq dn name (length name + 1) of
             Inl f \<Rightarrow> Some (Inl f)
           | Inr eq \<Rightarrow> if eq then Some (Inr (Some cur))
                      else find_dev_from name llist s (ll_next (alt_links s cur))))"

definition returns :: "'a c_res option \<Rightarrow> 'a c_res" where
  "returns r = (case r of None \<Rightarrow> Inl Hang | Some x \<Rightarrow> x)"

definition alt_find_dev :: "string \<Rightarrow> nat \<Rightarrow> 'w hal \<Rightarrow> nat option c_res" where
  "alt_find_dev name llist s =
     returns (find_dev_from name llist s (ll_next (alt_links s llist)))"

text \<open>
  One entry of the file system list against a file name: the mount point without a trailing
  slash has to be a prefix that ends at a slash or at the end of the name.
\<close>

definition mount_matches :: "string \<Rightarrow> string \<Rightarrow> bool c_res" where
  "mount_matches dn name =
     (let len = int (length dn)
      in res_bind (c_char dn (len - 1)) (\<lambda>l.
         let len = (if l = CHR ''/'' then len - 1 else len)
         in res_bind (c_char name len) (\<lambda>c.
            if c = CHR ''/'' \<or> c = CHR 0x00 then c_memcmp_eq dn name (nat len) else Inr False)))"

partial_function (option) find_file_from :: "string \<Rightarrow> 'w hal \<Rightarrow> nat \<Rightarrow> nat option c_res option" where
  "find_file_from name s cur =
     (if cur = alt_fs_list then Some (Inr None)
      else case dev_name (alt_devs s cur) of
        None \<Rightarrow> Some (Inl NullDeref)
      | Some dn \<Rightarrow>
          (case mount_matches dn name of
             Inl f \<Rightarrow> Some (Inl f)
           | Inr eq \<Rightarrow> if eq then Some (Inr (Some cur))
                      else find_file_from name s (ll_next (alt_links s cur))))"

definition alt_find_file :: "string \<Rightarrow> 'w hal \<Rightarrow> nat option c_res" where
  "alt_find_file name s = returns (find_file_from name s (ll_next (alt_links s alt_fs_list)))"

section \<open>The table\<close>

definition fd_at :: "int \<Rightarrow> 'w hal \<Rightarrow> alt_fd c_res" where
  "fd_at i s = (if 0 \<le> i \<and> nat i < length (alt_fd_list s) then Inr (alt_fd_list s ! nat i)
                else Inl OutOfBounds)"

definition fd_put :: "int \<Rightarrow> alt_fd \<Rightarrow> 'w hal \<Rightarrow> 'w hal" where
  "fd_put i fd s = s\<lparr>alt_fd_list := (alt_fd_list s)[nat i := fd]\<rparr>"

function get_fd_loop :: "nat \<Rightarrow> nat \<Rightarrow> 'w hal \<Rightarrow> int \<times> 'w hal" where
  "get_fd_loop dev i s =
     (if i < ALT_MAX_FD then
        if fd_dev (alt_fd_list s ! i) = None then
          (int i, s\<lparr>alt_fd_list := (alt_fd_list s)[i := (alt_fd_list s ! i)\<lparr>fd_dev := Some dev\<rparr>],
                    alt_max_fd := (if int i > alt_max_fd s then int i else alt_max_fd s)\<rparr>)
        else get_fd_loop dev (Suc i) s
      else (- EMFILE, s))"
  by pat_completeness auto
termination by (relation "measure (\<lambda>(_, i, _). ALT_MAX_FD - i)") auto

declare get_fd_loop.simps [simp del]

definition alt_get_fd :: "nat \<Rightarrow> 'w hal \<Rightarrow> int \<times> 'w hal" where
  "alt_get_fd dev s = get_fd_loop dev 0 s"

definition alt_release_fd :: "int \<Rightarrow> 'w hal \<Rightarrow> 'w hal c_res" where
  "alt_release_fd fd s =
     (if fd > 2 then res_bind (fd_at fd s) (\<lambda>f.
        Inr (fd_put fd (f\<lparr>fd_flags := 0, fd_dev := None\<rparr>) s))
      else Inr s)"

text \<open>\<open>alt_fd_lock\<close>: the loop bound is \<open>i < alt_max_fd\<close>, as in the code.\<close>

function fd_lock_loop :: "int \<Rightarrow> alt_fd \<Rightarrow> int \<Rightarrow> 'w hal \<Rightarrow> bool c_res" where
  "fd_lock_loop fd f i s =
     (if i < alt_max_fd s then
        res_bind (fd_at i s) (\<lambda>g.
          if i \<noteq> fd \<and> fd_dev g = fd_dev f then Inr True else fd_lock_loop fd f (i + 1) s)
      else Inr False)"
  by pat_completeness auto
termination by (relation "measure (\<lambda>(_, _, i, s). nat (alt_max_fd s - i))") auto

declare fd_lock_loop.simps [simp del]

definition alt_fd_lock :: "int \<Rightarrow> 'w hal \<Rightarrow> (int \<times> 'w hal) c_res" where
  "alt_fd_lock fd s =
     res_bind (fd_at fd s) (\<lambda>f.
     res_bind (fd_lock_loop fd f 0 s) (\<lambda>busy.
       if busy then Inr (- EACCES, s)
       else Inr (0, fd_put fd (f\<lparr>fd_flags := fd_flags f OR ALT_FD_EXCL\<rparr>) s)))"

definition alt_fd_unlock :: "int \<Rightarrow> 'w hal \<Rightarrow> (int \<times> 'w hal) c_res" where
  "alt_fd_unlock fd s =
     res_bind (fd_at fd s) (\<lambda>f.
       Inr (0, fd_put fd (f\<lparr>fd_flags := fd_flags f AND NOT ALT_FD_EXCL\<rparr>) s))"

text \<open>
  \<open>alt_file_locked\<close>. The loop variable is unsigned, so with \<open>alt_max_fd = -1\<close> it would run up to
  \<open>2 ^ 32 - 1\<close> and leave the table.
\<close>

function file_locked_loop :: "int \<Rightarrow> alt_fd \<Rightarrow> int \<Rightarrow> 'w hal \<Rightarrow> bool c_res" where
  "file_locked_loop fd f i s =
     (if i \<le> alt_max_fd s mod 2 ^ 32 then
        res_bind (fd_at i s) (\<lambda>g.
          if fd_dev g = fd_dev f \<and> fd_flags g AND ALT_FD_EXCL \<noteq> 0 \<and> i \<noteq> fd then Inr True
          else file_locked_loop fd f (i + 1) s)
      else Inr False)"
  by pat_completeness auto
termination by (relation "measure (\<lambda>(_, _, i, s). nat (alt_max_fd s mod 2 ^ 32 + 1 - i))") auto

declare file_locked_loop.simps [simp del]

definition alt_file_locked :: "int \<Rightarrow> 'w hal \<Rightarrow> (int \<times> 'w hal) c_res" where
  "alt_file_locked fd s =
     res_bind (fd_at fd s) (\<lambda>f.
       let f = f\<lparr>fd_flags := fd_flags f OR ALT_FD_DEV\<rparr>; s = fd_put fd f s
       in res_bind (file_locked_loop fd f 0 s) (\<lambda>locked. Inr (if locked then - EACCES else 0, s)))"

section \<open>The table: allocation and the locks\<close>

abbreviation (input) in_use :: "nat \<Rightarrow> 'w hal \<Rightarrow> bool" where
  "in_use i s \<equiv> fd_dev (alt_fd_list s ! i) \<noteq> None"

text \<open>
  The invariant of the table: it has its fixed length, every descriptor in use above the
  three standard ones is covered by \<open>alt_max_fd\<close>, and the standard ones are never free.
\<close>

definition fds_ok :: "'w hal \<Rightarrow> bool" where
  "fds_ok s \<longleftrightarrow> length (alt_fd_list s) = ALT_MAX_FD \<and> - 1 \<le> alt_max_fd s \<and> alt_max_fd s < int ALT_MAX_FD \<and>
     (\<forall>i<ALT_MAX_FD. 2 < i \<longrightarrow> in_use i s \<longrightarrow> int i \<le> alt_max_fd s) \<and> (\<forall>i<3. in_use i s)"

definition fd_alloc :: "nat \<Rightarrow> nat \<Rightarrow> 'w hal \<Rightarrow> 'w hal" where
  "fd_alloc j dev s =
     s\<lparr>alt_fd_list := (alt_fd_list s)[j := (alt_fd_list s ! j)\<lparr>fd_dev := Some dev\<rparr>],
       alt_max_fd := max (int j) (alt_max_fd s)\<rparr>"

lemma get_fd_loop_spec:
  "i \<le> ALT_MAX_FD \<Longrightarrow> get_fd_loop dev i s =
     (case find (\<lambda>j. \<not> in_use j s) [i..<ALT_MAX_FD] of
        None \<Rightarrow> (- EMFILE, s) | Some j \<Rightarrow> (int j, fd_alloc j dev s))"
proof (induction "ALT_MAX_FD - i" arbitrary: i)
  case 0
  then show ?case by (simp add: get_fd_loop.simps)
next
  case (Suc d)
  then have "[i..<ALT_MAX_FD] = i # [Suc i..<ALT_MAX_FD]" by (simp add: upt_conv_Cons del: upt_Suc)
  with Suc show ?case
    by (subst get_fd_loop.simps) (auto simp: fd_alloc_def max_def simp del: upt_Suc)
qed

lemma alt_get_fd_spec [fd_simps]:
  "alt_get_fd dev s =
     (case find (\<lambda>j. \<not> in_use j s) [0..<ALT_MAX_FD] of
        None \<Rightarrow> (- EMFILE, s) | Some j \<Rightarrow> (int j, fd_alloc j dev s))"
  by (simp add: alt_get_fd_def get_fd_loop_spec del: upt_Suc)

lemma fd_at_ok [fd_simps]: "length (alt_fd_list s) = ALT_MAX_FD \<Longrightarrow> i < ALT_MAX_FD \<Longrightarrow>
    fd_at (int i) s = Inr (alt_fd_list s ! i)"
  by (simp add: fd_at_def)

lemma fd_put_sel [simp]:
  "alt_fd_list (fd_put i f s) = (alt_fd_list s)[nat i := f]"
  "alt_max_fd (fd_put i f s) = alt_max_fd s" "alt_devs (fd_put i f s) = alt_devs s"
  "alt_links (fd_put i f s) = alt_links s" "world (fd_put i f s) = world s"
  "alt_errno (fd_put i f s) = alt_errno s"
  by (simp_all add: fd_put_def)

lemma fd_alloc_sel [simp]:
  "alt_fd_list (fd_alloc j d s) = (alt_fd_list s)[j := (alt_fd_list s ! j)\<lparr>fd_dev := Some d\<rparr>]"
  "alt_max_fd (fd_alloc j d s) = max (int j) (alt_max_fd s)" "alt_devs (fd_alloc j d s) = alt_devs s"
  "alt_links (fd_alloc j d s) = alt_links s" "world (fd_alloc j d s) = world s"
  "alt_errno (fd_alloc j d s) = alt_errno s"
  by (simp_all add: fd_alloc_def)

text \<open>The two lock loops decide the existence of another descriptor on the same device.\<close>

lemma fd_lock_loop_spec:
  assumes "length (alt_fd_list s) = ALT_MAX_FD" "alt_max_fd s < int ALT_MAX_FD"
  shows "fd_lock_loop fd f (int i) s = Inr (\<exists>j\<ge>i. int j < alt_max_fd s \<and> int j \<noteq> fd \<and>
     fd_dev (alt_fd_list s ! j) = fd_dev f)"
proof (induction "nat (alt_max_fd s - int i)" arbitrary: i)
  case 0
  then show ?case by (subst fd_lock_loop.simps) auto
next
  case (Suc d)
  then have i: "int i < alt_max_fd s" "d = nat (alt_max_fd s - int (Suc i))" by auto
  have "fd_at (int i) s = Inr (alt_fd_list s ! i)" using assms i by (simp add: fd_at_def)
  moreover have "fd_lock_loop fd f (int i + 1) s = Inr (\<exists>j\<ge>Suc i. int j < alt_max_fd s \<and> int j \<noteq> fd \<and>
     fd_dev (alt_fd_list s ! j) = fd_dev f)"
    using Suc.hyps(1) [OF i(2)] by (simp add: add.commute)
  ultimately show ?case
    using i unfolding ex_ge_step [of i] by (subst fd_lock_loop.simps) auto
qed

lemma file_locked_loop_spec:
  assumes "length (alt_fd_list s) = ALT_MAX_FD" "alt_max_fd s < int ALT_MAX_FD" "0 \<le> alt_max_fd s"
  shows "file_locked_loop fd f (int i) s = Inr (\<exists>j\<ge>i. int j \<le> alt_max_fd s \<and>
     fd_dev (alt_fd_list s ! j) = fd_dev f \<and> fd_flags (alt_fd_list s ! j) AND ALT_FD_EXCL \<noteq> 0 \<and> int j \<noteq> fd)"
proof (induction "nat (alt_max_fd s + 1 - int i)" arbitrary: i)
  case 0
  then show ?case using assms by (subst file_locked_loop.simps) auto
next
  case (Suc d)
  then have i: "int i \<le> alt_max_fd s" "d = nat (alt_max_fd s + 1 - int (Suc i))" by auto
  have "fd_at (int i) s = Inr (alt_fd_list s ! i)" using assms i by (simp add: fd_at_def)
  moreover have "file_locked_loop fd f (int i + 1) s = Inr (\<exists>j\<ge>Suc i. int j \<le> alt_max_fd s \<and>
     fd_dev (alt_fd_list s ! j) = fd_dev f \<and> fd_flags (alt_fd_list s ! j) AND ALT_FD_EXCL \<noteq> 0 \<and> int j \<noteq> fd)"
    using Suc.hyps(1) [OF i(2)] by (simp add: add.commute)
  ultimately show ?case
    using i assms unfolding ex_ge_step [of i] by (subst file_locked_loop.simps) auto
qed

section \<open>The registries: lookup\<close>

text \<open>On proper C strings the comparisons never leave them.\<close>

definition c_string :: "string \<Rightarrow> bool" where
  "c_string s \<longleftrightarrow> CHR 0x00 \<notin> set s"

lemma memcmp_whole:
  "c_string a \<Longrightarrow> c_string b \<Longrightarrow> c_memcmp_eq a b (length b + 1) = Inr (a = b)"
proof -
  have "c_string a \<Longrightarrow> c_string b \<Longrightarrow> bytes_eq (a @ [CHR 0x00]) (b @ [CHR 0x00]) (Suc (length b)) = Inr (a = b)"
  proof (induction b arbitrary: a)
    case Nil
    then show ?case by (cases a) (auto simp: c_string_def)
  next
    case (Cons x b)
    then show ?case by (cases a) (auto simp: c_string_def)
  qed
  then show "c_string a \<Longrightarrow> c_string b \<Longrightarrow> c_memcmp_eq a b (length b + 1) = Inr (a = b)"
    by (simp add: c_memcmp_eq_def)
qed

lemma memcmp_prefix:
  "n \<le> length a \<Longrightarrow> n \<le> length b \<Longrightarrow> c_memcmp_eq a b n = Inr (take n a = take n b)"
proof -
  have "n \<le> length a \<Longrightarrow> n \<le> length b \<Longrightarrow> bytes_eq (a @ x) (b @ y) n = Inr (take n a = take n b)" for x y
  proof (induction n arbitrary: a b)
    case (Suc n)
    then obtain p a' q b' where "a = p # a'" "b = q # b'" by (cases a; cases b) auto
    with Suc show ?case by auto
  qed simp
  then show "n \<le> length a \<Longrightarrow> n \<le> length b \<Longrightarrow> c_memcmp_eq a b n = Inr (take n a = take n b)"
    by (simp add: c_memcmp_eq_def)
qed

text \<open>
  The two registries of a state: the devices \<open>ds\<close> and the file systems \<open>fs\<close>, most recently
  registered first, all with a name.
\<close>

definition registered_as :: "'w hal \<Rightarrow> nat list \<Rightarrow> nat list \<Rightarrow> bool" where
  "registered_as s ds fs \<longleftrightarrow>
     llist_repr (alt_links s) alt_dev_list ds \<and> llist_repr (alt_links s) alt_fs_list fs \<and>
     set (alt_dev_list # ds) \<inter> set (alt_fs_list # fs) = {} \<and>
     (\<forall>d\<in>set (ds @ fs). \<exists>n. dev_name (alt_devs s d) = Some n \<and> c_string n)"

lemma find_dev_seg:
  assumes "seg (alt_links s) cur xs llist" "llist \<notin> set xs" "c_string name"
    "\<forall>d\<in>set xs. \<exists>n. dev_name (alt_devs s d) = Some n \<and> c_string n"
  shows "find_dev_from name llist s (ll_next (alt_links s cur)) =
     Some (Inr (find (\<lambda>d. dev_name (alt_devs s d) = Some name) xs))"
  using assms
proof (induction xs arbitrary: cur)
  case Nil
  then show ?case by (simp add: find_dev_from.simps)
next
  case (Cons x xs)
  then obtain n where "dev_name (alt_devs s x) = Some n" "c_string n" by auto
  with Cons show ?case
    by (subst find_dev_from.simps) (auto simp: memcmp_whole [simplified])
qed

lemma alt_find_dev_spec:
  assumes "registered_as s ds fs" "c_string name"
  shows "alt_find_dev name alt_dev_list s = Inr (find (\<lambda>d. dev_name (alt_devs s d) = Some name) ds)"
  using find_dev_seg [of s alt_dev_list ds alt_dev_list name] assms
  by (simp add: alt_find_dev_def returns_def registered_as_def llist_repr_def)

text \<open>
  A mount point, its trailing slash dropped, matches a path that continues with a slash or
  ends there. On a path shorter than the mount point the code reads beyond the path's end,
  and on an empty mount point before its start.
\<close>

definition mount_point :: "string \<Rightarrow> string" where
  "mount_point dn = (if last dn = CHR ''/'' then butlast dn else dn)"

definition under_mount :: "string \<Rightarrow> string \<Rightarrow> bool" where
  "under_mount m name \<longleftrightarrow> take (length m) name = m \<and> (length name = length m \<or> name ! length m = CHR ''/'')"

lemma mount_matches_spec:
  assumes "c_string name"
  shows "mount_matches dn name =
    (if dn = [] \<or> length name < length (mount_point dn) then Inl OutOfBounds
     else Inr (under_mount (mount_point dn) name))"
proof (cases "dn = []")
  case False
  let ?m = "mount_point dn"
  have l: "c_char dn (int (length dn) - 1) = Inr (last dn)"
    using False by (cases dn rule: rev_cases) (simp_all add: c_char_def nth_append)
  have len: "(if last dn = CHR ''/'' then int (length dn) - 1 else int (length dn)) = int (length ?m)"
    using False by (simp add: mount_point_def of_nat_diff Suc_leI)
  have m: "take (length ?m) dn = ?m" "length ?m \<le> length dn"
    by (auto simp: mount_point_def butlast_conv_take)
  have c: "name ! length ?m \<noteq> CHR 0x00" if "length ?m < length name"
    using that assms nth_mem [of "length ?m" name] unfolding c_string_def by metis
  show ?thesis
  proof (cases "length name < length ?m")
    case True
    then show ?thesis using False l len by (simp add: mount_matches_def Let_def c_char_def)
  next
    case False
    then have "c_char name (int (length ?m)) =
        Inr (if length name = length ?m then CHR 0x00 else name ! length ?m)"
      by (auto simp: c_char_def nth_append)
    then show ?thesis
      using False \<open>dn \<noteq> []\<close> l len c m memcmp_prefix [of "length ?m" dn name]
      by (auto simp: mount_matches_def under_mount_def Let_def)
  qed
qed (simp add: mount_matches_def c_char_def Let_def)

fun find_mount :: "(nat \<Rightarrow> string) \<Rightarrow> string \<Rightarrow> nat list \<Rightarrow> nat option c_res" where
  "find_mount nm name [] = Inr None"
| "find_mount nm name (d # ds) =
     (if nm d = [] \<or> length name < length (mount_point (nm d)) then Inl OutOfBounds
      else if under_mount (mount_point (nm d)) name then Inr (Some d) else find_mount nm name ds)"

lemma find_file_seg:
  assumes "seg (alt_links s) cur xs alt_fs_list" "alt_fs_list \<notin> set xs" "c_string name"
    "\<forall>d\<in>set xs. \<exists>n. dev_name (alt_devs s d) = Some n \<and> c_string n"
  shows "find_file_from name s (ll_next (alt_links s cur)) =
     Some (find_mount (\<lambda>d. the (dev_name (alt_devs s d))) name xs)"
  using assms
proof (induction xs arbitrary: cur)
  case Nil
  then show ?case by (simp add: find_file_from.simps)
next
  case (Cons x xs)
  then obtain n where "dev_name (alt_devs s x) = Some n" "c_string n" by auto
  with Cons show ?case
    by (subst find_file_from.simps) (auto simp: mount_matches_spec)
qed

lemma alt_find_file_spec:
  assumes "registered_as s ds fs" "c_string name"
  shows "alt_find_file name s = find_mount (\<lambda>d. the (dev_name (alt_devs s d))) name fs"
  using find_file_seg [of s alt_fs_list fs name] assms
  by (simp add: alt_find_file_def returns_def registered_as_def llist_repr_def)

text \<open>What \<open>open\<close> looks up: first the devices, then the file systems.\<close>

definition lookup :: "'w hal \<Rightarrow> nat list \<Rightarrow> nat list \<Rightarrow> string \<Rightarrow> (nat option \<times> bool) c_res" where
  "lookup s ds fs name =
     (case find (\<lambda>d. dev_name (alt_devs s d) = Some name) ds of
        Some d \<Rightarrow> Inr (Some d, False)
      | None \<Rightarrow> res_bind (find_mount (\<lambda>d. the (dev_name (alt_devs s d))) name fs) (\<lambda>d. Inr (d, True)))"

section \<open>Registration\<close>

lemma llist_insert_links [simp]:
  "alt_links (s\<lparr>alt_links := h\<rparr>) = h" "alt_devs (s\<lparr>alt_links := h\<rparr>) = alt_devs s"
  by simp_all

text \<open>Linking a fresh node into one list leaves the other as it is.\<close>

lemma insert_keeps_other:
  assumes "llist_repr h head xs" "llist_repr h other ys" "set (head # xs) \<inter> set (other # ys) = {}"
    "entry \<notin> set (other # ys)"
  shows "llist_repr (alt_llist_insert head entry h) other ys"
proof (rule repr_frame [OF assms(2)])
  fix x assume x: "x \<in> set (other # ys)"
  have "ll_next (h head) \<in> set (head # xs)"
    using assms(1) seg_first_next [of h head xs head] by (cases xs) (auto simp: llist_repr_def)
  then show "alt_llist_insert head entry h x = h x"
    using x assms(3,4) by (intro insert_other) auto
qed

text \<open>
  Both registration calls: a device without a name is refused, with the error number set by
  one and not by the other; a fresh named one becomes the first of its list.
\<close>

lemma alt_dev_reg_ok:
  assumes r: "registered_as s ds fs" and n: "dev_name (alt_devs s d) = Some n" "c_string n"
    and fresh: "d \<notin> set (alt_dev_list # ds) \<union> set (alt_fs_list # fs)"
  shows "\<exists>s'. alt_dev_reg (Some d) s = (0, s') \<and> registered_as s' (d # ds) fs \<and> alt_devs s' = alt_devs s \<and>
    alt_fd_list s' = alt_fd_list s"
proof -
  let ?h = "alt_llist_insert alt_dev_list d (alt_links s)"
  have "llist_repr ?h alt_dev_list (d # ds)" "llist_repr ?h alt_fs_list fs"
    using r fresh unfolding registered_as_def
    by (auto intro!: insert_repr insert_keeps_other [where xs = ds])
  then show ?thesis
    using r n fresh by (auto simp: alt_dev_reg_def alt_dev_llist_insert_def registered_as_def)
qed

lemma alt_fs_reg_ok:
  assumes r: "registered_as s ds fs" and n: "dev_name (alt_devs s d) = Some n" "c_string n"
    and fresh: "d \<notin> set (alt_dev_list # ds) \<union> set (alt_fs_list # fs)"
  shows "\<exists>s'. alt_fs_reg d s = (0, s') \<and> registered_as s' ds (d # fs) \<and> alt_devs s' = alt_devs s \<and>
    alt_fd_list s' = alt_fd_list s"
proof -
  let ?h = "alt_llist_insert alt_fs_list d (alt_links s)"
  have "llist_repr ?h alt_fs_list (d # fs)" "llist_repr ?h alt_dev_list ds"
    using r fresh unfolding registered_as_def
    by (auto intro!: insert_repr insert_keeps_other [where xs = fs])
  then show ?thesis
    using r n fresh by (auto simp: alt_fs_reg_def registered_as_def)
qed

lemma hal_init_registered:
  "registered_as (hal_init dv w) [alt_dev_null] []"
  by (simp add: registered_as_def hal_init_def alt_links_init_def llist_repr_def alt_llist_head_def
      alt_dev_null_dev_def c_string_def)

lemma hal_init_fds: "fds_ok (hal_init dv w)"
  by (auto simp: fds_ok_def hal_init_def alt_fd_list_init_def nth_append less_Suc_eq numeral_nat nth_Cons')

end
