(* ===== verification/File_Ops.thy ===== *)
theory File_Ops
  imports Fd_Table
begin

text \<open>
  The system calls on file descriptors, in their full (not direct-driver) variants:
  \<open>alt_open.c\<close>, \<open>alt_close.c\<close>, \<open>alt_read.c\<close>, \<open>alt_write.c\<close>, \<open>alt_lseek.c\<close>, \<open>alt_fstat.c\<close>,
  \<open>alt_ioctl.c\<close>, \<open>alt_fcntl.c\<close>, \<open>alt_isatty.c\<close>, \<open>alt_io_redirect.c\<close>, \<open>alt_stat.c\<close>. Each
  returns its C result and the new state; indexing outside the table and going through a
  null pointer are faults.
\<close>

section \<open>Open and close\<close>

text \<open>Storing what a driver function did to its descriptor and to the hardware.\<close>

definition driven :: "int \<Rightarrow> int \<times> alt_fd \<times> 'w \<Rightarrow> 'w hal \<Rightarrow> int \<times> 'w hal" where
  "driven fd res s = (case res of (rc, f, w) \<Rightarrow> (rc, fd_put fd f (s\<lparr>world := w\<rparr>)))"

text \<open>The branch of \<open>alt_open\<close> that has a descriptor.\<close>

definition open_on :: "int \<Rightarrow> nat \<Rightarrow> bool \<Rightarrow> string \<Rightarrow> alt_u32 \<Rightarrow> int \<Rightarrow> 'w hal \<Rightarrow> (int \<times> 'w hal) c_res" where
  "open_on index dev isafs file flags mode s =
     res_bind (fd_at index s) (\<lambda>f.
       let s = fd_put index (f\<lparr>fd_flags := flags AND NOT ALT_FD_FLAGS_MASK\<rparr>) s
       in res_bind (if isafs then Inr (- ENODEV, s) else alt_file_locked index s) (\<lambda>(status, s).
          if isafs \<or> status \<ge> 0 then
            res_bind (fd_at index s) (\<lambda>f.
              case dev_open (alt_devs s dev) of
                None \<Rightarrow> Inr (0, s)
              | Some op \<Rightarrow> Inr (driven index (op f file flags mode (world s)) s))
          else Inr (status, s)))"

definition alt_open :: "string \<Rightarrow> alt_u32 \<Rightarrow> int \<Rightarrow> 'w hal \<Rightarrow> (int \<times> 'w hal) c_res" where
  "alt_open file flags mode s =
     res_bind (alt_find_dev file alt_dev_list s) (\<lambda>d.
     res_bind (case d of Some dev \<Rightarrow> Inr (Some dev, False)
               | None \<Rightarrow> res_bind (alt_find_file file s) (\<lambda>d. Inr (d, True))) (\<lambda>(d, isafs).
     res_bind (case d of
                 None \<Rightarrow> Inr (- ENODEV, - 1, s)
               | Some dev \<Rightarrow>
                   (let (index, s) = alt_get_fd dev s
                    in if index < 0 then Inr (index, index, s)
                       else res_bind (open_on index dev isafs file flags mode s) (\<lambda>(status, s).
                              Inr (status, index, s)))) (\<lambda>(status, index, s).
       if status < 0 then res_bind (alt_release_fd index s) (\<lambda>s. Inr (- 1, s\<lparr>alt_errno := - status\<rparr>))
       else Inr (index, s))))"

text \<open>\<open>fd = (fildes < 0) ? NULL : &alt_fd_list[fildes]\<close>, and \<open>fd->dev\<close>.\<close>

definition fd_device :: "int \<Rightarrow> 'w hal \<Rightarrow> (alt_fd \<times> 'w alt_dev) c_res" where
  "fd_device fd s =
     res_bind (fd_at fd s) (\<lambda>f.
       case fd_dev f of None \<Rightarrow> Inl NullDeref | Some d \<Rightarrow> Inr (f, alt_devs s d))"

definition alt_close :: "int \<Rightarrow> 'w hal \<Rightarrow> (int \<times> 'w hal) c_res" where
  "alt_close fildes s =
     (if fildes < 0 then Inr (- 1, s\<lparr>alt_errno := EBADFD\<rparr>)
      else res_bind (fd_device fildes s) (\<lambda>(f, dev).
        let (rval, s) = (case dev_close dev of None \<Rightarrow> (0, s)
                         | Some cl \<Rightarrow> driven fildes (cl f (world s)) s)
        in res_bind (alt_release_fd fildes s) (\<lambda>s.
             if rval < 0 then Inr (- 1, s\<lparr>alt_errno := - rval\<rparr>) else Inr (0, s))))"

section \<open>Transfer\<close>

definition alt_read :: "int \<Rightarrow> int \<Rightarrow> 'w hal \<Rightarrow> (int \<times> alt_u8 list \<times> 'w hal) c_res" where
  "alt_read file len s =
     (if file < 0 then Inr (- 1, [], s\<lparr>alt_errno := EBADFD\<rparr>)
      else res_bind (fd_at file s) (\<lambda>f.
        if fd_flags f AND O_ACCMODE \<noteq> O_WRONLY then
          res_bind (fd_device file s) (\<lambda>(f, dev).
            case dev_read dev of
              None \<Rightarrow> Inr (- 1, [], s\<lparr>alt_errno := EACCES\<rparr>)
            | Some rd \<Rightarrow>
                (let (rval, bytes, f, w) = rd f len (world s); s = fd_put file f (s\<lparr>world := w\<rparr>)
                 in if rval < 0 then Inr (- 1, bytes, s\<lparr>alt_errno := - rval\<rparr>)
                    else Inr (rval, bytes, s)))
        else Inr (- 1, [], s\<lparr>alt_errno := EACCES\<rparr>)))"

definition alt_write :: "int \<Rightarrow> alt_u8 list \<Rightarrow> int \<Rightarrow> 'w hal \<Rightarrow> (int \<times> 'w hal) c_res" where
  "alt_write file ptr len s =
     (if file < 0 then Inr (- 1, s\<lparr>alt_errno := EBADFD\<rparr>)
      else res_bind (fd_at file s) (\<lambda>f.
        if fd_flags f AND O_ACCMODE \<noteq> O_RDONLY then
          res_bind (fd_device file s) (\<lambda>(f, dev).
            case dev_write dev of
              None \<Rightarrow> Inr (- 1, s\<lparr>alt_errno := EACCES\<rparr>)
            | Some wr \<Rightarrow>
                (let (rval, s) = driven file (wr f ptr len (world s)) s
                 in if rval < 0 then Inr (- 1, s\<lparr>alt_errno := - rval\<rparr>) else Inr (rval, s)))
        else Inr (- 1, s\<lparr>alt_errno := EACCES\<rparr>)))"

definition alt_lseek :: "int \<Rightarrow> int \<Rightarrow> int \<Rightarrow> 'w hal \<Rightarrow> (int \<times> 'w hal) c_res" where
  "alt_lseek file ptr dir s =
     res_bind (if file < 0 then Inr (- EBADFD, s)
       else res_bind (fd_device file s) (\<lambda>(f, dev).
         case dev_lseek dev of None \<Rightarrow> Inr (- ENOTSUP, s)
         | Some sk \<Rightarrow> Inr (driven file (sk f ptr dir (world s)) s))) (\<lambda>(rc, s).
       if rc < 0 then Inr (- 1, s\<lparr>alt_errno := - rc\<rparr>) else Inr (rc, s))"

section \<open>Status and control\<close>

text \<open>The middle component is the mode stored into the caller's \<open>struct stat\<close>, if any was.\<close>

definition alt_fstat :: "int \<Rightarrow> 'w hal \<Rightarrow> (int \<times> alt_u32 option \<times> 'w hal) c_res" where
  "alt_fstat file s =
     (if file < 0 then Inr (- 1, None, s\<lparr>alt_errno := EBADFD\<rparr>)
      else res_bind (fd_device file s) (\<lambda>(f, dev).
        case dev_fstat dev of None \<Rightarrow> Inr (0, Some IFCHR, s)
        | Some st \<Rightarrow>
            (let (rc, m, f, w) = st f (world s) in Inr (rc, m, fd_put file f (s\<lparr>world := w\<rparr>)))))"

text \<open>\<open>junk\<close> is what the uninitialised \<open>struct stat\<close> on the stack holds.\<close>

definition alt_isatty :: "alt_u32 \<Rightarrow> int \<Rightarrow> 'w hal \<Rightarrow> (int \<times> 'w hal) c_res" where
  "alt_isatty junk file s =
     (if file < 0 then Inr (0, s\<lparr>alt_errno := EBADFD\<rparr>)
      else res_bind (fd_device file s) (\<lambda>(f, dev).
        if dev_fstat dev = None then Inr (1, s)
        else res_bind (alt_fstat file s) (\<lambda>(rc, m, s).
          Inr (if (case m of None \<Rightarrow> junk | Some v \<Rightarrow> v) = IFCHR then 1 else 0, s))))"

abbreviation (input) TIOCEXCL :: int where "TIOCEXCL \<equiv> 0x740d"
abbreviation (input) TIOCNXCL :: int where "TIOCNXCL \<equiv> 0x740e"

text \<open>The value component is what the driver left behind \<open>arg\<close>.\<close>

definition alt_ioctl :: "int \<Rightarrow> int \<Rightarrow> int \<Rightarrow> 'w hal \<Rightarrow> (int \<times> int \<times> 'w hal) c_res" where
  "alt_ioctl file req arg s =
     res_bind (if file < 0 then Inr (- EBADFD, arg, s)
       else res_bind (fd_at file s) (\<lambda>f.
         if fd_flags f AND ALT_FD_DEV \<noteq> 0 \<and> req = TIOCEXCL then
           res_bind (alt_fd_lock file s) (\<lambda>(rc, s). Inr (rc, arg, s))
         else if fd_flags f AND ALT_FD_DEV \<noteq> 0 \<and> req = TIOCNXCL then
           res_bind (alt_fd_unlock file s) (\<lambda>(rc, s). Inr (rc, arg, s))
         else res_bind (fd_device file s) (\<lambda>(f, dev).
           case dev_ioctl dev of None \<Rightarrow> Inr (- ENOTTY, arg, s)
           | Some io \<Rightarrow>
               (let (rc, arg, f, w) = io f req arg (world s)
                in Inr (rc, arg, fd_put file f (s\<lparr>world := w\<rparr>)))))) (\<lambda>(rc, arg, s).
       Inr (rc, arg, if rc < 0 then s\<lparr>alt_errno := - rc\<rparr> else s))"

abbreviation (input) ALT_FCNTL_FLAGS_MASK :: alt_u32 where
  "ALT_FCNTL_FLAGS_MASK \<equiv> O_APPEND OR O_NONBLOCK"

definition alt_fcntl :: "int \<Rightarrow> int \<Rightarrow> alt_u32 \<Rightarrow> 'w hal \<Rightarrow> (int \<times> 'w hal) c_res" where
  "alt_fcntl file cmd flags s =
     (if file < 0 then Inr (- 1, s\<lparr>alt_errno := EBADFD\<rparr>)
      else if cmd = F_GETFL then
        res_bind (fd_at file s) (\<lambda>f. Inr (sint (fd_flags f AND NOT ALT_FD_FLAGS_MASK), s))
      else if cmd = F_SETFL then
        res_bind (fd_at file s) (\<lambda>f.
          let fl = fd_flags f AND NOT ALT_FCNTL_FLAGS_MASK; fl = fl OR (flags AND ALT_FCNTL_FLAGS_MASK)
          in Inr (0, fd_put file (f\<lparr>fd_flags := fl\<rparr>) s))
      else Inr (- 1, s\<lparr>alt_errno := EINVAL\<rparr>))"

section \<open>Redirection and stat\<close>

definition alt_open_fd :: "int \<Rightarrow> string \<Rightarrow> alt_u32 \<Rightarrow> int \<Rightarrow> 'w hal \<Rightarrow> 'w hal c_res" where
  "alt_open_fd fd name flags mode s =
     res_bind (alt_open name flags mode s) (\<lambda>(old, s).
       if old \<ge> 0 then
         res_bind (fd_at old s) (\<lambda>g.
         res_bind (fd_at fd s) (\<lambda>f.
           alt_release_fd old (fd_put fd (f\<lparr>fd_dev := fd_dev g, fd_priv := fd_priv g,
             fd_flags := fd_flags g\<rparr>) s)))
       else Inr s)"

definition alt_io_redirect :: "string \<Rightarrow> string \<Rightarrow> string \<Rightarrow> 'w hal \<Rightarrow> 'w hal c_res" where
  "alt_io_redirect stdout_dev stdin_dev stderr_dev s =
     res_bind (alt_open_fd 1 stdout_dev O_WRONLY 0x1FF s) (\<lambda>s.
     res_bind (alt_open_fd 0 stdin_dev O_RDONLY 0x1FF s) (\<lambda>s.
       alt_open_fd 2 stderr_dev O_WRONLY 0x1FF s))"

text \<open>\<open>open (file, 0)\<close> passes no mode; \<open>mode\<close> is what the variadic wrapper picks up instead.\<close>

definition alt_stat :: "int \<Rightarrow> string \<Rightarrow> 'w hal \<Rightarrow> (int \<times> alt_u32 option \<times> 'w hal) c_res" where
  "alt_stat mode file s =
     res_bind (alt_open file 0 mode s) (\<lambda>(fd, s).
     res_bind (alt_fstat fd s) (\<lambda>(rc, m, s).
     res_bind (alt_close fd s) (\<lambda>(_, s). Inr (rc, m, s))))"

section \<open>Open: the specification\<close>

text \<open>The descriptor the next \<open>open\<close> takes, and whether a device is locked.\<close>

definition lowest_free :: "'w hal \<Rightarrow> nat option" where
  "lowest_free s = find (\<lambda>j. \<not> in_use j s) [0..<ALT_MAX_FD]"

definition locked :: "nat \<Rightarrow> 'w hal \<Rightarrow> bool" where
  "locked dev s \<longleftrightarrow> (\<exists>i<ALT_MAX_FD. fd_dev (alt_fd_list s ! i) = Some dev \<and>
     fd_flags (alt_fd_list s ! i) AND ALT_FD_EXCL \<noteq> 0)"

definition fd_free :: "nat \<Rightarrow> 'w hal \<Rightarrow> 'w hal" where
  "fd_free j s = s\<lparr>alt_fd_list := (alt_fd_list s)[j := (alt_fd_list s ! j)\<lparr>fd_flags := 0, fd_dev := None\<rparr>]\<rparr>"

lemma lowest_free_Some:
  "lowest_free s = Some j \<longleftrightarrow> j < ALT_MAX_FD \<and> \<not> in_use j s \<and> (\<forall>i<j. in_use i s)"
  unfolding lowest_free_def find_Some_iff
proof (intro iffI)
  assume "j < 32 \<and> \<not> in_use j s \<and> (\<forall>i<j. in_use i s)"
  then show "\<exists>i<length [0..<32]. \<not> in_use ([0..<32] ! i) s \<and> j = [0..<32] ! i \<and>
      (\<forall>k<i. \<not> (\<not> in_use ([0..<32] ! k) s))"
    by (intro exI [of _ j]) (auto simp del: upt_Suc)
qed (auto simp del: upt_Suc)

lemma lowest_free_None: "lowest_free s = None \<longleftrightarrow> (\<forall>i<ALT_MAX_FD. in_use i s)"
  by (auto simp: lowest_free_def find_None_iff simp del: upt_Suc)

lemma lowest_free_gt2: "fds_ok s \<Longrightarrow> lowest_free s = Some j \<Longrightarrow> 2 < j"
  by (rule ccontr) (auto simp: fds_ok_def lowest_free_Some)

lemma alt_get_fd_lowest:
  "alt_get_fd dev s = (case lowest_free s of None \<Rightarrow> (- EMFILE, s) | Some j \<Rightarrow> (int j, fd_alloc j dev s))"
  by (simp add: alt_get_fd_spec lowest_free_def)

lemma alt_release_fd_eq:
  "length (alt_fd_list s) = ALT_MAX_FD \<Longrightarrow> 2 < j \<Longrightarrow> j < ALT_MAX_FD \<Longrightarrow>
   alt_release_fd (int j) s = Inr (fd_free j s)"
  by (simp add: alt_release_fd_def fd_at_def fd_free_def fd_put_def)

lemma alt_release_std: "fd \<le> 2 \<Longrightarrow> alt_release_fd fd s = Inr s"
  by (simp add: alt_release_fd_def)

text \<open>
  What \<open>open\<close> promises, in terms of the free slot, the locks and the driver alone: the
  loops, the fix-ups of the flags and the unsigned comparison are gone.
\<close>

definition opened_fd :: "alt_fd \<Rightarrow> nat \<Rightarrow> bool \<Rightarrow> alt_u32 \<Rightarrow> alt_fd" where
  "opened_fd f dev isafs flags =
     f\<lparr>fd_dev := Some dev, fd_flags := (let fl = flags AND NOT ALT_FD_FLAGS_MASK
        in if isafs then fl else fl OR ALT_FD_DEV)\<rparr>"

definition open_spec :: "string \<Rightarrow> alt_u32 \<Rightarrow> int \<Rightarrow> nat \<Rightarrow> bool \<Rightarrow> 'w hal \<Rightarrow> int \<times> 'w hal" where
  "open_spec file flags mode dev isafs s =
     (case lowest_free s of
        None \<Rightarrow> (- 1, s\<lparr>alt_errno := EMFILE\<rparr>)
      | Some j \<Rightarrow>
          (let f = opened_fd (alt_fd_list s ! j) dev isafs flags;
               s' = fd_put (int j) f (fd_alloc j dev s);
               fail = (\<lambda>e s. (- 1, (fd_free j s)\<lparr>alt_errno := e\<rparr>))
           in if \<not> isafs \<and> locked dev s then fail EACCES s'
              else case dev_open (alt_devs s dev) of
                None \<Rightarrow> (int j, s')
              | Some op \<Rightarrow>
                  (let (status, s') = driven (int j) (op f file flags mode (world s)) s'
                   in if status < 0 then fail (- status) s' else (int j, s'))))"

lemma fd_put_put [simp]:
  "fd_put i f (fd_put i g s) = fd_put i f s"
  "fd_put i f ((fd_put i g s)\<lparr>world := w\<rparr>) = (fd_put i f s)\<lparr>world := w\<rparr>"
  by (simp_all add: fd_put_def)

text \<open>A fresh descriptor is covered by the new \<open>alt_max_fd\<close>, and so is every lock.\<close>

lemma locked_loop_fresh:
  assumes ok: "fds_ok s" and j: "lowest_free s = Some j"
    and f: "fd_dev f = Some dev"
  shows "file_locked_loop (int j) f 0 (fd_put (int j) f (fd_alloc j dev s)) = Inr (locked dev s)"
proof -
  let ?s = "fd_put (int j) f (fd_alloc j dev s)"
  have j3: "2 < j" "j < 32" "\<not> in_use j s" using lowest_free_gt2 [OF ok j] j by (simp_all add: lowest_free_Some)
  have used: "int i \<le> max (int j) (alt_max_fd s)" if "i < 32" "in_use i s" for i
    using that ok j3 by (cases "2 < i") (auto simp: fds_ok_def)
  have bound: "int i \<le> max (int j) (alt_max_fd s) \<Longrightarrow> i < 32" for i
    using ok j3 by (auto simp: fds_ok_def)
  have "file_locked_loop (int j) f (int 0) ?s = Inr (\<exists>i\<ge>0. int i \<le> alt_max_fd ?s \<and>
     fd_dev (alt_fd_list ?s ! i) = fd_dev f \<and> fd_flags (alt_fd_list ?s ! i) AND ALT_FD_EXCL \<noteq> 0 \<and> int i \<noteq> int j)"
    using ok j3 by (intro file_locked_loop_spec) (auto simp: fds_ok_def)
  moreover have "(\<exists>i\<ge>0. int i \<le> alt_max_fd ?s \<and> fd_dev (alt_fd_list ?s ! i) = fd_dev f \<and>
     fd_flags (alt_fd_list ?s ! i) AND ALT_FD_EXCL \<noteq> 0 \<and> int i \<noteq> int j) \<longleftrightarrow> locked dev s"
    (is "?L \<longleftrightarrow> ?R")
  proof
    assume ?L
    then obtain i where i: "int i \<le> max (int j) (alt_max_fd s)" "i \<noteq> j"
      "fd_dev (alt_fd_list s ! i) = Some dev" "fd_flags (alt_fd_list s ! i) AND ALT_FD_EXCL \<noteq> 0"
      using f by auto
    with bound [OF i(1)] show ?R unfolding locked_def by blast
  next
    assume ?R
    then obtain i where i: "i < 32" "fd_dev (alt_fd_list s ! i) = Some dev"
      "fd_flags (alt_fd_list s ! i) AND ALT_FD_EXCL \<noteq> 0" unfolding locked_def by blast
    moreover from this have "i \<noteq> j" using j3 by auto
    ultimately show ?L using j3 used [of i] by (intro exI [of _ i]) (auto simp: f)
  qed
  ultimately show ?thesis by simp
qed

lemma open_on_eq:
  assumes ok: "fds_ok s" and j: "lowest_free s = Some j"
  shows "open_on (int j) dev isafs file flags mode (fd_alloc j dev s) =
    (let f = opened_fd (alt_fd_list s ! j) dev isafs flags;
         s' = fd_put (int j) f (fd_alloc j dev s)
     in if \<not> isafs \<and> locked dev s then Inr (- EACCES, s')
        else case dev_open (alt_devs s dev) of None \<Rightarrow> Inr (0, s')
          | Some op \<Rightarrow> Inr (driven (int j) (op f file flags mode (world s)) s'))"
proof -
  have l: "length (alt_fd_list s) = 32" "j < 32" using ok j by (simp_all add: fds_ok_def lowest_free_Some)
  show ?thesis
    using l locked_loop_fresh [OF ok j, of "opened_fd (alt_fd_list s ! j) dev isafs flags" dev]
    by (auto simp: open_on_def opened_fd_def fd_at_def alt_file_locked_def Let_def split: option.split)
qed

lemma alt_open_eq:
  assumes ok: "fds_ok s" and r: "registered_as s ds fs" and n: "c_string file"
  shows "alt_open file flags mode s = res_bind (lookup s ds fs file) (\<lambda>(d, isafs).
    case d of None \<Rightarrow> Inr (- 1, s\<lparr>alt_errno := ENODEV\<rparr>)
    | Some dev \<Rightarrow> Inr (open_spec file flags mode dev isafs s))"
proof -
  have on: "res_bind (let (index, s) = alt_get_fd dev s
       in if index < 0 then Inr (index, index, s)
          else res_bind (open_on index dev isafs file flags mode s) (\<lambda>(status, s).
                 Inr (status, index, s))) (\<lambda>(status, index, s).
       if status < 0 then res_bind (alt_release_fd index s) (\<lambda>s. Inr (- 1, s\<lparr>alt_errno := - status\<rparr>))
       else Inr (index, s)) = Inr (open_spec file flags mode dev isafs s)" for dev isafs
  proof (cases "lowest_free s")
    case None
    then show ?thesis by (simp add: alt_get_fd_lowest open_spec_def alt_release_std)
  next
    case (Some j)
    then have "2 < j" "j < 32" "length (alt_fd_list s) = 32"
      using lowest_free_gt2 [OF ok] ok by (auto simp: lowest_free_Some fds_ok_def)
    with Some show ?thesis
      by (auto simp: alt_get_fd_lowest open_spec_def open_on_eq [OF ok Some] Let_def driven_def
          alt_release_fd_eq split: option.split prod.split)
  qed
  note look = alt_open_def alt_find_dev_spec [OF r n] alt_find_file_spec [OF r n] lookup_def
  show ?thesis
  proof (cases "find (\<lambda>d. dev_name (alt_devs s d) = Some file) ds")
    case None
    then show ?thesis
    proof (cases "find_mount (\<lambda>d. the (dev_name (alt_devs s d))) file fs")
      case (Inr d)
      with None on show ?thesis by (cases d) (simp_all add: look alt_release_std)
    qed (simp add: look)
  qed (use on in \<open>simp add: look\<close>)
qed

section \<open>Well-behaved drivers and the table invariant\<close>

text \<open>
  The contract of a driver: it works on the private data of its descriptor and leaves the
  descriptor's device and flags to this layer.
\<close>

definition keeps :: "alt_fd \<Rightarrow> alt_fd \<Rightarrow> bool" where
  "keeps f g \<longleftrightarrow> fd_dev g = fd_dev f \<and> fd_flags g = fd_flags f"

definition driver_ok :: "'w alt_dev \<Rightarrow> bool" where
  "driver_ok d \<longleftrightarrow>
     (\<forall>op f n fl m w. dev_open d = Some op \<longrightarrow> keeps f (fst (snd (op f n fl m w)))) \<and>
     (\<forall>op f w. dev_close d = Some op \<longrightarrow> keeps f (fst (snd (op f w)))) \<and>
     (\<forall>op f l w. dev_read d = Some op \<longrightarrow> keeps f (fst (snd (snd (op f l w))))) \<and>
     (\<forall>op f p l w. dev_write d = Some op \<longrightarrow> keeps f (fst (snd (op f p l w)))) \<and>
     (\<forall>op f p l w. dev_lseek d = Some op \<longrightarrow> keeps f (fst (snd (op f p l w)))) \<and>
     (\<forall>op f w. dev_fstat d = Some op \<longrightarrow> keeps f (fst (snd (snd (op f w))))) \<and>
     (\<forall>op f r a w. dev_ioctl d = Some op \<longrightarrow> keeps f (fst (snd (snd (op f r a w)))))"

definition drivers_ok :: "'w hal \<Rightarrow> bool" where
  "drivers_ok s \<longleftrightarrow> (\<forall>d. driver_ok (alt_devs s d))"

lemma fds_ok_irrelevant [simp]:
  "fds_ok (s\<lparr>alt_errno := e\<rparr>) = fds_ok s" "fds_ok (s\<lparr>world := w\<rparr>) = fds_ok s"
  "fds_ok (s\<lparr>alt_links := h\<rparr>) = fds_ok s"
  by (simp_all add: fds_ok_def)

lemma fds_ok_put:
  assumes "fds_ok s" "i < ALT_MAX_FD"
    and "fd_dev f \<noteq> None \<Longrightarrow> 2 < i \<Longrightarrow> int i \<le> alt_max_fd s" "i < 3 \<Longrightarrow> fd_dev f \<noteq> None"
  shows "fds_ok (fd_put (int i) f s)"
  using assms by (auto simp: fds_ok_def nth_list_update)

lemma fds_ok_put_same:
  "fds_ok s \<Longrightarrow> i < ALT_MAX_FD \<Longrightarrow> fd_dev f = fd_dev (alt_fd_list s ! i) \<Longrightarrow> fds_ok (fd_put (int i) f s)"
  by (rule fds_ok_put) (auto simp: fds_ok_def)

lemma fds_ok_alloc: "fds_ok s \<Longrightarrow> lowest_free s = Some j \<Longrightarrow> fds_ok (fd_alloc j d s)"
  by (auto simp: fds_ok_def lowest_free_Some nth_list_update le_max_iff_disj)

lemma fds_ok_free: "fds_ok s \<Longrightarrow> 2 < j \<Longrightarrow> j < ALT_MAX_FD \<Longrightarrow> fds_ok (fd_free j s)"
  by (auto simp: fds_ok_def fd_free_def nth_list_update)

lemma fd_free_sel [simp]:
  "alt_fd_list (fd_free j s) = (alt_fd_list s)[j := (alt_fd_list s ! j)\<lparr>fd_flags := 0, fd_dev := None\<rparr>]"
  "alt_devs (fd_free j s) = alt_devs s" "alt_links (fd_free j s) = alt_links s"
  by (simp_all add: fd_free_def)

text \<open>
  What opening does to the table, success and failure alike; \<open>j\<close> is the slot it tries.
\<close>

lemma driver_open_keeps:
  "driver_ok d \<Longrightarrow> dev_open d = Some op \<Longrightarrow> op f n fl m w = (rc, g, w') \<Longrightarrow>
   fd_dev g = fd_dev f \<and> fd_flags g = fd_flags f"
  unfolding driver_ok_def keeps_def by (metis fst_conv snd_conv)

lemma open_spec_table:
  assumes ok: "fds_ok s" and dr: "driver_ok (alt_devs s dev)"
    and res: "open_spec file flags mode dev isafs s = (rc, s')"
  shows "fds_ok s'" "alt_devs s' = alt_devs s" "alt_links s' = alt_links s"
    "rc < 0 \<Longrightarrow> rc = - 1 \<and> (\<forall>i<ALT_MAX_FD. if in_use i s then alt_fd_list s' ! i = alt_fd_list s ! i
        else \<not> in_use i s')"
    "0 \<le> rc \<Longrightarrow> \<exists>j. lowest_free s = Some j \<and> rc = int j \<and> fd_dev (alt_fd_list s' ! j) = Some dev \<and>
        fd_flags (alt_fd_list s' ! j) = fd_flags (opened_fd (alt_fd_list s ! j) dev isafs flags) \<and>
        (\<forall>i<ALT_MAX_FD. i \<noteq> j \<longrightarrow> alt_fd_list s' ! i = alt_fd_list s ! i)"
proof -
  have "fds_ok s' \<and> alt_devs s' = alt_devs s \<and> alt_links s' = alt_links s \<and>
    (rc < 0 \<longrightarrow> rc = - 1 \<and> (\<forall>i<ALT_MAX_FD. if in_use i s then alt_fd_list s' ! i = alt_fd_list s ! i
        else \<not> in_use i s')) \<and>
    (0 \<le> rc \<longrightarrow> (\<exists>j. lowest_free s = Some j \<and> rc = int j \<and> fd_dev (alt_fd_list s' ! j) = Some dev \<and>
        fd_flags (alt_fd_list s' ! j) = fd_flags (opened_fd (alt_fd_list s ! j) dev isafs flags) \<and>
        (\<forall>i<ALT_MAX_FD. i \<noteq> j \<longrightarrow> alt_fd_list s' ! i = alt_fd_list s ! i)))"
  proof (cases "lowest_free s")
    case None
    with res ok show ?thesis by (auto simp: open_spec_def)
  next
    case (Some j)
    have j: "2 < j" "j < 32" "\<not> in_use j s" "length (alt_fd_list s) = 32"
      using lowest_free_gt2 [OF ok Some] Some ok by (auto simp: lowest_free_Some fds_ok_def)
    let ?f = "opened_fd (alt_fd_list s ! j) dev isafs flags"
    have put: "fds_ok (fd_put (int j) g (fd_alloc j dev s))" if "fd_dev g = Some dev" for g
      using fds_ok_alloc [OF ok Some, of dev] j that by (intro fds_ok_put_same) auto
    have free: "fds_ok ((fd_free j (fd_put (int j) g (fd_alloc j dev s)))\<lparr>alt_errno := e\<rparr>)"
      if "fd_dev g = Some dev" for g e
      using put [OF that] j by (simp add: fds_ok_free)
    have dev: "fd_dev ?f = Some dev" by (simp add: opened_fd_def)
    show ?thesis
    proof (cases "\<not> isafs \<and> locked dev s")
      case True
      with res Some j free [OF dev] show ?thesis
        by (auto simp: open_spec_def Let_def nth_list_update)
    next
      case nl: False
      show ?thesis
      proof (cases "dev_open (alt_devs s dev)")
        case None
        with res Some j nl put [OF dev] dev show ?thesis
          by (auto simp: open_spec_def Let_def)
      next
        case op: (Some op)
        obtain st g w where c: "op ?f file flags mode (world s) = (st, g, w)" by (metis prod_cases3)
        have g: "fd_dev g = Some dev" "fd_flags g = fd_flags ?f"
          using driver_open_keeps [OF dr op c] dev by simp_all
        let ?s = "fd_put (int j) g (fd_alloc j dev s)"
        have "(rc, s') = (if st < 0 then (- 1, (fd_free j (?s\<lparr>world := w\<rparr>))\<lparr>alt_errno := - st\<rparr>)
            else (int j, ?s\<lparr>world := w\<rparr>))"
          using res Some nl op c by (auto simp: open_spec_def Let_def driven_def)
        moreover have "fd_free j (?s\<lparr>world := w\<rparr>) = (fd_free j ?s)\<lparr>world := w\<rparr>"
          by (simp add: fd_free_def)
        ultimately show ?thesis
          using put [OF g(1)] free [OF g(1)] j g Some fds_ok_free [OF put [OF g(1)] j(1,2)]
          by (auto simp: nth_list_update split: if_splits)
      qed
    qed
  qed
  then show "fds_ok s'" "alt_devs s' = alt_devs s" "alt_links s' = alt_links s"
    "rc < 0 \<Longrightarrow> rc = - 1 \<and> (\<forall>i<ALT_MAX_FD. if in_use i s then alt_fd_list s' ! i = alt_fd_list s ! i
        else \<not> in_use i s')"
    "0 \<le> rc \<Longrightarrow> \<exists>j. lowest_free s = Some j \<and> rc = int j \<and> fd_dev (alt_fd_list s' ! j) = Some dev \<and>
        fd_flags (alt_fd_list s' ! j) = fd_flags (opened_fd (alt_fd_list s ! j) dev isafs flags) \<and>
        (\<forall>i<ALT_MAX_FD. i \<noteq> j \<longrightarrow> alt_fd_list s' ! i = alt_fd_list s ! i)" by blast+
qed

text \<open>Every other call leaves the registries alone and keeps the table invariant.\<close>

definition same_sys :: "'w hal \<Rightarrow> 'w hal \<Rightarrow> bool" where
  "same_sys s s' \<longleftrightarrow> fds_ok s' \<and> alt_devs s' = alt_devs s \<and> alt_links s' = alt_links s"

lemma same_sysI:
  "fds_ok s \<Longrightarrow> same_sys s s" "fds_ok s \<Longrightarrow> same_sys s (s\<lparr>alt_errno := e\<rparr>)"
  by (simp_all add: same_sys_def)

lemma same_sys_errno [simp]: "same_sys s (s'\<lparr>alt_errno := e\<rparr>) = same_sys s s'"
  by (simp add: same_sys_def)

lemma same_sys_trans: "same_sys s s' \<Longrightarrow> same_sys s' s'' \<Longrightarrow> same_sys s s''"
  by (simp add: same_sys_def)

lemma fds_ok_put_at:
  "fds_ok s \<Longrightarrow> fd_at i s = Inr f \<Longrightarrow> fd_dev g = fd_dev f \<Longrightarrow> fds_ok (fd_put i g s)"
  using fds_ok_put_same [of s "nat i" g] by (auto simp: fd_at_def fds_ok_def split: if_splits)

lemma put_sys:
  "fds_ok s \<Longrightarrow> fd_at i s = Inr f \<Longrightarrow> fd_dev g = fd_dev f \<Longrightarrow> same_sys s (fd_put i g (s\<lparr>world := w\<rparr>))"
  using fds_ok_put_at [of "s\<lparr>world := w\<rparr>" i f g] by (simp add: same_sys_def fd_at_def cong: if_cong)

lemma driven_sys:
  "fds_ok s \<Longrightarrow> fd_at i s = Inr f \<Longrightarrow> keeps f (fst (snd res)) \<Longrightarrow> same_sys s (snd (driven i res s))"
  using put_sys by (cases res) (auto simp: driven_def keeps_def)

lemma release_sys: "fds_ok s \<Longrightarrow> alt_release_fd i s = Inr s' \<Longrightarrow> same_sys s s'"
  using fds_ok_free [of s "nat i"] alt_release_fd_eq [of s "nat i"]
  by (auto simp: alt_release_fd_def fd_at_def same_sys_def fds_ok_def split: if_splits)

lemma post_fd_at: "res_post P (fd_at i s) \<longleftrightarrow> (\<forall>f. fd_at i s = Inr f \<longrightarrow> P f)"
  by (simp add: res_post_def)

lemma post_fd_device: "res_post P (fd_device i s) \<longleftrightarrow>
    (\<forall>f d. fd_at i s = Inr f \<longrightarrow> fd_dev f = Some d \<longrightarrow> P (f, alt_devs s d))"
  by (auto simp: fd_device_def post_fd_at split: option.split)

lemmas fd_post_simps = post_fd_at post_fd_device Let_def case_prod_unfold

abbreviation (input) keeps_sys :: "'w hal \<Rightarrow> ('a \<Rightarrow> 'w hal) \<Rightarrow> 'a c_res \<Rightarrow> bool" where
  "keeps_sys s proj r \<equiv> res_post (\<lambda>x. same_sys s (proj x)) r"

lemma drivers_okD: "drivers_ok s \<Longrightarrow> driver_ok (alt_devs s d)"
  by (simp add: drivers_ok_def)

lemma driver_keeps:
  assumes "driver_ok d"
  shows "dev_close d = Some cl \<Longrightarrow> keeps f (fst (snd (cl f w)))"
    "dev_write d = Some wr \<Longrightarrow> keeps f (fst (snd (wr f p l w)))"
    "dev_lseek d = Some sk \<Longrightarrow> keeps f (fst (snd (sk f i l w)))"
    "dev_read d = Some rd \<Longrightarrow> \<forall>f l w. fd_dev (fst (snd (snd (rd f l w)))) = fd_dev f"
    "dev_fstat d = Some st \<Longrightarrow> \<forall>f w. fd_dev (fst (snd (snd (st f w)))) = fd_dev f"
    "dev_ioctl d = Some io \<Longrightarrow> \<forall>f r a w. fd_dev (fst (snd (snd (io f r a w)))) = fd_dev f"
  using assms unfolding driver_ok_def keeps_def by simp_all

lemmas driver_keeps_dev = driver_keeps(4-6) [OF drivers_okD]

lemma release_keeps: "same_sys s t \<Longrightarrow> res_post (same_sys s) (alt_release_fd i t)"
  using release_sys [of t i] same_sys_trans by (fastforce simp: res_post_def same_sys_def)

lemma close_sys: "fds_ok s \<Longrightarrow> drivers_ok s \<Longrightarrow> keeps_sys s snd (alt_close i s)"
  by (auto simp: alt_close_def fd_post_simps same_sysI split: option.split
      intro!: release_keeps [THEN res_post_mono] intro: driven_sys driver_keeps(1) [OF drivers_okD])

lemma read_sys: "fds_ok s \<Longrightarrow> drivers_ok s \<Longrightarrow> keeps_sys s (snd \<circ> snd) (alt_read i len s)"
  by (auto simp: alt_read_def fd_post_simps same_sysI split: option.split
      intro!: put_sys dest: driver_keeps_dev)

lemma write_sys: "fds_ok s \<Longrightarrow> drivers_ok s \<Longrightarrow> keeps_sys s snd (alt_write i p len s)"
  by (auto simp: alt_write_def fd_post_simps same_sysI split: option.split
      intro: driven_sys driver_keeps(2) [OF drivers_okD])

lemma lseek_sys: "fds_ok s \<Longrightarrow> drivers_ok s \<Longrightarrow> keeps_sys s snd (alt_lseek i p d s)"
  by (auto simp: alt_lseek_def fd_post_simps same_sysI split: option.split
      intro: driven_sys driver_keeps(3) [OF drivers_okD])

lemma fstat_sys: "fds_ok s \<Longrightarrow> drivers_ok s \<Longrightarrow> keeps_sys s (snd \<circ> snd) (alt_fstat i s)"
  by (auto simp: alt_fstat_def fd_post_simps same_sysI split: option.split
      intro!: put_sys dest: driver_keeps_dev)

lemma put_same_sys: "fds_ok s \<Longrightarrow> fd_at i s = Inr f \<Longrightarrow> fd_dev g = fd_dev f \<Longrightarrow> same_sys s (fd_put i g s)"
  using fds_ok_put_at by (auto simp: same_sys_def)

lemma fcntl_sys: "fds_ok s \<Longrightarrow> keeps_sys s snd (alt_fcntl i c fl s)"
  by (auto simp: alt_fcntl_def fd_post_simps same_sysI intro: put_same_sys)

lemma lock_sys: "fds_ok s \<Longrightarrow> keeps_sys s snd (alt_fd_lock i s)"
  by (auto simp: alt_fd_lock_def fd_post_simps same_sysI intro!: res_post_all put_same_sys)

lemma unlock_sys: "fds_ok s \<Longrightarrow> keeps_sys s snd (alt_fd_unlock i s)"
  by (auto simp: alt_fd_unlock_def fd_post_simps intro: put_same_sys)

lemma ioctl_sys: "fds_ok s \<Longrightarrow> drivers_ok s \<Longrightarrow> keeps_sys s (snd \<circ> snd) (alt_ioctl i r a s)"
  by (auto simp: alt_ioctl_def fd_post_simps same_sysI split: option.split
      intro!: put_sys lock_sys [THEN res_post_mono] unlock_sys [THEN res_post_mono] dest: driver_keeps_dev)

lemma isatty_sys: "fds_ok s \<Longrightarrow> drivers_ok s \<Longrightarrow> keeps_sys s snd (alt_isatty u i s)"
  by (auto simp: alt_isatty_def fd_post_simps same_sysI intro!: fstat_sys [THEN res_post_mono])

lemma open_sys:
  assumes "fds_ok s" "drivers_ok s" "registered_as s ds fs" "c_string n"
  shows "keeps_sys s snd (alt_open n fl m s)"
proof -
  have "same_sys s s'" if "alt_open n fl m s = Inr (rc, s')" for rc s'
  proof -
    from assms that obtain d isafs where "lookup s ds fs n = Inr (d, isafs)"
      and c: "(case d of None \<Rightarrow> (- 1, s\<lparr>alt_errno := ENODEV\<rparr>)
        | Some dev \<Rightarrow> open_spec n fl m dev isafs s) = (rc, s')"
      by (auto simp: alt_open_eq res_bind_eq_Inr split: option.splits)
    then show ?thesis
      using open_spec_table(1-3) [OF assms(1) drivers_okD [OF assms(2)]] assms(1)
      by (cases d) (auto simp: same_sys_def)
  qed
  then show ?thesis by (auto simp: res_post_def)
qed

lemmas call_sys = open_sys close_sys read_sys write_sys lseek_sys fstat_sys fcntl_sys ioctl_sys isatty_sys

section \<open>Properties\<close>

text \<open>A small system for the witnesses: one device \<open>/dev/a\<close> without driver functions.\<close>

definition demo_dev :: "unit alt_dev" where
  "demo_dev = \<lparr>dev_name = Some ''/dev/a'', dev_open = None, dev_close = None, dev_read = None,
     dev_write = None, dev_lseek = None, dev_fstat = None, dev_ioctl = None\<rparr>"

definition demo_hal :: "unit hal" where
  "demo_hal = snd (alt_dev_reg (Some 3) (hal_init (\<lambda>_. demo_dev) ()))"

lemma demo_registered: "registered_as demo_hal [3, alt_dev_null] []"
  and demo_devs: "alt_devs demo_hal = (\<lambda>_. demo_dev)(alt_dev_null := alt_dev_null_dev)"
  and demo_table: "alt_fd_list demo_hal = alt_fd_list_init" "alt_max_fd demo_hal = - 1"
proof -
  have "\<exists>s'. alt_dev_reg (Some 3) (hal_init (\<lambda>_. demo_dev) ()) = (0, s') \<and>
    registered_as s' [3, alt_dev_null] [] \<and> alt_devs s' = alt_devs (hal_init (\<lambda>_. demo_dev) ()) \<and>
    alt_fd_list s' = alt_fd_list (hal_init (\<lambda>_. demo_dev) ())"
    by (rule alt_dev_reg_ok [OF hal_init_registered, of _ _ _ "''/dev/a''"])
      (simp_all add: hal_init_def demo_dev_def c_string_def)
  then show "registered_as demo_hal [3, alt_dev_null] []"
    "alt_devs demo_hal = (\<lambda>_. demo_dev)(alt_dev_null := alt_dev_null_dev)"
    "alt_fd_list demo_hal = alt_fd_list_init"
    by (auto simp: demo_hal_def hal_init_def)
  show "alt_max_fd demo_hal = - 1"
    by (simp add: demo_hal_def alt_dev_reg_def alt_dev_llist_insert_def hal_init_def demo_dev_def)
qed

lemma demo_ok: "fds_ok demo_hal" "drivers_ok demo_hal"
  using hal_init_fds [of "\<lambda>_. demo_dev" "()"]
  by (simp_all add: fds_ok_def demo_table hal_init_def drivers_ok_def demo_devs demo_dev_def
      alt_dev_null_dev_def driver_ok_def keeps_def alt_dev_null_write_def)

lemma demo_lookup: "lookup demo_hal [3, alt_dev_null] [] ''/dev/a'' = Inr (Some 3, False)"
  by (simp add: lookup_def demo_devs demo_dev_def)

lemma demo_lowest: "lowest_free demo_hal = Some 3"
  by (auto simp: lowest_free_Some demo_table alt_fd_list_init_def less_Suc_eq numeral_nat)

lemma demo_unlocked: "\<not> locked d demo_hal"
proof -
  have "\<forall>f\<in>set alt_fd_list_init. fd_flags f = 0" "length alt_fd_list_init = 32"
    by (simp_all add: alt_fd_list_init_def)
  then have "i < 32 \<Longrightarrow> fd_flags (alt_fd_list_init ! i) = 0" for i by (metis nth_mem)
  then show ?thesis by (auto simp: locked_def demo_table)
qed

text \<open>What the driver's \<open>open\<close> answers; a device without one accepts.\<close>

definition driver_open :: "'w alt_dev \<Rightarrow> alt_fd \<Rightarrow> string \<Rightarrow> alt_u32 \<Rightarrow> int \<Rightarrow> 'w \<Rightarrow> int \<times> alt_fd \<times> 'w" where
  "driver_open dv f file flags mode w =
     (case dev_open dv of None \<Rightarrow> (0, f, w) | Some op \<Rightarrow> op f file flags mode w)"

lemma fd_put_world: "(fd_put i f s)\<lparr>world := world s\<rparr> = fd_put i f s"
  by (simp add: fd_put_def)

lemma open_spec_outcome:
  assumes ok: "fds_ok s" and dr: "driver_ok (alt_devs s dev)"
    and res: "open_spec file flags mode dev isafs s = (rc, s')"
  shows "(case lowest_free s of
      None \<Rightarrow> rc = - 1 \<and> alt_errno s' = EMFILE \<and> world s' = world s
    | Some j \<Rightarrow>
        if \<not> isafs \<and> locked dev s then rc = - 1 \<and> alt_errno s' = EACCES \<and> world s' = world s
        else (let f = opened_fd (alt_fd_list s ! j) dev isafs flags;
                  (status, g, w) = driver_open (alt_devs s dev) f file flags mode (world s)
              in world s' = w \<and>
                 (if status < 0 then rc = - 1 \<and> alt_errno s' = - status
                  else rc = int j \<and> alt_errno s' = alt_errno s \<and> alt_fd_list s' ! j = g \<and> keeps f g)))"
proof (cases "lowest_free s")
  case (Some j)
  then have j: "j < length (alt_fd_list s)" using ok by (simp add: lowest_free_Some fds_ok_def)
  show ?thesis
  proof (cases "dev_open (alt_devs s dev)")
    case None
    with res Some j show ?thesis
      by (auto simp: open_spec_def driver_open_def Let_def keeps_def fd_free_def)
  next
    case op: (Some op)
    obtain st g w where c: "op (opened_fd (alt_fd_list s ! j) dev isafs flags) file flags mode (world s) = (st, g, w)"
      by (metis prod_cases3)
    with res Some j op driver_open_keeps [OF dr op c] show ?thesis
      by (auto simp: open_spec_def driver_open_def driven_def Let_def keeps_def fd_free_def)
  qed
qed (use res in \<open>auto simp: open_spec_def\<close>)

text \<open>
  C16. Opening a file. With a sound table, proper registries and well-behaved drivers
  \<open>open\<close> always comes back and keeps the table sound, and its outcome is decided in this
  order. No device or file system for the name: \<open>ENODEV\<close>. No free descriptor: \<open>EMFILE\<close>. A
  device (not a file system) that some descriptor has locked with the exclusive flag:
  \<open>EACCES\<close>, without asking the driver; descriptors that merely share the device do not stand
  in the way. Then the driver's \<open>open\<close> is called once on the lowest free descriptor, bound to the
  device with the caller's flags less the two internal ones; if it answers a negative number
  \<open>open\<close> fails with that error, and otherwise it returns that descriptor as the driver left
  it. Every failure returns -1, leaves each descriptor that was in use as it was and each
  free one free; a success touches no other descriptor and not the error number.
\<close>

theorem open_table:
  assumes "fds_ok s" "drivers_ok s" "registered_as s ds fs" "c_string file"
    and look: "lookup s ds fs file = Inr (d, isafs)"
  shows "\<exists>rc s'. alt_open file flags mode s = Inr (rc, s') \<and> fds_ok s' \<and>
    (if rc < 0
     then rc = - 1 \<and> (\<forall>i<ALT_MAX_FD. if in_use i s then alt_fd_list s' ! i = alt_fd_list s ! i
            else \<not> in_use i s')
     else \<exists>j dev. d = Some dev \<and> lowest_free s = Some j \<and> rc = int j \<and>
            fd_dev (alt_fd_list s' ! j) = Some dev \<and>
            fd_flags (alt_fd_list s' ! j) = fd_flags (opened_fd (alt_fd_list s ! j) dev isafs flags) \<and>
            (\<forall>i<ALT_MAX_FD. i \<noteq> j \<longrightarrow> alt_fd_list s' ! i = alt_fd_list s ! i)) \<and>
    (case d of
       None \<Rightarrow> rc = - 1 \<and> alt_errno s' = ENODEV \<and> world s' = world s
     | Some dev \<Rightarrow>
         (case lowest_free s of
            None \<Rightarrow> rc = - 1 \<and> alt_errno s' = EMFILE \<and> world s' = world s
          | Some j \<Rightarrow>
              if \<not> isafs \<and> (\<exists>i<ALT_MAX_FD. fd_dev (alt_fd_list s ! i) = Some dev \<and>
                   fd_flags (alt_fd_list s ! i) AND ALT_FD_EXCL \<noteq> 0)
              then rc = - 1 \<and> alt_errno s' = EACCES \<and> world s' = world s
              else (let f = opened_fd (alt_fd_list s ! j) dev isafs flags;
                        (status, g, w) = driver_open (alt_devs s dev) f file flags mode (world s)
                    in world s' = w \<and>
                       (if status < 0 then rc = - 1 \<and> alt_errno s' = - status
                        else rc = int j \<and> alt_errno s' = alt_errno s \<and> alt_fd_list s' ! j = g \<and> keeps f g))))"
proof (cases d)
  case None
  then show ?thesis using assms by (auto simp: alt_open_eq)
next
  case (Some dev)
  obtain rc s' where o: "open_spec file flags mode dev isafs s = (rc, s')" by (cases "open_spec file flags mode dev isafs s")
  note t = open_spec_table [OF assms(1) drivers_okD [OF assms(2)] o]
  note c = open_spec_outcome [OF assms(1) drivers_okD [OF assms(2)] o, unfolded locked_def]
  have "alt_open file flags mode s = Inr (rc, s')" using assms Some o by (simp add: alt_open_eq)
  then show ?thesis
    using t Some c by (intro exI [of _ rc] exI [of _ s']) (cases "rc < 0"; auto)
qed

definition closed :: "int \<Rightarrow> alt_fd \<Rightarrow> 'w alt_dev \<Rightarrow> 'w hal \<Rightarrow> int \<times> 'w hal" where
  "closed i f dv s = (case dev_close dv of None \<Rightarrow> (0, s) | Some cl \<Rightarrow> driven i (cl f (world s)) s)"

lemma alt_close_eq:
  "0 \<le> i \<Longrightarrow> fd_at i s = Inr f \<Longrightarrow> fd_dev f = Some d \<Longrightarrow>
   alt_close i s = (let r = closed i f (alt_devs s d) s
     in res_bind (alt_release_fd i (snd r)) (\<lambda>t.
          Inr (if fst r < 0 then (- 1, t\<lparr>alt_errno := - fst r\<rparr>) else (0, t))))"
  by (cases "dev_close (alt_devs s d)")
    (simp_all add: alt_close_def fd_device_def case_prod_unfold Let_def closed_def if_distrib cong: if_cong)

lemma closed_table:
  "length (alt_fd_list (snd (closed (int j) f dv s))) = length (alt_fd_list s)"
  "i \<noteq> j \<Longrightarrow> alt_fd_list (snd (closed (int j) f dv s)) ! i = alt_fd_list s ! i"
  by (simp_all add: closed_def driven_def split: option.split prod.split)

text \<open>
  C18. Open and close. Closing the descriptor a successful \<open>open\<close> returned always comes
  back, frees it whatever the driver's \<open>close\<close> answers (which decides only between 0 and -1),
  leaves every other descriptor as it was before the \<open>open\<close>, and makes it the one the next
  \<open>open\<close> gets again.
\<close>

theorem open_close_roundtrip:
  assumes "fds_ok s" "drivers_ok s" "registered_as s ds fs" "c_string file"
    and opened: "alt_open file flags mode s = Inr (rc, s')" "0 \<le> rc"
  shows "\<exists>rv s''. alt_close rc s' = Inr (rv, s'') \<and> rv \<in> {0, - 1} \<and> fds_ok s'' \<and>
    \<not> in_use (nat rc) s'' \<and> (\<forall>i<ALT_MAX_FD. i \<noteq> nat rc \<longrightarrow> alt_fd_list s'' ! i = alt_fd_list s ! i) \<and>
    lowest_free s'' = Some (nat rc)"
proof -
  from opened assms obtain dev isafs where o: "open_spec file flags mode dev isafs s = (rc, s')"
    by (auto simp: alt_open_eq res_bind_eq_Inr split: option.splits)
  note t = open_spec_table [OF assms(1) drivers_okD [OF assms(2)] o]
  from t(5) [OF opened(2)] obtain j where j: "lowest_free s = Some j" "rc = int j"
    "fd_dev (alt_fd_list s' ! j) = Some dev" "\<forall>i<32. i \<noteq> j \<longrightarrow> alt_fd_list s' ! i = alt_fd_list s ! i"
    by blast
  then have l: "2 < j" "j < 32" "length (alt_fd_list s') = 32"
    using lowest_free_gt2 [OF assms(1)] t(1) by (auto simp: lowest_free_Some fds_ok_def)
  let ?f = "alt_fd_list s' ! j"
  define r where "r = closed (int j) ?f (alt_devs s' dev) s'"
  have r: "length (alt_fd_list (snd r)) = 32"
    "\<forall>i<32. i \<noteq> j \<longrightarrow> alt_fd_list (snd r) ! i = alt_fd_list s' ! i"
    using l by (simp_all add: r_def closed_table)
  have "fd_at (int j) s' = Inr ?f" using l by (simp add: fd_at_def)
  then have cl: "alt_close rc s' = Inr (if fst r < 0 then (- 1, (fd_free j (snd r))\<lparr>alt_errno := - fst r\<rparr>)
      else (0, fd_free j (snd r)))"
    using j l r alt_release_fd_eq [of "snd r" j]
    by (simp add: alt_close_eq r_def [symmetric] Let_def)
  moreover have "lowest_free (fd_free j (snd r)) = Some j"
    using j r l by (auto simp: lowest_free_Some nth_list_update)
  moreover have "fds_ok (fd_free j (snd r))"
    using close_sys [OF t(1), of rc] t(2) assms(2) cl
    by (simp add: drivers_ok_def same_sys_def split: if_splits)
  ultimately show ?thesis using cl j r l by (auto simp: lowest_free_def nth_list_update)
qed

theorem open_close_roundtrip_witness:
  "\<exists>s' s''. alt_open ''/dev/a'' 2 0 demo_hal = Inr (3, s') \<and> alt_close 3 s' = Inr (0, s'')"
proof -
  obtain s' where s': "alt_open ''/dev/a'' 2 0 demo_hal = Inr (3, s')" "dev_close (alt_devs s' 3) = None"
      "fd_dev (alt_fd_list s' ! 3) = Some 3"
    using alt_open_eq [OF demo_ok(1) demo_registered, of "''/dev/a''"]
    by (auto simp: demo_lookup c_string_def open_spec_def demo_lowest demo_devs demo_dev_def Let_def
        demo_unlocked demo_table alt_fd_list_init_def opened_fd_def)
  from open_close_roundtrip [OF demo_ok demo_registered _ s'(1)] obtain rv s'' where
    "alt_close 3 s' = Inr (rv, s'')" by (auto simp: c_string_def)
  moreover from this have "rv = 0" using s'(2,3)
    by (auto simp: alt_close_def res_bind_eq_Inr fd_device_def fd_at_def split: if_splits)
  ultimately show ?thesis using s' by blast
qed

lemma lookup_put [simp]: "lookup (fd_put i f s) ds fs n = lookup s ds fs n"
  unfolding lookup_def fd_put_sel ..

text \<open>
  C20. Exclusive access. On a descriptor of a device (not of a file system) \<open>TIOCEXCL\<close> is
  refused with \<open>EACCES\<close> exactly when another descriptor below \<open>alt_max_fd\<close> has the device;
  otherwise the descriptor becomes exclusive and every later \<open>open\<close> of the device, by its
  registered name, fails with \<open>EACCES\<close>. The highest descriptor itself is not looked at:
  when only it shares the device, the lock is granted although the device is open twice.
\<close>

theorem exclusive_lock:
  assumes ok: "fds_ok s" "drivers_ok s" and i: "i < ALT_MAX_FD" "fd_dev (alt_fd_list s ! i) = Some dev"
    and isdev: "fd_flags (alt_fd_list s ! i) AND ALT_FD_DEV \<noteq> 0"
  shows "if \<exists>j. int j < alt_max_fd s \<and> j \<noteq> i \<and> fd_dev (alt_fd_list s ! j) = Some dev
    then alt_ioctl (int i) TIOCEXCL arg s = Inr (- EACCES, arg, s\<lparr>alt_errno := EACCES\<rparr>)
    else \<exists>s'. alt_ioctl (int i) TIOCEXCL arg s = Inr (0, arg, s') \<and> locked dev s' \<and>
      map fd_dev (alt_fd_list s') = map fd_dev (alt_fd_list s) \<and>
      (\<forall>ds fs file flags mode. registered_as s ds fs \<longrightarrow> c_string file \<longrightarrow>
         lookup s ds fs file = Inr (Some dev, False) \<longrightarrow> lowest_free s \<noteq> None \<longrightarrow>
         (\<exists>s''. alt_open file flags mode s' = Inr (- 1, s'') \<and> alt_errno s'' = EACCES))"
proof -
  let ?f = "alt_fd_list s ! i"
  let ?s = "fd_put (int i) (?f\<lparr>fd_flags := fd_flags ?f OR ALT_FD_EXCL\<rparr>) s"
  have l: "length (alt_fd_list s) = 32" "alt_max_fd s < int 32" using ok by (auto simp: fds_ok_def)
  have at: "fd_at (int i) s = Inr ?f" using l i by (simp add: fd_at_def)
  let ?busy = "\<exists>j. int j < alt_max_fd s \<and> j \<noteq> i \<and> fd_dev (alt_fd_list s ! j) = Some dev"
  have "fd_lock_loop (int i) ?f (int 0) s = Inr ?busy"
    unfolding fd_lock_loop_spec [OF l] using i l by auto
  then have io: "alt_ioctl (int i) TIOCEXCL arg s =
      (if ?busy then Inr (- EACCES, arg, s\<lparr>alt_errno := EACCES\<rparr>) else Inr (0, arg, ?s))"
    using at isdev by (simp add: alt_ioctl_def alt_fd_lock_def)
  have lk: "locked dev ?s" unfolding locked_def using i l
    by (intro exI [of _ i]) simp
  have ok': "fds_ok ?s" by (rule fds_ok_put_at [OF ok(1) at]) simp
  have devs: "map fd_dev (alt_fd_list ?s) = map fd_dev (alt_fd_list s)"
    using l i by (intro nth_equalityI) (auto simp: nth_list_update)
  have "\<exists>s''. alt_open file flags mode ?s = Inr (- 1, s'') \<and> alt_errno s'' = EACCES"
    if r: "registered_as s ds fs" "c_string file" "lookup s ds fs file = Inr (Some dev, False)"
      "lowest_free s \<noteq> None" for ds fs "file" flags mode
  proof -
    have "registered_as ?s ds fs" "lookup ?s ds fs file = Inr (Some dev, False)"
      using r by (simp_all add: registered_as_def)
    moreover have "lowest_free ?s \<noteq> None"
      using r(4) i l by (auto simp: lowest_free_None nth_list_update)
    ultimately show ?thesis
      using alt_open_eq [OF ok', of ds fs "file"] r(2) lk by (auto simp: open_spec_def Let_def)
  qed
  then show ?thesis using io lk devs by simp
qed

definition demo_two :: "unit hal" where
  "demo_two = (let f = \<lparr>fd_dev = Some 3, fd_priv = 0, fd_flags = 0x40000002\<rparr>
     in demo_hal\<lparr>alt_fd_list := alt_fd_list_init[3 := f, 4 := f], alt_max_fd := 4\<rparr>)"

lemma demo_two_ok: "fds_ok demo_two" "drivers_ok demo_two"
proof -
  have "i < 32 \<Longrightarrow> 4 < i \<Longrightarrow> alt_fd_list_init ! i = free_fd" for i
    by (auto simp: alt_fd_list_init_def nth_append nth_Cons')
  then show "fds_ok demo_two"
    using demo_ok(1) by (auto simp: fds_ok_def demo_two_def Let_def demo_table nth_list_update)
  show "drivers_ok demo_two" using demo_ok(2) by (simp add: drivers_ok_def demo_two_def Let_def)
qed

lemma demo_two_lowest: "lowest_free demo_two = Some 5"
proof -
  have "length alt_fd_list_init = 32" "alt_fd_list_init ! 5 = free_fd" "\<forall>i<3. alt_fd_list_init ! i = null_fd"
    by (auto simp: alt_fd_list_init_def nth_append less_Suc_eq numeral_nat)
  moreover have "i < 5 \<longleftrightarrow> i < 3 \<or> i = 3 \<or> i = 4" for i :: nat by auto
  ultimately show ?thesis by (simp add: lowest_free_Some demo_two_def Let_def nth_list_update)
qed

lemma demo_two_unlocked: "\<not> (\<exists>i<32. fd_dev (alt_fd_list demo_two ! i) = Some d \<and>
    fd_flags (alt_fd_list demo_two ! i) AND ALT_FD_EXCL \<noteq> 0)"
proof -
  have "\<forall>f\<in>set (alt_fd_list demo_two). fd_flags f AND ALT_FD_EXCL = 0" "length (alt_fd_list demo_two) = 32"
    by (auto simp: demo_two_def Let_def alt_fd_list_init_def dest!: set_update_subset_insert [THEN subsetD])
  then show ?thesis by (metis nth_mem)
qed

lemma demo_two_registered: "registered_as demo_two [3, alt_dev_null] []"
  using demo_registered by (simp add: registered_as_def demo_two_def Let_def)

theorem open_table_witness:
  "\<exists>s'. alt_open ''/dev/a'' 2 0 demo_two = Inr (5, s') \<and> fd_dev (alt_fd_list s' ! 5) = Some 3 \<and>
     fd_flags (alt_fd_list s' ! 5) = 0x40000002 \<and> alt_errno s' = alt_errno demo_two"
proof -
  have "lookup demo_two [3, alt_dev_null] [] ''/dev/a'' = Inr (Some 3, False)"
    by (simp add: lookup_def demo_two_def Let_def demo_devs demo_dev_def)
  moreover have "dev_open (alt_devs demo_two 3) = None"
    by (simp add: demo_two_def Let_def demo_devs demo_dev_def)
  ultimately show ?thesis
    using open_table [OF demo_two_ok demo_two_registered, of "''/dev/a''" "Some 3" False 2 0] demo_two_unlocked [of 3]
    by (auto simp: c_string_def demo_two_lowest driver_open_def opened_fd_def Let_def)
qed

theorem exclusive_lock_witness:
  "\<exists>s'. alt_ioctl 3 TIOCEXCL 0 demo_two = Inr (0, 0, s') \<and> locked 3 s' \<and>
     fd_dev (alt_fd_list s' ! 4) = Some 3"
proof -
  have l: "length alt_fd_list_init = 32" by (simp add: alt_fd_list_init_def)
  have std: "i < 3 \<Longrightarrow> alt_fd_list_init ! i = null_fd" for i
    by (auto simp: alt_fd_list_init_def less_Suc_eq numeral_nat)
  have "\<not> (\<exists>j. int j < alt_max_fd demo_two \<and> j \<noteq> 3 \<and> fd_dev (alt_fd_list demo_two ! j) = Some 3)"
    using std l by (auto simp: demo_two_def Let_def nth_list_update)
  moreover have "fd_dev (alt_fd_list demo_two ! 3) = Some 3"
      "fd_flags (alt_fd_list demo_two ! 3) AND ALT_FD_DEV \<noteq> 0" "map fd_dev (alt_fd_list demo_two) ! 4 = Some 3"
    using l by (simp_all add: demo_two_def Let_def)
  moreover have "length (alt_fd_list demo_two) = 32" using l by (simp add: demo_two_def Let_def)
  ultimately obtain s' where s': "alt_ioctl 3 TIOCEXCL 0 demo_two = Inr (0, 0, s')" "locked 3 s'"
      and m: "map fd_dev (alt_fd_list s') = map fd_dev (alt_fd_list demo_two)"
    using exclusive_lock [OF demo_two_ok, of 3 3 0] by (auto split: if_splits)
  have "length (alt_fd_list s') = 32" using map_eq_imp_length_eq [OF m] \<open>length (alt_fd_list demo_two) = 32\<close> by simp
  then have "fd_dev (alt_fd_list s' ! 4) = map fd_dev (alt_fd_list demo_two) ! 4" by (simp flip: m)
  then show ?thesis using s' l by (auto simp: demo_two_def Let_def)
qed

lemma redirect_one:
  assumes ok: "fds_ok s" "registered_as s ds fs" "c_string name" "lookup s ds fs name = Inr (Some dev, False)"
    and op: "dev_open (alt_devs s dev) = None" and nl: "\<not> locked dev s" and j: "lowest_free s = Some j"
    and fd: "fd \<le> 2" and fl: "flags AND ALT_FD_FLAGS_MASK = 0"
  shows "\<exists>s'. alt_open_fd (int fd) name flags mode s = Inr s' \<and> fds_ok s' \<and> alt_devs s' = alt_devs s \<and>
    alt_links s' = alt_links s \<and> world s' = world s \<and> (\<forall>d. locked d s' \<longrightarrow> locked d s) \<and> lowest_free s' = Some j \<and>
    fd_dev (alt_fd_list s' ! fd) = Some dev \<and> fd_flags (alt_fd_list s' ! fd) = flags OR ALT_FD_DEV \<and>
    (\<forall>i<ALT_MAX_FD. i \<noteq> fd \<longrightarrow> i \<noteq> j \<longrightarrow> alt_fd_list s' ! i = alt_fd_list s ! i)"
proof -
  have l: "2 < j" "j < 32" "length (alt_fd_list s) = 32" "fd_dev (alt_fd_list s ! j) = None" "fd < 32" "fd \<noteq> j"
    using lowest_free_gt2 [OF ok(1) j] j ok(1) fd by (auto simp: lowest_free_Some fds_ok_def)
  have and0: "flags AND NOT ALT_FD_FLAGS_MASK = flags"
  proof -
    have "flags = flags AND (ALT_FD_FLAGS_MASK OR NOT ALT_FD_FLAGS_MASK)" by simp
    also have "\<dots> = flags AND NOT ALT_FD_FLAGS_MASK"
      using fl by (simp only: bit.conj_disj_distrib) simp
    finally show ?thesis ..
  qed
  let ?f = "opened_fd (alt_fd_list s ! j) dev False flags"
  have f: "fd_dev ?f = Some dev" "fd_flags ?f = flags OR ALT_FD_DEV"
    using and0 by (simp_all add: opened_fd_def Let_def)
  let ?s1 = "fd_put (int j) ?f (fd_alloc j dev s)"
  have o: "alt_open name flags mode s = Inr (int j, ?s1)"
    using alt_open_eq [OF ok(1-3)] ok(4) j op nl by (simp add: open_spec_def Let_def)
  define g where "g = (alt_fd_list s ! fd)\<lparr>fd_dev := fd_dev ?f, fd_priv := fd_priv ?f, fd_flags := fd_flags ?f\<rparr>"
  let ?s2 = "fd_free j (fd_put (int fd) g ?s1)"
  have "alt_open_fd (int fd) name flags mode s = alt_release_fd (int j) (fd_put (int fd) g ?s1)"
    using l by (simp add: alt_open_fd_def o fd_at_def g_def)
  also have "\<dots> = Inr ?s2" using l by (intro alt_release_fd_eq) simp_all
  finally have eq: "alt_open_fd (int fd) name flags mode s = Inr ?s2" .
  have "fds_ok ?s1" using l f by (intro fds_ok_put_same fds_ok_alloc [OF ok(1) j]) simp_all
  then have "fds_ok (fd_put (int fd) g ?s1)"
    using f l fd by (rule_tac fds_ok_put) (simp_all add: g_def)
  then have ok2: "fds_ok ?s2" using l by (intro fds_ok_free)
  have tab: "alt_fd_list ?s2 ! i = (if i = j then (alt_fd_list ?s2 ! j) else if i = fd then g else alt_fd_list s ! i)"
    "fd_dev (alt_fd_list ?s2 ! j) = None" if "i < 32" for i
    using l that by (auto simp: nth_list_update)
  have "(flags OR ALT_FD_DEV) AND ALT_FD_EXCL = 0"
  proof -
    have "flags AND ALT_FD_EXCL = (flags AND ALT_FD_FLAGS_MASK) AND ALT_FD_EXCL" by (simp add: and.assoc)
    also have "\<dots> = 0" by (simp only: fl) simp
    finally have "flags AND ALT_FD_EXCL = 0" .
    then show ?thesis by (simp add: bit.conj_disj_distrib2)
  qed
  then have noexcl: "fd_flags g AND ALT_FD_EXCL = 0" using f by (simp add: g_def)
  have "\<forall>d. locked d ?s2 \<longrightarrow> locked d s"
  proof (intro allI impI)
    fix d assume "locked d ?s2"
    then obtain i where i: "i < 32" "fd_dev (alt_fd_list ?s2 ! i) = Some d"
      "fd_flags (alt_fd_list ?s2 ! i) AND ALT_FD_EXCL \<noteq> 0" unfolding locked_def by blast
    with tab [of i] noexcl have "alt_fd_list ?s2 ! i = alt_fd_list s ! i"
      by (cases "i = j"; cases "i = fd") auto
    with i show "locked d s" unfolding locked_def by auto
  qed
  moreover have "lowest_free ?s2 = Some j"
    unfolding lowest_free_Some
  proof (intro conjI allI impI)
    fix i assume i: "i < j"
    with j have "in_use i s" by (simp add: lowest_free_Some)
    then show "in_use i ?s2" using i l tab(1) [of i] f by (cases "i = fd") (simp_all add: g_def)
  qed (use l tab(2) [of j] in simp_all)
  moreover have "fd_dev (alt_fd_list ?s2 ! fd) = Some dev" "fd_flags (alt_fd_list ?s2 ! fd) = flags OR ALT_FD_DEV"
    using l f by (simp_all add: g_def)
  moreover have "world ?s2 = world s" by (simp add: fd_free_def fd_put_def fd_alloc_def)
  ultimately show ?thesis using eq ok2 tab(1) by (intro exI [of _ ?s2]) simp
qed

text \<open>
  Redirecting the standard streams to a registered device that nobody has locked and
  whose driver has no \<open>open\<close> function: the three standard descriptors end up on it with
  their access modes and the device mark, the descriptor used on the way is free again, and
  every other descriptor and the registries are as before.
\<close>

lemma io_redirect_spec:
  assumes ok: "fds_ok s" "registered_as s ds fs" "lowest_free s = Some j"
    and out: "c_string out" "lookup s ds fs out = Inr (Some d1, False)" "dev_open (alt_devs s d1) = None" "\<not> locked d1 s"
    and inp: "c_string inp" "lookup s ds fs inp = Inr (Some d0, False)" "dev_open (alt_devs s d0) = None" "\<not> locked d0 s"
    and err: "c_string err" "lookup s ds fs err = Inr (Some d2, False)" "dev_open (alt_devs s d2) = None" "\<not> locked d2 s"
  shows "\<exists>s'. alt_io_redirect out inp err s = Inr s' \<and> fds_ok s' \<and>
    map fd_dev (take 3 (alt_fd_list s')) = [Some d0, Some d1, Some d2] \<and>
    map fd_flags (take 3 (alt_fd_list s')) = [ALT_FD_DEV, O_WRONLY OR ALT_FD_DEV, O_WRONLY OR ALT_FD_DEV] \<and>
    lowest_free s' = Some j \<and> alt_devs s' = alt_devs s \<and> alt_links s' = alt_links s \<and>
    world s' = world s \<and> (\<forall>i<ALT_MAX_FD. 2 < i \<longrightarrow> i \<noteq> j \<longrightarrow> alt_fd_list s' ! i = alt_fd_list s ! i)"
proof -
  have look: "lookup t ds fs n = lookup s ds fs n" "registered_as t ds fs"
    if "alt_devs t = alt_devs s" "alt_links t = alt_links s" for t n
    using ok(2) unfolding lookup_def registered_as_def that by blast+
  obtain s1 where s1: "alt_open_fd (int 1) out O_WRONLY 0x1FF s = Inr s1" "fds_ok s1" "alt_devs s1 = alt_devs s"
    "alt_links s1 = alt_links s" "world s1 = world s" "\<forall>d. locked d s1 \<longrightarrow> locked d s" "lowest_free s1 = Some j"
    "fd_dev (alt_fd_list s1 ! 1) = Some d1" "fd_flags (alt_fd_list s1 ! 1) = O_WRONLY OR ALT_FD_DEV"
    "\<forall>i<32. i \<noteq> 1 \<longrightarrow> i \<noteq> j \<longrightarrow> alt_fd_list s1 ! i = alt_fd_list s ! i"
    using redirect_one [OF ok(1,2) out ok(3), of 1 O_WRONLY "0x1FF"] by auto
  have p0: "registered_as s1 ds fs" "lookup s1 ds fs inp = Inr (Some d0, False)"
    "dev_open (alt_devs s1 d0) = None" "\<not> locked d0 s1"
    using inp s1(3,6) look(2) [OF s1(3,4)] by (simp_all add: look(1) [OF s1(3,4)]) blast
  have "\<exists>t. alt_open_fd (int 0) inp O_RDONLY 0x1FF s1 = Inr t \<and> fds_ok t \<and> alt_devs t = alt_devs s1 \<and>
    alt_links t = alt_links s1 \<and> world t = world s1 \<and> (\<forall>d. locked d t \<longrightarrow> locked d s1) \<and> lowest_free t = Some j \<and>
    fd_dev (alt_fd_list t ! 0) = Some d0 \<and> fd_flags (alt_fd_list t ! 0) = O_RDONLY OR ALT_FD_DEV \<and>
    (\<forall>i<ALT_MAX_FD. i \<noteq> 0 \<longrightarrow> i \<noteq> j \<longrightarrow> alt_fd_list t ! i = alt_fd_list s1 ! i)"
    by (rule redirect_one [OF s1(2) p0(1) inp(1) p0(2-4) s1(7)]) simp_all
  then obtain s2 where s2: "alt_open_fd (int 0) inp O_RDONLY 0x1FF s1 = Inr s2" "fds_ok s2" "alt_devs s2 = alt_devs s"
    "alt_links s2 = alt_links s" "world s2 = world s" "\<forall>d. locked d s2 \<longrightarrow> locked d s" "lowest_free s2 = Some j"
    "fd_dev (alt_fd_list s2 ! 0) = Some d0" "fd_flags (alt_fd_list s2 ! 0) = O_RDONLY OR ALT_FD_DEV"
    "\<forall>i<32. i \<noteq> 0 \<longrightarrow> i \<noteq> j \<longrightarrow> alt_fd_list s2 ! i = alt_fd_list s1 ! i"
    unfolding s1(3-5) using s1(6) by blast
  have p2: "registered_as s2 ds fs" "lookup s2 ds fs err = Inr (Some d2, False)"
    "dev_open (alt_devs s2 d2) = None" "\<not> locked d2 s2"
    using err s2(3,6) look(2) [OF s2(3,4)] by (simp_all add: look(1) [OF s2(3,4)]) blast
  have "\<exists>t. alt_open_fd (int 2) err O_WRONLY 0x1FF s2 = Inr t \<and> fds_ok t \<and> alt_devs t = alt_devs s2 \<and>
    alt_links t = alt_links s2 \<and> world t = world s2 \<and> (\<forall>d. locked d t \<longrightarrow> locked d s2) \<and> lowest_free t = Some j \<and>
    fd_dev (alt_fd_list t ! 2) = Some d2 \<and> fd_flags (alt_fd_list t ! 2) = O_WRONLY OR ALT_FD_DEV \<and>
    (\<forall>i<ALT_MAX_FD. i \<noteq> 2 \<longrightarrow> i \<noteq> j \<longrightarrow> alt_fd_list t ! i = alt_fd_list s2 ! i)"
    by (rule redirect_one [OF s2(2) p2(1) err(1) p2(2-4) s2(7)]) simp_all
  then obtain s3 where s3: "alt_open_fd (int 2) err O_WRONLY 0x1FF s2 = Inr s3" "fds_ok s3" "alt_devs s3 = alt_devs s"
    "alt_links s3 = alt_links s" "world s3 = world s" "\<forall>d. locked d s3 \<longrightarrow> locked d s" "lowest_free s3 = Some j"
    "fd_dev (alt_fd_list s3 ! 2) = Some d2" "fd_flags (alt_fd_list s3 ! 2) = O_WRONLY OR ALT_FD_DEV"
    "\<forall>i<32. i \<noteq> 2 \<longrightarrow> i \<noteq> j \<longrightarrow> alt_fd_list s3 ! i = alt_fd_list s2 ! i"
    unfolding s2(3-5) using s2(6) by blast
  have "alt_io_redirect out inp err s = Inr s3"
    using s1(1) s2(1) s3(1) by (simp add: alt_io_redirect_def)
  moreover have "2 < j" "length (alt_fd_list s3) = 32"
    using lowest_free_gt2 [OF ok(1,3)] s3(2) by (simp_all add: fds_ok_def)
  moreover from this have "take 3 (alt_fd_list s3) = [alt_fd_list s3 ! 0, alt_fd_list s3 ! 1, alt_fd_list s3 ! 2]"
    by (cases "alt_fd_list s3" rule: list.exhaust [where 'a = alt_fd]) (auto simp: numeral_nat take_Suc_conv_app_nth)
  moreover have "alt_fd_list s3 ! 0 = alt_fd_list s2 ! 0" "alt_fd_list s3 ! 1 = alt_fd_list s2 ! 1"
    "alt_fd_list s2 ! 1 = alt_fd_list s1 ! 1" "\<forall>i<32. 2 < i \<longrightarrow> i \<noteq> j \<longrightarrow> alt_fd_list s3 ! i = alt_fd_list s ! i"
    using s1(10) s2(10) s3(10) \<open>2 < j\<close> by auto
  ultimately show ?thesis
    using s1(8,9) s2(8,9) s3(2-5,7-9) by (intro exI [of _ s3]) simp
qed

text \<open>
  C26. Descriptor flags. On a valid descriptor \<open>F_SETFL\<close> changes exactly the append and
  non-blocking bits, whatever other bits it is given: the access mode, the private data, the
  device and the two internal bits survive, so no lock is gained, lost or seen this way, and
  every other descriptor stays as it is. \<open>F_GETFL\<close> then returns the flags without the two
  internal bits, and of several settings the last one counts. Every other command fails with
  \<open>EINVAL\<close> and every command on any negative descriptor with \<open>EBADFD\<close>.
\<close>

theorem fcntl_roundtrip:
  assumes f: "fd_at i s = Inr f"
  shows "\<exists>s'. alt_fcntl i F_SETFL fl s = Inr (0, s') \<and>
    (\<forall>x. alt_fcntl i F_GETFL x s' =
       Inr (sint ((fd_flags f AND NOT (O_APPEND OR O_NONBLOCK) AND NOT ALT_FD_FLAGS_MASK) OR
         (fl AND (O_APPEND OR O_NONBLOCK))), s')) \<and>
    (\<forall>j. fd_at j s' = (if j = i
       then Inr (f\<lparr>fd_flags := (fd_flags f AND NOT (O_APPEND OR O_NONBLOCK)) OR (fl AND (O_APPEND OR O_NONBLOCK))\<rparr>)
       else fd_at j s)) \<and>
    (\<forall>g. fd_at i s' = Inr g \<longrightarrow> fd_flags g AND O_ACCMODE = fd_flags f AND O_ACCMODE \<and>
       fd_flags g AND ALT_FD_FLAGS_MASK = fd_flags f AND ALT_FD_FLAGS_MASK) \<and>
    (\<forall>x. alt_fcntl i F_SETFL x s' = alt_fcntl i F_SETFL x s) \<and>
    (\<forall>cmd x. cmd \<noteq> F_SETFL \<longrightarrow> cmd \<noteq> F_GETFL \<longrightarrow> alt_fcntl i cmd x s = Inr (- 1, s\<lparr>alt_errno := EINVAL\<rparr>)) \<and>
    (\<forall>k<0. \<forall>cmd x. alt_fcntl k cmd x s = Inr (- 1, s\<lparr>alt_errno := EBADFD\<rparr>))"
proof -
  have i: "0 \<le> i" "nat i < length (alt_fd_list s)" "f = alt_fd_list s ! nat i"
    using f by (auto simp: fd_at_def split: if_splits)
  define m :: alt_u32 where "m = ALT_FCNTL_FLAGS_MASK"
  let ?fl = "\<lambda>x. (fd_flags f AND NOT m) OR (x AND m)"
  let ?s = "fd_put i (f\<lparr>fd_flags := ?fl fl\<rparr>) s"
  have put: "alt_fcntl i F_SETFL x t = Inr (0, fd_put i (g\<lparr>fd_flags := (fd_flags g AND NOT m) OR (x AND m)\<rparr>) t)"
    if "fd_at i t = Inr g" for x t g
    using that i(1) by (simp add: alt_fcntl_def Let_def m_def)
  note set = put [OF f, of fl]
  have at: "fd_at i ?s = Inr (f\<lparr>fd_flags := ?fl fl\<rparr>)" using i by (simp add: fd_at_def)
  have frame: "fd_at j ?s = fd_at j s" if "j \<noteq> i" for j
    using that i by (auto simp: fd_at_def nth_list_update eq_nat_nat_iff)
  have dis: "m AND ALT_FD_FLAGS_MASK = 0" "m AND NOT ALT_FD_FLAGS_MASK = m" "m AND O_ACCMODE = 0"
    "NOT m AND ALT_FD_FLAGS_MASK = ALT_FD_FLAGS_MASK" "NOT m AND O_ACCMODE = O_ACCMODE" by (simp_all add: m_def)
  have split: "?fl fl AND k = (fd_flags f AND (NOT m AND k)) OR (fl AND (m AND k))" for k
    by (simp only: bit.conj_disj_distrib2 and.assoc)
  have get: "?fl fl AND NOT ALT_FD_FLAGS_MASK = (fd_flags f AND NOT m AND NOT ALT_FD_FLAGS_MASK) OR (fl AND m)"
    by (simp only: bit.conj_disj_distrib2 and.assoc dis)
  have last: "(?fl fl AND NOT m) OR (x AND m) = ?fl x" for x by (rule bit_word_eqI) (auto simp: bit_simps)
  have again: "alt_fcntl i F_SETFL x ?s = alt_fcntl i F_SETFL x s" for x
    using put [OF at, of x] put [OF f, of x] by (simp add: last)
  show ?thesis
    using set at i frame again get split [of O_ACCMODE] split [of ALT_FD_FLAGS_MASK]
    unfolding m_def [symmetric] by (intro exI [of _ ?s]) (auto simp: alt_fcntl_def dis)
qed

theorem fcntl_roundtrip_witness:
  "\<exists>s'. alt_fcntl 3 F_SETFL (O_NONBLOCK OR O_WRONLY OR ALT_FD_EXCL) demo_two = Inr (0, s') \<and>
     alt_fcntl 3 F_GETFL 0 s' = Inr (0x4002, s') \<and> fd_at 3 s' = Inr \<lparr>fd_dev = Some 3, fd_priv = 0, fd_flags = 0x40004002\<rparr>"
proof -
  have "fd_at 3 demo_two = Inr \<lparr>fd_dev = Some 3, fd_priv = 0, fd_flags = 0x40000002\<rparr>"
    by (simp add: fd_at_def demo_two_def Let_def alt_fd_list_init_def)
  from fcntl_roundtrip [OF this, of "O_NONBLOCK OR O_WRONLY OR ALT_FD_EXCL"] show ?thesis by fastforce
qed

text \<open>
  C29. The registries, with properly linked lists whose devices have names. For every name
  and path, registered or not, looking it up among the devices returns the first device of
  that name, newest first, and looking it up among the file systems the first mount point
  (without a trailing slash) the path lies under, unless the walk meets an empty mount point
  or one longer than the path first, where the code reads out of bounds. Registering a device
  that is in neither list puts it first: it hides the older ones of its name, or the file
  systems below its mount point, and no lookup of the other kind or of another name notices.
  A null pointer or a device without a name is refused and changes no list.
\<close>

theorem registry_lookup:
  assumes r: "registered_as s ds fs" and n: "c_string name"
  shows "alt_find_dev name alt_dev_list s = Inr (find (\<lambda>d. dev_name (alt_devs s d) = Some name) ds) \<and>
    alt_find_file name s = find_mount (\<lambda>d. the (dev_name (alt_devs s d))) name fs \<and>
    (\<forall>d nm. d \<notin> set (alt_dev_list # ds) \<union> set (alt_fs_list # fs) \<longrightarrow>
       dev_name (alt_devs s d) = Some nm \<longrightarrow> c_string nm \<longrightarrow>
       (\<exists>s'. alt_dev_reg (Some d) s = (0, s') \<and> registered_as s' (d # ds) fs \<and>
          alt_find_dev name alt_dev_list s' =
            (if nm = name then Inr (Some d) else alt_find_dev name alt_dev_list s) \<and>
          alt_find_file name s' = alt_find_file name s) \<and>
       (\<exists>s'. alt_fs_reg d s = (0, s') \<and> registered_as s' ds (d # fs) \<and>
          alt_find_dev name alt_dev_list s' = alt_find_dev name alt_dev_list s \<and>
          alt_find_file name s' =
            (if nm = [] \<or> length name < length (mount_point nm) then Inl OutOfBounds
             else if under_mount (mount_point nm) name then Inr (Some d) else alt_find_file name s))) \<and>
    (\<forall>d. (case d of None \<Rightarrow> True | Some d \<Rightarrow> dev_name (alt_devs s d) = None) \<longrightarrow>
       alt_dev_reg d s = (- EINVAL, s\<lparr>alt_errno := EINVAL\<rparr>)) \<and>
    (\<forall>d. dev_name (alt_devs s d) = None \<longrightarrow> alt_fs_reg d s = (- ENODEV, s))"
proof -
  have "(\<exists>s'. alt_dev_reg (Some d) s = (0, s') \<and> registered_as s' (d # ds) fs \<and>
          alt_find_dev name alt_dev_list s' =
            (if nm = name then Inr (Some d) else alt_find_dev name alt_dev_list s) \<and>
          alt_find_file name s' = alt_find_file name s)" (is ?D)
    and "(\<exists>s'. alt_fs_reg d s = (0, s') \<and> registered_as s' ds (d # fs) \<and>
          alt_find_dev name alt_dev_list s' = alt_find_dev name alt_dev_list s \<and>
          alt_find_file name s' =
            (if nm = [] \<or> length name < length (mount_point nm) then Inl OutOfBounds
             else if under_mount (mount_point nm) name then Inr (Some d) else alt_find_file name s))" (is ?F)
    if d: "d \<notin> set (alt_dev_list # ds) \<union> set (alt_fs_list # fs)" "dev_name (alt_devs s d) = Some nm" "c_string nm" for d nm
  proof -
    obtain s' where s': "alt_dev_reg (Some d) s = (0, s')" "registered_as s' (d # ds) fs" "alt_devs s' = alt_devs s"
      using alt_dev_reg_ok [OF r d(2,3,1)] by blast
    then show ?D
      using d by (simp add: alt_find_dev_spec [OF r n] alt_find_file_spec [OF r n]
          alt_find_dev_spec [OF s'(2) n] alt_find_file_spec [OF s'(2) n])
    obtain s' where s': "alt_fs_reg d s = (0, s')" "registered_as s' ds (d # fs)" "alt_devs s' = alt_devs s"
      using alt_fs_reg_ok [OF r d(2,3,1)] by blast
    then show ?F
      using d by (simp add: alt_find_dev_spec [OF r n] alt_find_file_spec [OF r n]
          alt_find_dev_spec [OF s'(2) n] alt_find_file_spec [OF s'(2) n])
  qed
  moreover have "alt_dev_reg d s = (- EINVAL, s\<lparr>alt_errno := EINVAL\<rparr>)"
    if "case d of None \<Rightarrow> True | Some d \<Rightarrow> dev_name (alt_devs s d) = None" for d
    using that by (cases d) (simp_all add: alt_dev_reg_def alt_dev_llist_insert_def)
  moreover have "alt_fs_reg d s = (- ENODEV, s)" if "dev_name (alt_devs s d) = None" for d
    using that by (simp add: alt_fs_reg_def)
  ultimately show ?thesis
    using alt_find_dev_spec [OF r n] alt_find_file_spec [OF r n]
    by (intro conjI allI impI) (assumption | blast)
qed

theorem registry_lookup_witness:
  "alt_find_dev ''/dev/a'' alt_dev_list demo_hal = Inr (Some 3) \<and>
   alt_find_dev ''/dev/null'' alt_dev_list demo_hal = Inr (Some alt_dev_null) \<and>
   alt_find_dev ''/dev/b'' alt_dev_list demo_hal = Inr None \<and>
   (\<exists>s'. alt_dev_reg (Some 4) demo_hal = (0, s') \<and> alt_find_dev ''/dev/a'' alt_dev_list s' = Inr (Some 4)) \<and>
   (\<exists>s'. alt_fs_reg 4 demo_hal = (0, s') \<and> alt_find_file ''/dev/a/x'' s' = Inr (Some 4))"
proof -
  have s: "c_string ''/dev/a''" "c_string ''/dev/null''" "c_string ''/dev/b''" "c_string ''/dev/a/x''"
    "(4::nat) \<notin> set (alt_dev_list # [3, alt_dev_null]) \<union> set (alt_fs_list # [])"
    by (simp_all add: c_string_def)
  have n: "dev_name (alt_devs demo_hal 3) = Some ''/dev/a''" "dev_name (alt_devs demo_hal 4) = Some ''/dev/a''"
    "dev_name (alt_devs demo_hal 2) = Some ''/dev/null''"
    by (simp_all add: demo_devs demo_dev_def alt_dev_null_dev_def)
  note l = registry_lookup [OF demo_registered]
  have "alt_find_dev ''/dev/a'' alt_dev_list demo_hal = Inr (Some 3)"
    "alt_find_dev ''/dev/null'' alt_dev_list demo_hal = Inr (Some alt_dev_null)"
    "alt_find_dev ''/dev/b'' alt_dev_list demo_hal = Inr None"
    using l [OF s(1), THEN conjunct1] l [OF s(2), THEN conjunct1] l [OF s(3), THEN conjunct1] n by simp_all
  moreover note l [OF s(1), THEN conjunct2, THEN conjunct2, THEN conjunct1, rule_format, OF s(5) n(2) s(1), THEN conjunct1]
    l [OF s(4), THEN conjunct2, THEN conjunct2, THEN conjunct1, rule_format, OF s(5) n(2) s(1), THEN conjunct2]
  moreover have "under_mount (mount_point ''/dev/a'') ''/dev/a/x''" "length (mount_point ''/dev/a'') = 6"
    by (simp_all add: under_mount_def mount_point_def)
  ultimately show ?thesis by auto
qed

text \<open>
  C22. The invariant over whole runs. Starting from a sound table with proper registries and
  well-behaved drivers, any sequence of the system calls, whatever their arguments, as long
  as each comes back, leaves the table sound and the registries as they were: descriptors 0
  to 2 stay in use and every used one above them is covered by \<open>alt_max_fd\<close>.
\<close>

inductive fd_run :: "'w hal \<Rightarrow> 'w hal \<Rightarrow> bool" where
  start: "fd_run s s"
| opens: "fd_run s t \<Longrightarrow> c_string name \<Longrightarrow> alt_open name flags mode t = Inr (rc, t') \<Longrightarrow> fd_run s t'"
| closes: "fd_run s t \<Longrightarrow> alt_close fd t = Inr (rc, t') \<Longrightarrow> fd_run s t'"
| reads: "fd_run s t \<Longrightarrow> alt_read fd len t = Inr (rc, bs, t') \<Longrightarrow> fd_run s t'"
| writes: "fd_run s t \<Longrightarrow> alt_write fd ptr len t = Inr (rc, t') \<Longrightarrow> fd_run s t'"
| seeks: "fd_run s t \<Longrightarrow> alt_lseek fd off dir t = Inr (rc, t') \<Longrightarrow> fd_run s t'"
| stats: "fd_run s t \<Longrightarrow> alt_fstat fd t = Inr (rc, m, t') \<Longrightarrow> fd_run s t'"
| controls: "fd_run s t \<Longrightarrow> alt_ioctl fd req arg t = Inr (rc, arg', t') \<Longrightarrow> fd_run s t'"
| fcntls: "fd_run s t \<Longrightarrow> alt_fcntl fd cmd fl t = Inr (rc, t') \<Longrightarrow> fd_run s t'"
| isattys: "fd_run s t \<Longrightarrow> alt_isatty junk fd t = Inr (rc, t') \<Longrightarrow> fd_run s t'"

lemma same_sys_setting:
  "same_sys s t \<Longrightarrow> registered_as s ds fs \<Longrightarrow> drivers_ok s \<Longrightarrow> registered_as t ds fs \<and> drivers_ok t"
  by (simp add: same_sys_def registered_as_def drivers_ok_def)

lemma call_after:
  assumes "same_sys s t" "drivers_ok s" "fds_ok t \<Longrightarrow> drivers_ok t \<Longrightarrow> res_post (\<lambda>x. same_sys t (p x)) r" "r = Inr x"
  shows "same_sys s (p x)"
  using assms same_sys_trans by (auto simp: res_post_def same_sys_def drivers_ok_def)

lemmas calls_after =
  call_after [OF _ _ close_sys, where x = "(rc, t')" for rc t', simplified]
  call_after [OF _ _ read_sys, where x = "(rc, bs, t')" for rc bs t', simplified]
  call_after [OF _ _ write_sys, where x = "(rc, t')" for rc t', simplified]
  call_after [OF _ _ lseek_sys, where x = "(rc, t')" for rc t', simplified]
  call_after [OF _ _ fstat_sys, where x = "(rc, m, t')" for rc m t', simplified]
  call_after [OF _ _ ioctl_sys, where x = "(rc, a, t')" for rc a t', simplified]
  call_after [OF _ _ isatty_sys, where x = "(rc, t')" for rc t', simplified]
  call_after [OF _ _ fcntl_sys, where x = "(rc, t')" for rc t', simplified]

theorem fd_run_invariant:
  assumes "fd_run s t" "fds_ok s" "registered_as s ds fs" "drivers_ok s"
  shows "fds_ok t \<and> registered_as t ds fs \<and> drivers_ok t"
proof -
  have "same_sys s t"
    using assms
  proof (induction rule: fd_run.induct)
    case (opens s t name flags mode rc t')
    then have "same_sys s t" "registered_as t ds fs" "drivers_ok t" using same_sys_setting by blast+
    moreover from this have "fds_ok t" by (simp add: same_sys_def)
    ultimately show ?case
      using res_postD [OF open_sys opens(3)] opens(2) same_sys_trans by fastforce
  qed (auto intro: same_sysI calls_after)
  then show ?thesis using same_sys_setting assms by (auto simp: same_sys_def)
qed

theorem fd_run_invariant_witness:
  "\<exists>t. fd_run demo_two t \<and> alt_fcntl 3 F_SETFL 8 demo_two = Inr (0, t) \<and> fds_ok t"
proof -
  have "fd_at 3 demo_two = Inr \<lparr>fd_dev = Some 3, fd_priv = 0, fd_flags = 0x40000002\<rparr>"
    by (simp add: fd_at_def demo_two_def Let_def alt_fd_list_init_def)
  then obtain t where t: "alt_fcntl 3 F_SETFL 8 demo_two = Inr (0, t)" by (simp add: alt_fcntl_def Let_def)
  then have "fd_run demo_two t" by (rule fd_run.fcntls [OF fd_run.start])
  then show ?thesis using fd_run_invariant [OF _ demo_two_ok(1) demo_two_registered demo_two_ok(2)] t by blast
qed

text \<open>
  \<open>stat\<close> on a name nobody has registered returns -1 and stores nothing, but the error
  number it leaves is \<open>EBADFD\<close>, not the \<open>ENODEV\<close> of the failed \<open>open\<close>: the \<open>fstat\<close> and
  \<open>close\<close> that follow on descriptor -1 overwrite it.
\<close>

theorem stat_missing:
  assumes "fds_ok s" "registered_as s ds fs" "c_string file" "lookup s ds fs file = Inr (None, True)"
  shows "alt_open file 0 mode s = Inr (- 1, s\<lparr>alt_errno := ENODEV\<rparr>) \<and>
    alt_stat mode file s = Inr (- 1, None, s\<lparr>alt_errno := EBADFD\<rparr>)"
proof -
  have "alt_open file 0 mode s = Inr (- 1, s\<lparr>alt_errno := ENODEV\<rparr>)"
    using alt_open_eq [OF assms(1-3)] assms(4) by simp
  then show ?thesis by (simp add: alt_stat_def alt_fstat_def alt_close_def)
qed

theorem stat_missing_witness:
  "alt_stat 0 ''/dev/b'' demo_hal = Inr (- 1, None, demo_hal\<lparr>alt_errno := EBADFD\<rparr>)"
  using stat_missing [OF demo_ok(1) demo_registered, of "''/dev/b''"]
  by (simp add: c_string_def lookup_def demo_devs demo_dev_def alt_dev_null_dev_def)

end
