(* ===== verification/Clock.thy ===== *)
theory Clock
  imports Llist Irq
begin

text \<open>
  The system clock: alarms (\<open>alt_tick.c\<close>, \<open>alt_alarm_start.c\<close>, \<open>sys/alt_alarm.h\<close>), the
  time of day (\<open>alt_gettod.c\<close>, \<open>alt_settod.c\<close>), \<open>times\<close> (\<open>alt_times.c\<close>) and the delay loop
  (\<open>alt_busy_sleep.c\<close>, \<open>alt_usleep.c\<close>). An alarm is known by the address of its list node. A
  callback is an argument of the model; it may change the whole clock state and returns the
  ticks until its next call.
\<close>

section \<open>The clock's state\<close>

record alt_alarm =
  al_time :: alt_u32
  al_callback :: nat
  al_rollover :: alt_u8
  al_context :: nat

record timeval =
  tv_sec :: alt_u32
  tv_usec :: alt_u32

record timezone =
  tz_minuteswest :: int
  tz_dsttime :: int

record 'w clock =
  alt_tick_rate :: alt_u32
  alt_nticks :: alt_u32
  alarm_links :: llheap
  alarms :: "nat \<Rightarrow> alt_alarm"
  clock_cpu :: cpu
  alt_resettime :: timeval
  alt_timezone :: timezone
  clock_errno :: int
  clock_world :: 'w

abbreviation (input) alt_alarm_list :: nat where "alt_alarm_list \<equiv> 0"

definition alt_ticks_per_second :: "'w clock \<Rightarrow> alt_u32" where
  "alt_ticks_per_second s = alt_tick_rate s"

definition alt_sysclk_init :: "alt_u32 \<Rightarrow> 'w clock \<Rightarrow> int \<times> 'w clock" where
  "alt_sysclk_init nticks s =
     (if alt_tick_rate s = 0 then (0, s\<lparr>alt_tick_rate := nticks\<rparr>) else (- 1, s))"

definition with_cpu :: "(cpu \<Rightarrow> cpu) \<Rightarrow> 'w clock \<Rightarrow> 'w clock" where
  "with_cpu f s = s\<lparr>clock_cpu := f (clock_cpu s)\<rparr>"

section \<open>Alarms\<close>

definition alt_alarm_stop :: "nat \<Rightarrow> 'w clock \<Rightarrow> 'w clock" where
  "alt_alarm_stop alarm s =
     (let (irq_context, c) = alt_irq_disable_all (clock_cpu s);
          s = s\<lparr>clock_cpu := c\<rparr>;
          s = s\<lparr>alarm_links := alt_llist_remove alarm (alarm_links s)\<rparr>
      in with_cpu (alt_irq_enable_all irq_context) s)"

definition alt_alarm_start :: "nat option \<Rightarrow> alt_u32 \<Rightarrow> nat \<Rightarrow> nat \<Rightarrow> 'w clock \<Rightarrow> int \<times> 'w clock" where
  "alt_alarm_start alarm nticks callback ctx s =
     (if alt_ticks_per_second s \<noteq> 0 then
        (case alarm of
           None \<Rightarrow> (- EINVAL, s)
         | Some a \<Rightarrow>
             (let (irq_context, c) = alt_irq_disable_all (clock_cpu s);
                  s = s\<lparr>clock_cpu := c\<rparr>;
                  current_nticks = alt_nticks s;
                  time = nticks + current_nticks + 1;
                  al = \<lparr>al_time = time, al_callback = callback,
                        al_rollover = (if time < current_nticks then 1 else 0), al_context = ctx\<rparr>;
                  s = s\<lparr>alarms := (alarms s)(a := al)\<rparr>;
                  s = s\<lparr>alarm_links := alt_llist_insert alt_alarm_list a (alarm_links s)\<rparr>
              in (0, with_cpu (alt_irq_enable_all irq_context) s)))
      else (- ENOTSUP, s))"

type_synonym 'w callbacks = "nat \<Rightarrow> nat \<Rightarrow> 'w clock \<Rightarrow> alt_u32 \<times> 'w clock"

definition set_alarm :: "nat \<Rightarrow> alt_alarm \<Rightarrow> 'w clock \<Rightarrow> 'w clock" where
  "set_alarm a al s = s\<lparr>alarms := (alarms s)(a := al)\<rparr>"

text \<open>The body of the loop of \<open>alt_tick\<close> for one alarm.\<close>

definition tick_alarm :: "'w callbacks \<Rightarrow> nat \<Rightarrow> 'w clock \<Rightarrow> 'w clock" where
  "tick_alarm run a s =
     (let al = alarms s a;
          s = (if al_rollover al \<noteq> 0 \<and> alt_nticks s = 0 then set_alarm a (al\<lparr>al_rollover := 0\<rparr>) s else s);
          al = alarms s a
      in if al_time al \<le> alt_nticks s \<and> al_rollover al = 0 then
           (let (next_callback, s) = run (al_callback al) (al_context al) s
            in if next_callback = 0 then alt_alarm_stop a s
               else (let al = alarms s a; time = al_time al + next_callback; al = al\<lparr>al_time := time\<rparr>
                     in set_alarm a (if time < alt_nticks s then al\<lparr>al_rollover := 1\<rparr> else al) s))
         else s)"

text \<open>
  The loop: the successor is read before the alarm is handled. \<open>None\<close>: it never comes back
  to the head.
\<close>

partial_function (option) tick_from :: "'w callbacks \<Rightarrow> nat \<Rightarrow> 'w clock \<Rightarrow> 'w clock option" where
  "tick_from run a s =
     (if a = alt_alarm_list then Some s
      else tick_from run (ll_next (alarm_links s a)) (tick_alarm run a s))"

definition alt_tick :: "'w callbacks \<Rightarrow> 'w clock \<Rightarrow> 'w clock option" where
  "alt_tick run s =
     (let a = ll_next (alarm_links s alt_alarm_list)
      in tick_from run a (s\<lparr>alt_nticks := alt_nticks s + 1\<rparr>))"

section \<open>Times\<close>

definition alt_times :: "'w clock \<Rightarrow> alt_u32 \<times> alt_u32 option \<times> 'w clock" where
  "alt_times s =
     (let ticks = alt_nticks s
      in if alt_ticks_per_second s = 0 then (0, None, s\<lparr>clock_errno := ENOSYS\<rparr>)
         else (ticks, Some ticks, s))"

abbreviation (input) ALT_US :: int where "ALT_US \<equiv> 1000000"

text \<open>The two loops that bring the microseconds into range; \<open>tv_sec\<close> is a signed \<open>long\<close>.\<close>

function tod_borrow :: "int \<Rightarrow> int \<Rightarrow> int \<times> int" where
  "tod_borrow sec usec =
     (if usec < 0 then if sec \<le> 0 then (0, 0) else tod_borrow (sec - 1) (usec + ALT_US)
      else (sec, usec))"
  by pat_completeness auto
termination by (relation "measure (\<lambda>(_, usec). nat (- usec))") auto

function tod_carry :: "int \<Rightarrow> int \<Rightarrow> (int \<times> int) c_res" where
  "tod_carry sec usec =
     (if usec \<ge> ALT_US then res_bind (c_add sec 1) (\<lambda>sec. tod_carry sec (usec - ALT_US))
      else Inr (sec, usec))"
  by pat_completeness auto
termination by (relation "measure (\<lambda>(_, usec). nat usec)") auto

declare tod_borrow.simps [simp del] tod_carry.simps [simp del]

text \<open>
  \<open>gettimeofday\<close>: \<open>None\<close> as the first component is the error \<open>-ENOTSUP\<close>, which leaves the
  caller's structures alone. The product is formed in 64 bits; the sums are unsigned, since
  one operand is.
\<close>

definition alt_gettimeofday :: "'w clock \<Rightarrow> (int \<times> (int \<times> int \<times> timezone) option) c_res" where
  "alt_gettimeofday s =
     (let nticks = alt_nticks s; tick_rate = alt_ticks_per_second s
      in if tick_rate \<noteq> 0 then
           (let sec = tv_sec (alt_resettime s) + nticks div tick_rate;
                prod = uint nticks * (ALT_US div uint tick_rate);
                usec = tv_usec (alt_resettime s) + word_of_int (prod mod ALT_US);
                (sec, usec) = tod_borrow (sint sec) (sint usec)
            in res_bind (tod_carry sec usec) (\<lambda>(sec, usec).
                 Inr (0, Some (sec, usec, alt_timezone s))))
         else Inr (- ENOTSUP, None))"

text \<open>\<open>settimeofday\<close>: here the product is formed in 32 bits.\<close>

definition alt_settimeofday :: "timeval \<Rightarrow> timezone \<Rightarrow> 'w clock \<Rightarrow> int \<times> 'w clock" where
  "alt_settimeofday t tz s =
     (let nticks = alt_nticks s; tick_rate = alt_ticks_per_second s
      in if tick_rate \<noteq> 0 then
           (0, s\<lparr>alt_resettime := \<lparr>tv_sec = tv_sec t - nticks div tick_rate,
                   tv_usec = tv_usec t - (nticks * (1000000 div tick_rate)) mod 1000000\<rparr>,
                 alt_timezone := tz\<rparr>)
         else (- 1, s\<lparr>clock_errno := ENOSYS\<rparr>))"

section \<open>The delay loop\<close>

text \<open>
  Turns of the two assembler loops: both decrement first and test then, one until the counter
  is zero, the other while it is positive as a signed number.
\<close>

definition bne_turns :: "alt_u32 \<Rightarrow> nat" where
  "bne_turns n = (if n = 0 then 2 ^ 32 else unat n)"

definition bgt_turns :: "alt_u32 \<Rightarrow> nat" where
  "bgt_turns n = (if 0 < sint n \<or> n = 0x80000000 then unat n else 1)"

text \<open>
  The number of turns \<open>alt_busy_sleep\<close> spends for \<open>us\<close> microseconds; the processor's
  implementation and frequency are those of \<open>system.h\<close>.
\<close>

abbreviation (input) NIOS2_CPU_IMPLEMENTATION :: string where "NIOS2_CPU_IMPLEMENTATION \<equiv> ''tiny''"
abbreviation (input) ALT_CPU_FREQ :: alt_u32 where "ALT_CPU_FREQ \<equiv> 50000000"

definition cycles_per_loop :: alt_u32 where
  "cycles_per_loop = (if NIOS2_CPU_IMPLEMENTATION = ''tiny'' then 9 else 3)"

fun big_delays :: "nat \<Rightarrow> alt_u32 \<Rightarrow> alt_u32 \<Rightarrow> nat \<times> alt_u32" where
  "big_delays 0 per us = (0, us)"
| "big_delays (Suc n) per us =
     (let (t, us) = big_delays n per (us - per) in (bne_turns (word_of_int INT_MAX) + t, us))"

definition alt_busy_sleep :: "alt_u32 \<Rightarrow> int \<times> nat" where
  "alt_busy_sleep us =
     (let per_us = ALT_CPU_FREQ div (cycles_per_loop * 1000000);
          per_loop = word_of_int INT_MAX div per_us;
          big_loops = us div per_loop
      in if big_loops \<noteq> 0 then
           (let (t, us) = big_delays (unat big_loops) per_loop us in (0, t + bne_turns (us * per_us)))
         else (0, bgt_turns (us * per_us)))"

definition alt_usleep :: "alt_u32 \<Rightarrow> int \<times> nat" where
  "alt_usleep us = alt_busy_sleep us"

section \<open>Alarms: the specification\<close>

text \<open>
  Abstractly an alarm has a number of ticks \<open>r\<close> left, and each tick takes one off; the one
  that has 1 left is called and gets as many as its callback returns. \<open>ticks_left\<close> says what
  the 32-bit time and the rollover flag have to do with it.
\<close>

definition ticks_left :: "alt_u32 \<Rightarrow> alt_alarm \<Rightarrow> nat \<Rightarrow> bool" where
  "ticks_left nt al r \<longleftrightarrow> 1 \<le> r \<and> r < 2 ^ 32 \<and> al_time al = nt + of_nat r \<and>
     (al_rollover al \<noteq> 0 \<longleftrightarrow> unat nt + r \<ge> 2 ^ 32)"

type_synonym 'w alarm_call = "nat \<Rightarrow> nat \<Rightarrow> 'w \<Rightarrow> alt_u32 \<times> 'w"

fun tick_spec :: "'w alarm_call \<Rightarrow> (nat \<Rightarrow> alt_alarm) \<Rightarrow> (nat \<times> nat) list \<Rightarrow> 'w \<Rightarrow> (nat \<times> nat) list \<times> 'w" where
  "tick_spec call al [] w = ([], w)"
| "tick_spec call al ((a, r) # as) w =
     (if r = 1 then
        (let (k, w) = call (al_callback (al a)) (al_context (al a)) w; (as', w) = tick_spec call al as w
         in (if k = 0 then as' else (a, unat k) # as', w))
      else (let (as', w) = tick_spec call al as w in ((a, r - 1) # as', w)))"

text \<open>A callback that only works on its own part of the world.\<close>

definition only_world :: "'w callbacks \<Rightarrow> 'w alarm_call \<Rightarrow> bool" where
  "only_world run call \<longleftrightarrow>
     (\<forall>f c s. run f c s = (fst (call f c (clock_world s)), s\<lparr>clock_world := snd (call f c (clock_world s))\<rparr>))"

definition alarm_repr :: "'w clock \<Rightarrow> (nat \<times> nat) list \<Rightarrow> bool" where
  "alarm_repr s as \<longleftrightarrow> llist_repr (alarm_links s) alt_alarm_list (map fst as) \<and>
     (\<forall>(a, r)\<in>set as. ticks_left (alt_nticks s) (alarms s a) r)"

text \<open>One tick later a due alarm is seen as due, and no other is.\<close>

lemma due_iff:
  assumes "ticks_left nt al r"
  defines "al' \<equiv> (if al_rollover al \<noteq> 0 \<and> nt + 1 = 0 then al\<lparr>al_rollover := 0\<rparr> else al)"
  shows "(al_time al' \<le> nt + 1 \<and> al_rollover al' = 0) \<longleftrightarrow> r = 1"
    and "r \<noteq> 1 \<Longrightarrow> ticks_left (nt + 1) al' (r - 1)"
proof -
  have nt: "unat nt < 2 ^ 32" using unat32_lt by simp
  have r: "1 \<le> r" "r < 2 ^ 32" "al_time al = nt + of_nat r" "al_rollover al \<noteq> 0 \<longleftrightarrow> unat nt + r \<ge> 2 ^ 32"
    using assms(1) by (simp_all add: ticks_left_def)
  have ur: "unat (of_nat r :: alt_u32) = r" using r(2) by (simp add: unat_of_nat)
  have t: "unat (al_time al) = (if unat nt + r < 2 ^ 32 then unat nt + r else unat nt + r - 2 ^ 32)"
    by (simp only: r(3) unat_plus32 ur)
  have n1: "unat (nt + 1) = (if unat nt + 1 < 2 ^ 32 then unat nt + 1 else 0)"
    using unat32_lt [of nt] unat_plus32 [of nt 1] by auto
  have z: "nt + 1 = 0 \<longleftrightarrow> unat nt + 1 = 2 ^ 32"
  proof -
    have "nt + 1 = 0 \<longleftrightarrow> unat (nt + 1) = 0" by (simp only: unat_eq_zero)
    also have "\<dots> \<longleftrightarrow> unat nt + 1 = 2 ^ 32" unfolding n1 using nt by auto
    finally show ?thesis .
  qed
  show "(al_time al' \<le> nt + 1 \<and> al_rollover al' = 0) \<longleftrightarrow> r = 1"
    using r t n1 z nt by (auto simp: al'_def word_le_nat_alt split: if_splits)
  assume "r \<noteq> 1"
  moreover have "nt + 1 + of_nat (r - 1) = nt + of_nat r" using r(1) by (simp add: of_nat_diff)
  ultimately show "ticks_left (nt + 1) al' (r - 1)"
    using r t n1 z nt by (auto simp: ticks_left_def al'_def split: if_splits)
qed

lemma reload:
  assumes "al_rollover al = 0" "k \<noteq> 0" "al_time al = nt"
  shows "ticks_left nt (if al_time al + k < nt then al\<lparr>al_time := al_time al + k, al_rollover := 1\<rparr>
     else al\<lparr>al_time := al_time al + k\<rparr>) (unat k)"
proof -
  have b: "unat k < 2 ^ 32" "unat nt < 2 ^ 32" "1 \<le> unat k"
    using assms(2) unat32_lt by (simp_all add: unat_gt_0 Suc_le_eq)
  then have "nt + k < nt \<longleftrightarrow> unat nt + unat k \<ge> 2 ^ 32"
    using unat32_lt [of nt] unat32_lt [of k] unfolding word_less_nat_alt unat_plus32 by auto
  then show ?thesis using assms b(1,3) by (simp add: ticks_left_def)
qed

section \<open>Alarms: \<open>alt_tick\<close> refines the specification\<close>

lemma stop_links [simp]:
  "alarm_links (alt_alarm_stop a s) = alt_llist_remove a (alarm_links s)"
  "alarms (alt_alarm_stop a s) = alarms s" "alt_nticks (alt_alarm_stop a s) = alt_nticks s"
  "clock_world (alt_alarm_stop a s) = clock_world s" "clock_cpu (alt_alarm_stop a s) = clock_cpu s"
  by (simp_all add: alt_alarm_stop_def with_cpu_def alt_irq_disable_all_def alt_irq_enable_all_def Let_def)

lemma set_alarm_sel [simp]:
  "alarm_links (set_alarm a al s) = alarm_links s" "alarms (set_alarm a al s) = (alarms s)(a := al)"
  "alt_nticks (set_alarm a al s) = alt_nticks s" "clock_world (set_alarm a al s) = clock_world s"
  by (simp_all add: set_alarm_def)

text \<open>The loop in the middle: \<open>xs\<close> have been handled for this tick and \<open>as\<close> have not.\<close>

definition tick_mid :: "(nat \<Rightarrow> alt_alarm) \<Rightarrow> (nat \<times> nat) list \<Rightarrow> (nat \<times> nat) list \<Rightarrow> 'w clock \<Rightarrow> bool" where
  "tick_mid al xs as s \<longleftrightarrow> llist_repr (alarm_links s) alt_alarm_list (map fst (xs @ as)) \<and>
     (\<forall>(a, r)\<in>set xs. ticks_left (alt_nticks s) (alarms s a) r) \<and>
     (\<forall>(a, r)\<in>set as. ticks_left (alt_nticks s - 1) (alarms s a) r) \<and>
     (\<forall>a. al_callback (alarms s a) = al_callback (al a) \<and> al_context (alarms s a) = al_context (al a))"

lemma tick_alarm_step:
  assumes mid: "tick_mid al xs ((a, r) # as) s" and cb: "only_world run call"
  shows "\<exists>ys. tick_spec call al ((a, r) # as) (clock_world s) =
      (ys @ fst (tick_spec call al as (clock_world (tick_alarm run a s))),
       snd (tick_spec call al as (clock_world (tick_alarm run a s)))) \<and>
    tick_mid al (xs @ ys) as (tick_alarm run a s)"
proof -
  let ?al = "alarms s a" and ?nt = "alt_nticks s"
  have d: "llist_repr (alarm_links s) alt_alarm_list (map fst xs @ a # map fst as)"
    and t: "ticks_left (?nt - 1) ?al r"
    and cc: "al_callback ?al = al_callback (al a)" "al_context ?al = al_context (al a)"
    using mid by (auto simp: tick_mid_def)
  have fresh: "a \<notin> fst ` set xs" "a \<notin> fst ` set as" using d by (auto simp: llist_repr_def)
  define al' where "al' = (if al_rollover ?al \<noteq> 0 \<and> ?nt = 0 then ?al\<lparr>al_rollover := 0\<rparr> else ?al)"
  have due: "(al_time al' \<le> ?nt \<and> al_rollover al' = 0) \<longleftrightarrow> r = 1" "r \<noteq> 1 \<Longrightarrow> ticks_left ?nt al' (r - 1)"
    using due_iff [OF t] by (simp_all add: al'_def)
  have cc': "al_callback al' = al_callback (al a)" "al_context al' = al_context (al a)"
    using cc by (auto simp: al'_def)
  define s1 where "s1 = (if al_rollover ?al \<noteq> 0 \<and> ?nt = 0 then set_alarm a (?al\<lparr>al_rollover := 0\<rparr>) s else s)"
  have s1: "alarms s1 = (alarms s)(a := al')" "alarm_links s1 = alarm_links s" "alt_nticks s1 = ?nt"
    "clock_world s1 = clock_world s" by (auto simp: s1_def al'_def)
  show ?thesis
  proof (cases "r = 1")
    case False
    then have "\<not> (al_time al' \<le> ?nt \<and> al_rollover al' = 0)" using due by simp
    then have "tick_alarm run a s = s1"
      unfolding tick_alarm_def s1_def [symmetric] Let_def by (simp only: s1 fun_upd_same if_False)
    with False show ?thesis
      using mid due fresh cc' by (intro exI [of _ "[(a, r - 1)]"])
        (auto simp: tick_mid_def s1 case_prod_unfold Let_def)
  next
    case True
    obtain k w where kw: "call (al_callback (al a)) (al_context (al a)) (clock_world s) = (k, w)"
      by fastforce
    let ?s2 = "s1\<lparr>clock_world := w\<rparr>"
    have run: "run (al_callback al') (al_context al') s1 = (k, ?s2)"
      using cb kw s1 cc' by (simp add: only_world_def)
    have time: "al_time al' = ?nt" "al_rollover al' = 0"
      using t True due by (auto simp: ticks_left_def al'_def)
    have ta: "tick_alarm run a s = (if k = 0 then alt_alarm_stop a ?s2
        else set_alarm a (if ?nt + k < ?nt then al'\<lparr>al_time := ?nt + k, al_rollover := 1\<rparr>
               else al'\<lparr>al_time := ?nt + k\<rparr>) ?s2)"
      using True due(1) run time by (simp add: tick_alarm_def s1_def [symmetric] s1 Let_def)
    show ?thesis
    proof (cases "k = 0")
      case k: True
      then have "llist_repr (alarm_links (tick_alarm run a s)) alt_alarm_list (map fst xs @ map fst as)"
        using remove_repr(1) [OF d] by (simp add: ta s1)
      then show ?thesis
        using mid fresh True k kw ta cc' by (intro exI [of _ "[]"])
          (auto simp: tick_mid_def s1 case_prod_unfold Let_def)
    next
      case k: False
      have "ticks_left ?nt (if ?nt + k < ?nt then al'\<lparr>al_time := ?nt + k, al_rollover := 1\<rparr>
          else al'\<lparr>al_time := ?nt + k\<rparr>) (unat k)"
        using reload [OF time(2) k time(1)] unfolding time(1) .
      then show ?thesis
        using mid fresh True k kw ta cc' by (intro exI [of _ "[(a, unat k)]"])
          (auto simp: tick_mid_def s1 case_prod_unfold Let_def)
    qed
  qed
qed

lemma repr_next: "llist_repr h head (xs @ a # ys) \<Longrightarrow> ll_next (h a) = hd (ys @ [head])"
  using seg_first_next [of h a ys head] by (simp add: llist_repr_def seg_append)

lemma tick_from_spec:
  assumes cb: "only_world run call"
  shows "tick_mid al xs as s \<Longrightarrow>
    \<exists>s'. tick_from run (hd (map fst as @ [alt_alarm_list])) s = Some s' \<and>
      tick_mid al (xs @ fst (tick_spec call al as (clock_world s))) [] s' \<and>
      clock_world s' = snd (tick_spec call al as (clock_world s)) \<and> alt_nticks s' = alt_nticks s"
proof (induction "as" arbitrary: xs s)
  case Nil
  then show ?case by (subst tick_from.simps) simp
next
  case (Cons p "as")
  obtain a r where p: "p = (a, r)" by (cases p)
  have mid: "tick_mid al xs ((a, r) # as) s" using Cons.prems p by simp
  then have l: "llist_repr (alarm_links s) alt_alarm_list (map fst xs @ a # map fst as)"
    by (simp add: tick_mid_def)
  then have a: "a \<noteq> alt_alarm_list" by (simp add: llist_repr_def)
  have n: "ll_next (alarm_links s a) = hd (map fst as @ [alt_alarm_list])" by (rule repr_next [OF l])
  let ?s = "tick_alarm run a s"
  from tick_alarm_step [OF mid cb] obtain ys where ys:
    "tick_spec call al ((a, r) # as) (clock_world s) =
      (ys @ fst (tick_spec call al as (clock_world ?s)), snd (tick_spec call al as (clock_world ?s)))"
    "tick_mid al (xs @ ys) as ?s" by blast
  have "alt_nticks ?s = alt_nticks s"
    using cb by (auto simp: tick_alarm_def only_world_def Let_def)
  with Cons.IH [OF ys(2)] ys(1) a n show ?case
    by (subst tick_from.simps) (simp add: p)
qed

lemma alt_tick_refines:
  assumes "alarm_repr s as" "only_world run call"
  shows "\<exists>s'. alt_tick run s = Some s' \<and> alt_nticks s' = alt_nticks s + 1 \<and>
    alarm_repr s' (fst (tick_spec call (alarms s) as (clock_world s))) \<and>
    clock_world s' = snd (tick_spec call (alarms s) as (clock_world s)) \<and>
    (\<forall>a. al_callback (alarms s' a) = al_callback (alarms s a) \<and> al_context (alarms s' a) = al_context (alarms s a))"
proof -
  let ?s = "s\<lparr>alt_nticks := alt_nticks s + 1\<rparr>"
  have "tick_mid (alarms s) [] as ?s" using assms(1) by (simp add: tick_mid_def alarm_repr_def)
  from tick_from_spec [OF assms(2) this] obtain s' where
    s': "tick_from run (hd (map fst as @ [alt_alarm_list])) ?s = Some s'"
    "tick_mid (alarms s) (fst (tick_spec call (alarms s) as (clock_world s))) [] s'"
    "clock_world s' = snd (tick_spec call (alarms s) as (clock_world s))" "alt_nticks s' = alt_nticks s + 1"
    by auto
  have "ll_next (alarm_links s alt_alarm_list) = hd (map fst as @ [alt_alarm_list])"
    using assms(1) seg_first_next by (auto simp: alarm_repr_def llist_repr_def)
  with s' show ?thesis by (auto simp: alt_tick_def tick_mid_def alarm_repr_def)
qed

text \<open>A run of several ticks, and the specification of it.\<close>

fun ticks :: "'w callbacks \<Rightarrow> nat \<Rightarrow> 'w clock \<Rightarrow> 'w clock option" where
  "ticks run 0 s = Some s"
| "ticks run (Suc n) s = Option.bind (alt_tick run s) (ticks run n)"

lemma tick_spec_other:
  "(a, r) \<in> set as \<Longrightarrow> r \<noteq> 1 \<Longrightarrow> (a, r - 1) \<in> set (fst (tick_spec call al as w))"
  by (induction "as" arbitrary: w) (auto simp: case_prod_unfold Let_def)

lemma ticks_wait:
  assumes cb: "only_world run call"
  shows "alarm_repr s as \<Longrightarrow> (a, r) \<in> set as \<Longrightarrow> k < r \<Longrightarrow>
    \<exists>s' as'. ticks run k s = Some s' \<and> alarm_repr s' as' \<and> (a, r - k) \<in> set as' \<and>
      alt_nticks s' = alt_nticks s + of_nat k \<and>
      al_callback (alarms s' a) = al_callback (alarms s a) \<and> al_context (alarms s' a) = al_context (alarms s a)"
proof (induction k arbitrary: s "as" r)
  case (Suc k)
  from alt_tick_refines [OF Suc.prems(1) cb] obtain s1 where s1: "alt_tick run s = Some s1"
    "alarm_repr s1 (fst (tick_spec call (alarms s) as (clock_world s)))" "alt_nticks s1 = alt_nticks s + 1"
    "al_callback (alarms s1 a) = al_callback (alarms s a)" "al_context (alarms s1 a) = al_context (alarms s a)"
    by blast
  have "(a, r - 1) \<in> set (fst (tick_spec call (alarms s) as (clock_world s)))"
    using Suc.prems by (intro tick_spec_other) auto
  from Suc.IH [OF s1(2) this] Suc.prems(3) s1 show ?case by (auto simp: algebra_simps)
qed auto

lemma alarm_start_repr:
  assumes "alarm_repr s as" "a \<noteq> alt_alarm_list" "a \<notin> fst ` set as" "alt_tick_rate s \<noteq> 0" "n \<noteq> - 1"
  shows "\<exists>s'. alt_alarm_start (Some a) n cb ctx s = (0, s') \<and> alarm_repr s' ((a, unat n + 1) # as) \<and>
    alt_nticks s' = alt_nticks s \<and> clock_cpu s' = clock_cpu s \<and> clock_world s' = clock_world s \<and>
    al_callback (alarms s' a) = cb \<and> al_context (alarms s' a) = ctx"
proof -
  have "n + 1 \<noteq> 0" using assms(5) by (simp add: add_eq_0_iff2)
  then have "unat (n + 1) \<noteq> 0" by (simp only: unat_eq_zero simp_thms)
  then have n1: "unat (n + 1) = unat n + 1" using unat_plus32 [of n 1] unat32_lt [of n] by (auto split: if_splits)
  then have b: "unat n + 1 < 2 ^ 32" using unat32_lt [of "n + 1"] by simp
  have t: "n + alt_nticks s + 1 = alt_nticks s + of_nat (unat n + 1)" by (simp add: algebra_simps)
  have "n + alt_nticks s + 1 < alt_nticks s \<longleftrightarrow> unat (alt_nticks s) + (unat n + 1) \<ge> 2 ^ 32"
    using unat_plus32 [of "alt_nticks s" "n + 1"] n1 b unat32_lt [of "alt_nticks s"]
    by (auto simp: word_less_nat_alt algebra_simps)
  then have "ticks_left (alt_nticks s) \<lparr>al_time = n + alt_nticks s + 1, al_callback = cb,
      al_rollover = (if n + alt_nticks s + 1 < alt_nticks s then 1 else 0), al_context = ctx\<rparr> (unat n + 1)"
    using b by (simp add: ticks_left_def t)
  moreover have "llist_repr (alt_llist_insert alt_alarm_list a (alarm_links s)) alt_alarm_list (a # map fst as)"
    using assms(1-3) by (intro insert_repr) (auto simp: alarm_repr_def)
  moreover have "\<forall>(b, r)\<in>set as. ticks_left (alt_nticks s) (((alarms s)(a := x)) b) r" for x
    using assms(1,3) by (force simp: alarm_repr_def)
  ultimately show ?thesis
    using assms(2,4) by (simp add: alt_alarm_start_def alt_ticks_per_second_def alarm_repr_def with_cpu_def
        Let_def alt_irq_disable_all_def alt_irq_enable_all_def del: fun_upd_apply) (simp split: if_splits)
qed

lemma alarm_stop_repr:
  "alarm_repr s as \<Longrightarrow> a \<in> fst ` set as \<Longrightarrow> \<exists>bs. alarm_repr (alt_alarm_stop a s) bs \<and>
     map fst bs = remove1 a (map fst as) \<and> set bs \<subseteq> set as"
proof -
  assume r: "alarm_repr s as" "a \<in> fst ` set as"
  then obtain r where "(a, r) \<in> set as" by auto
  then obtain us vs where uv: "as = us @ (a, r) # vs" by (meson split_list)
  moreover have "a \<notin> set (map fst us)"
    using r(1) uv by (auto simp: alarm_repr_def llist_repr_def)
  moreover have "llist_repr (alt_llist_remove a (alarm_links s)) alt_alarm_list (map fst us @ map fst vs)"
    using r(1) uv by (intro remove_repr(1)) (simp add: alarm_repr_def)
  ultimately show ?thesis
    using r(1) by (intro exI [of _ "us @ vs"]) (auto simp: alarm_repr_def remove1_append)
qed

section \<open>Properties: alarms\<close>

text \<open>
  C31. The system clock tick refines the abstract countdown. With the alarm list linked
  properly, each alarm given by the ticks it has left, and callbacks that leave the alarms
  alone, \<open>alt_tick\<close> always comes back and has taken one tick off every alarm; those that had
  one left have been called, once each, in list order, and have either been unlinked (a
  result of 0) or got exactly as many ticks as they asked for. The 32-bit times and the
  rollover flags never show: this holds across the wrap-around of the tick counter.
\<close>

theorem tick_refines_countdown:
  assumes "alarm_repr s as" "only_world run call"
  shows "\<exists>s'. alt_tick run s = Some s' \<and> alt_nticks s' = alt_nticks s + 1 \<and>
    alarm_repr s' (fst (tick_spec call (alarms s) as (clock_world s))) \<and>
    clock_world s' = snd (tick_spec call (alarms s) as (clock_world s))"
  using alt_tick_refines [OF assms] by blast

text \<open>Witness setting: one alarm whose callback counts its calls and asks for 3 ticks.\<close>

definition demo_call :: "nat alarm_call" where
  "demo_call f c w = (3, Suc w)"

definition demo_run :: "nat callbacks" where
  "demo_run f c s = (fst (demo_call f c (clock_world s)), s\<lparr>clock_world := snd (demo_call f c (clock_world s))\<rparr>)"

definition demo_clock :: "nat clock" where
  "demo_clock = \<lparr>alt_tick_rate = 1000, alt_nticks = - 2,
     alarm_links = alt_llist_head alt_alarm_list (\<lambda>_. \<lparr>ll_next = 0, ll_prev = 0\<rparr>),
     alarms = (\<lambda>_. \<lparr>al_time = 0, al_callback = 0, al_rollover = 0, al_context = 0\<rparr>),
     clock_cpu = \<lparr>cpu_status = 1, cpu_ienable = 0\<rparr>, alt_resettime = \<lparr>tv_sec = 0, tv_usec = 0\<rparr>,
     alt_timezone = \<lparr>tz_minuteswest = 0, tz_dsttime = 0\<rparr>, clock_errno = 0, clock_world = 0\<rparr>"

lemma demo_run_world: "only_world demo_run demo_call"
  by (simp add: only_world_def demo_run_def)

lemma demo_repr: "alarm_repr demo_clock []"
  using head_repr by (simp add: alarm_repr_def demo_clock_def)

lemma demo_clock_sel: "alt_tick_rate demo_clock = 1000" "alt_nticks demo_clock = - 2" "clock_world demo_clock = 0"
  by (simp_all add: demo_clock_def)

lemma demo_started: "\<exists>s. alt_alarm_start (Some 5) 1 7 9 demo_clock = (0, s) \<and> alarm_repr s [(5, 2)] \<and>
    alt_nticks s = - 2 \<and> clock_world s = 0"
  using alarm_start_repr [OF demo_repr, of 5 1 7 9] by (auto simp: demo_clock_sel simp flip: numeral_2_eq_2)

theorem tick_refines_countdown_witness:
  "\<exists>s s'. alt_alarm_start (Some 5) 1 7 9 demo_clock = (0, s) \<and> alt_tick demo_run s = Some s' \<and>
     alarm_repr s' [(5, 1)] \<and> clock_world s' = 0"
proof -
  obtain s where s: "alt_alarm_start (Some 5) 1 7 9 demo_clock = (0, s)" "alarm_repr s [(5, 2)]" "clock_world s = 0"
    using demo_started by blast
  from tick_refines_countdown [OF s(2) demo_run_world] s show ?thesis by auto
qed

text \<open>
  C32. When an alarm fires. A running clock accepts a fresh alarm with \<open>n\<close> ticks for every
  \<open>n\<close> below \<open>2 ^ 32 - 1\<close>, also if the sum wraps around; through \<open>n\<close> further ticks the
  alarm, whatever the others do, keeps its callback and context and has after \<open>k\<close> of them
  exactly \<open>n + 1 - k\<close> left, so it is not called before tick \<open>n + 1\<close>, which finds it due.
  An unset clock or a null pointer is refused.
\<close>

theorem alarm_fires_after:
  assumes r: "alarm_repr s as" "only_world run call" and a: "a \<noteq> alt_alarm_list" "a \<notin> fst ` set as"
    and "alt_tick_rate s \<noteq> 0" "n \<noteq> - 1"
  shows "\<exists>s0. alt_alarm_start (Some a) n cb ctx s = (0, s0) \<and> clock_cpu s0 = clock_cpu s \<and>
    (\<forall>k\<le>unat n. \<exists>sk bs. ticks run k s0 = Some sk \<and> alarm_repr sk bs \<and> (a, unat n + 1 - k) \<in> set bs \<and>
       al_callback (alarms sk a) = cb \<and> al_context (alarms sk a) = ctx) \<and>
    alt_alarm_start None n cb ctx s = (- EINVAL, s) \<and>
    alt_alarm_start (Some a) n cb ctx (s\<lparr>alt_tick_rate := 0\<rparr>) = (- ENOTSUP, s\<lparr>alt_tick_rate := 0\<rparr>)"
proof -
  from alarm_start_repr [OF r(1) a assms(5,6)] obtain s0 where
    s0: "alt_alarm_start (Some a) n cb ctx s = (0, s0)" "alarm_repr s0 ((a, unat n + 1) # as)"
    "clock_cpu s0 = clock_cpu s" "al_callback (alarms s0 a) = cb" "al_context (alarms s0 a) = ctx" by blast
  have "\<exists>sk bs. ticks run k s0 = Some sk \<and> alarm_repr sk bs \<and> (a, unat n + 1 - k) \<in> set bs \<and>
       al_callback (alarms sk a) = cb \<and> al_context (alarms sk a) = ctx" if "k \<le> unat n" for k
    using ticks_wait [OF r(2) s0(2), of a "unat n + 1" k] that s0(4,5) by auto
  with s0 assms(5) show ?thesis
    by (auto simp: alt_alarm_start_def alt_ticks_per_second_def)
qed

theorem alarm_fires_after_witness:
  "\<exists>s0 s1 bs. alt_alarm_start (Some 5) 1 7 9 demo_clock = (0, s0) \<and> ticks demo_run 1 s0 = Some s1 \<and>
     alarm_repr s1 bs \<and> (5, 1) \<in> set bs"
proof -
  from alarm_fires_after [OF demo_repr demo_run_world, of 5 1 7 9] obtain s0 where
    s0: "alt_alarm_start (Some 5) 1 7 9 demo_clock = (0, s0)"
    and all: "\<forall>k\<le>unat (1 :: alt_u32). \<exists>sk bs. ticks demo_run k s0 = Some sk \<and> alarm_repr sk bs \<and>
      (5, unat (1 :: alt_u32) + 1 - k) \<in> set bs \<and> al_callback (alarms sk 5) = 7 \<and> al_context (alarms sk 5) = 9"
    by (auto simp: demo_clock_sel)
  from all [rule_format, of 1] s0 show ?thesis by auto
qed

text \<open>A node that is linked to itself and not due is visited for ever.\<close>

lemma tick_self_loop:
  assumes "b \<noteq> alt_alarm_list" "ll_next (alarm_links s b) = b" "tick_alarm run b s = s"
  shows "tick_from run b s = None"
proof -
  have "tick_from run b s = Some r \<Longrightarrow> \<not> (b \<noteq> alt_alarm_list \<and> ll_next (alarm_links s b) = b \<and> tick_alarm run b s = s)"
    for b and s :: "'a clock" and r
    by (rule tick_from.raw_induct [of "\<lambda>run b s r. \<not> (b \<noteq> alt_alarm_list \<and> ll_next (alarm_links s b) = b \<and>
        tick_alarm run b s = s)" run b s r]) (auto split: if_splits, blast)
  with assms show ?thesis by (cases "tick_from run b s") auto
qed

lemma tick_alarm_idle:
  "alt_nticks s \<noteq> 0 \<Longrightarrow> \<not> (al_time (alarms s a) \<le> alt_nticks s \<and> al_rollover (alarms s a) = 0) \<Longrightarrow>
   tick_alarm run a s = s"
  by (simp only: tick_alarm_def Let_def if_False simp_thms)

text \<open>
  C33. Two ways alarms go wrong. With the largest period, \<open>2 ^ 32 - 1\<close> ticks, the time of a
  new alarm is the current tick without a rollover flag, and the very next tick calls it.
  And a callback that stops the alarm after its own in the list leaves that node linked to
  itself: \<open>alt_tick\<close>, which has already read the pointer to it, never returns.
\<close>

theorem alarm_corner_cases:
  assumes call: "only_world run call" and s: "alarm_repr s []" "alt_tick_rate s \<noteq> 0" "alt_nticks s \<noteq> - 1"
    and a: "a \<noteq> alt_alarm_list"
    and t: "alarm_repr t [(b, 1), (c, r)]" "r \<noteq> 1" "alt_nticks t + 1 \<noteq> 0"
    and stops: "\<And>s. stopper (al_callback (alarms t b)) (al_context (alarms t b)) s = (k, alt_alarm_stop c s)" "k \<noteq> 0"
  shows "(\<exists>s0 s1. alt_alarm_start (Some a) (- 1) cb ctx s = (0, s0) \<and> alt_tick run s0 = Some s1 \<and>
      clock_world s1 = snd (call cb ctx (clock_world s))) \<and>
    alt_tick stopper t = None"
proof
  let ?nt = "alt_nticks s"
  have nt: "unat (?nt + 1) = unat ?nt + 1" "?nt + 1 \<noteq> 0"
    using s(3) unat_plus32 [of ?nt 1] unat32_lt [of ?nt] by (auto simp: add_eq_0_iff2 unat_eq_zero split: if_splits)
  then have le: "?nt \<le> ?nt + 1" by (simp add: word_le_nat_alt)
  let ?al = "\<lparr>al_time = ?nt, al_callback = cb, al_rollover = 0, al_context = ctx\<rparr>"
  obtain s0 where s0: "alt_alarm_start (Some a) (- 1) cb ctx s = (0, s0)" "alarms s0 a = ?al" "alt_nticks s0 = ?nt"
    "alarm_links s0 = alt_llist_insert alt_alarm_list a (alarm_links s)" "clock_world s0 = clock_world s"
    using s(2) by (auto simp: alt_alarm_start_def alt_ticks_per_second_def with_cpu_def Let_def
        alt_irq_disable_all_def)
  have l: "llist_repr (alarm_links s0) alt_alarm_list [a]"
    using s(1) a unfolding s0(4) by (intro insert_repr) (auto simp: alarm_repr_def)
  then have n: "ll_next (alarm_links s0 alt_alarm_list) = a" "ll_next (alarm_links s0 a) = alt_alarm_list"
    by (simp_all add: llist_repr_def)
  let ?s = "s0\<lparr>alt_nticks := ?nt + 1\<rparr>"
  have w: "clock_world (tick_alarm run a ?s) = snd (call cb ctx (clock_world s))"
    using s0 le call by (auto simp: tick_alarm_def only_world_def Let_def)
  show "\<exists>s0 s1. alt_alarm_start (Some a) (- 1) cb ctx s = (0, s0) \<and> alt_tick run s0 = Some s1 \<and>
      clock_world s1 = snd (call cb ctx (clock_world s))"
    using s0(1,3) n w a by (simp add: alt_tick_def tick_from.simps)
next
  let ?t = "t\<lparr>alt_nticks := alt_nticks t + 1\<rparr>"
  have l: "llist_repr (alarm_links t) alt_alarm_list ([b] @ c # [])"
    and tl: "ticks_left (alt_nticks t) (alarms t b) 1" "ticks_left (alt_nticks t) (alarms t c) r"
    using t(1) by (simp_all add: alarm_repr_def)
  have n: "ll_next (alarm_links t alt_alarm_list) = b" "ll_next (alarm_links t b) = c"
    and ne: "b \<noteq> alt_alarm_list" "c \<noteq> alt_alarm_list" "b \<noteq> c"
    using l by (auto simp: llist_repr_def)
  have due: "al_time (alarms t b) \<le> alt_nticks t + 1 \<and> al_rollover (alarms t b) = 0"
    "\<not> (al_time (alarms t c) \<le> alt_nticks t + 1 \<and> al_rollover (alarms t c) = 0)"
    using due_iff(1) [OF tl(1)] due_iff(1) [OF tl(2)] t(2,3) by simp_all
  obtain al where b: "tick_alarm stopper b ?t = set_alarm b al (alt_alarm_stop c ?t)"
    using due(1) t(3) stops by (simp add: tick_alarm_def Let_def)
  let ?u = "set_alarm b al (alt_alarm_stop c ?t)"
  have "ll_next (alarm_links ?u c) = c" using remove_repr(2) [OF l] by simp
  moreover have "tick_alarm stopper c ?u = ?u" using due(2) t(3) ne by (intro tick_alarm_idle) simp_all
  ultimately have "tick_from stopper c ?u = None" using ne by (intro tick_self_loop)
  then show "alt_tick stopper t = None" using n ne b by (simp add: alt_tick_def tick_from.simps [of _ b])
qed

definition demo_two_alarms :: "nat clock" where
  "demo_two_alarms = demo_clock\<lparr>alt_nticks := 10,
     alarm_links := alt_llist_insert alt_alarm_list 5 (alt_llist_insert alt_alarm_list 6 (alarm_links demo_clock)),
     alarms := (\<lambda>_. \<lparr>al_time = 30, al_callback = 0, al_rollover = 0, al_context = 0\<rparr>)
       (5 := \<lparr>al_time = 11, al_callback = 1, al_rollover = 0, al_context = 0\<rparr>)\<rparr>"

theorem alarm_corner_cases_witness:
  "alt_tick (\<lambda>f c s. (1, alt_alarm_stop 6 s)) demo_two_alarms = None"
proof -
  have "llist_repr (alt_llist_insert alt_alarm_list 6 (alarm_links demo_clock)) alt_alarm_list [6]"
    using demo_repr by (intro insert_repr) (simp_all add: alarm_repr_def)
  then have "llist_repr (alarm_links demo_two_alarms) alt_alarm_list [5, 6]"
    by (simp add: demo_two_alarms_def insert_repr)
  then have "alarm_repr demo_two_alarms [(5, 1), (6, 20)]"
    by (simp add: alarm_repr_def ticks_left_def demo_two_alarms_def)
  from alarm_corner_cases [OF demo_run_world demo_repr _ _ _ this, of 7 "\<lambda>f c s. (1, alt_alarm_stop 6 s)" 1 0 0]
  show ?thesis by (simp add: demo_clock_sel demo_two_alarms_def)
qed

section \<open>Properties: time of day\<close>

lemma tod_in_range: "0 \<le> usec \<Longrightarrow> usec < ALT_US \<Longrightarrow> tod_borrow sec usec = (sec, usec) \<and> tod_carry sec usec = Inr (sec, usec)"
  by (simp add: tod_borrow.simps tod_carry.simps)

lemma uint_div_mult: "uint (a div b :: alt_u32) = uint a div uint b"
  by (simp add: uint_div)

text \<open>
  C34. Setting and reading the time of day. While the elapsed microseconds fit into 32 bits,
  reading the time without a tick in between returns exactly what was set (any seconds,
  microseconds in range) with the time zone. Reading takes the product in 64 bits and setting
  takes it in 32, so once they do not fit the two disagree: the time read back is the one set
  plus the difference of the two remainders. A stopped clock refuses both calls.
\<close>

theorem settimeofday_roundtrip:
  assumes rate: "alt_tick_rate s \<noteq> 0" and us: "uint (tv_usec t) < ALT_US"
  shows "\<exists>s'. alt_settimeofday t tz s = (0, s') \<and>
    (uint (alt_nticks s) * (ALT_US div uint (alt_tick_rate s)) < 2 ^ 32 \<longrightarrow>
       alt_gettimeofday s' = Inr (0, Some (sint (tv_sec t), uint (tv_usec t), tz))) \<and>
    (let e = uint (alt_nticks s) * (ALT_US div uint (alt_tick_rate s))
     in alt_gettimeofday s' =
          (let (sec, usec) = tod_borrow (sint (tv_sec t)) (uint (tv_usec t) + e mod ALT_US - (e mod 2 ^ 32) mod ALT_US)
           in res_bind (tod_carry sec usec) (\<lambda>(sec, usec). Inr (0, Some (sec, usec, tz))))) \<and>
    alt_settimeofday t tz (s\<lparr>alt_tick_rate := 0\<rparr>) = (- 1, s\<lparr>alt_tick_rate := 0, clock_errno := ENOSYS\<rparr>) \<and>
    alt_gettimeofday (s\<lparr>alt_tick_rate := 0\<rparr>) = Inr (- ENOTSUP, None)"
proof -
  let ?n = "alt_nticks s" and ?r = "alt_tick_rate s"
  define e where "e = uint ?n * (ALT_US div uint ?r)"
  let ?p = "(?n * (1000000 div ?r)) mod 1000000"
  let ?s = "s\<lparr>alt_resettime := \<lparr>tv_sec = tv_sec t - ?n div ?r, tv_usec = tv_usec t - ?p\<rparr>, alt_timezone := tz\<rparr>"
  have set: "alt_settimeofday t tz s = (0, ?s)"
    using rate by (simp add: alt_settimeofday_def alt_ticks_per_second_def Let_def)
  have p: "uint ?p = (e mod 2 ^ 32) mod ALT_US"
    by (simp add: e_def uint_mod uint_div_mult uint_word_ariths)
  have e0: "0 \<le> e" by (simp add: e_def zero_le_mult_iff div_int_pos_iff)
  let ?d = "uint (tv_usec t) + e mod ALT_US - (e mod 2 ^ 32) mod ALT_US"
  have pw: "?p = word_of_int ((e mod 2 ^ 32) mod ALT_US)" by (metis p word_of_int_uint)
  have "tv_usec t - ?p + word_of_int (e mod ALT_US) =
      word_of_int (uint (tv_usec t)) - word_of_int ((e mod 2 ^ 32) mod ALT_US) + word_of_int (e mod ALT_US)"
    by (simp only: pw word_of_int_uint)
  also have "\<dots> = word_of_int ?d" by simp
  finally have w: "tv_usec t - ?p + word_of_int (e mod ALT_US) = word_of_int ?d" .
  have "- ALT_US < ?d" "?d < 2 * ALT_US"
  proof -
    have "0 \<le> e mod ALT_US" "e mod ALT_US < ALT_US" "0 \<le> (e mod 2 ^ 32) mod ALT_US"
      "(e mod 2 ^ 32) mod ALT_US < ALT_US" by simp_all
    then show "- ALT_US < ?d" "?d < 2 * ALT_US" using us uint_ge_0 [of "tv_usec t"] by linarith+
  qed
  then have usec: "sint (tv_usec t - ?p + word_of_int (e mod ALT_US)) = ?d"
    unfolding w by (intro sint_word_of_int32) simp_all
  have get: "alt_gettimeofday ?s = (let (sec, usec) = tod_borrow (sint (tv_sec t)) ?d
      in res_bind (tod_carry sec usec) (\<lambda>(sec, usec). Inr (0, Some (sec, usec, tz))))"
    using rate usec by (simp add: alt_gettimeofday_def alt_ticks_per_second_def Let_def e_def)
  have "alt_gettimeofday ?s = Inr (0, Some (sint (tv_sec t), uint (tv_usec t), tz))" if "e < 2 ^ 32"
  proof -
    have "?d = uint (tv_usec t)" using that e0 by simp
    then show ?thesis using get tod_in_range [of "uint (tv_usec t)"] us by simp
  qed
  moreover have "alt_settimeofday t tz (s\<lparr>alt_tick_rate := 0\<rparr>) = (- 1, s\<lparr>alt_tick_rate := 0, clock_errno := ENOSYS\<rparr>)"
    "alt_gettimeofday (s\<lparr>alt_tick_rate := 0\<rparr>) = Inr (- ENOTSUP, None)"
    by (simp_all add: alt_settimeofday_def alt_gettimeofday_def alt_ticks_per_second_def)
  ultimately show ?thesis
    using set get unfolding e_def Let_def by (intro exI [of _ ?s] conjI impI)
qed

theorem settimeofday_roundtrip_witness:
  "let s = demo_clock\<lparr>alt_nticks := 4294968\<rparr>; t = \<lparr>tv_sec = 9, tv_usec = 5\<rparr>; tz = alt_timezone demo_clock
   in alt_gettimeofday (snd (alt_settimeofday t tz s)) = Inr (0, Some (9, 967301, tz)) \<and>
      alt_gettimeofday (snd (alt_settimeofday t tz (s\<lparr>alt_nticks := 7\<rparr>))) = Inr (0, Some (9, 5, tz))"
proof -
  let ?s = "demo_clock\<lparr>alt_nticks := 4294968\<rparr>" and ?t = "\<lparr>tv_sec = 9, tv_usec = 5\<rparr>"
  have "alt_gettimeofday (snd (alt_settimeofday ?t tz ?s)) = Inr (0, Some (9, 967301, tz))" for tz
    using settimeofday_roundtrip [of ?s ?t tz]
    by (auto simp: demo_clock_sel Let_def tod_borrow.simps tod_carry.simps)
  moreover have "alt_gettimeofday (snd (alt_settimeofday ?t tz (?s\<lparr>alt_nticks := 7\<rparr>))) = Inr (0, Some (9, 5, tz))" for tz
    using settimeofday_roundtrip [of "?s\<lparr>alt_nticks := 7\<rparr>" ?t tz] by (auto simp: demo_clock_sel)
  ultimately show ?thesis by (simp add: Let_def)
qed

text \<open>
  The clock runs true. Before any \<open>settimeofday\<close>, with a tick rate that divides a
  million, \<open>gettimeofday\<close> returns normalised seconds and microseconds whose sum is exactly the
  number of ticks times the length of a tick, for every value of the 32-bit tick counter;
  and the first \<open>alt_sysclk_init\<close> sets that rate while later ones are refused.
\<close>

lemma gettimeofday_exact:
  assumes "alt_resettime s = \<lparr>tv_sec = 0, tv_usec = 0\<rparr>" and rate: "0 < uint (alt_tick_rate s)"
    and dvd: "uint (alt_tick_rate s) dvd ALT_US" and small: "1 < uint (alt_tick_rate s)"
  shows "\<exists>sec usec. alt_gettimeofday s = Inr (0, Some (sec, usec, alt_timezone s)) \<and>
    0 \<le> usec \<and> usec < ALT_US \<and>
    sec * ALT_US + usec = uint (alt_nticks s) * (ALT_US div uint (alt_tick_rate s)) \<and>
    alt_sysclk_init r s = (- 1, s) \<and>
    alt_sysclk_init r (s\<lparr>alt_tick_rate := 0\<rparr>) = (0, s\<lparr>alt_tick_rate := r\<rparr>)"
proof -
  define n where "n = uint (alt_nticks s)"
  define k where "k = uint (alt_tick_rate s)"
  obtain u where u: "ALT_US = k * u" using dvd unfolding k_def by (rule dvdE)
  have k: "1 < k" "0 \<le> n" "n < 2 ^ 32" using small uint_lt2p [of "alt_nticks s"] by (simp_all add: k_def n_def)
  have "0 < k * u" using u by linarith
  then have u0: "0 < u" "ALT_US div k = u" using k unfolding u by (simp_all add: zero_less_mult_iff)
  have "n * u = (n div k * k + n mod k) * u" by simp
  also have "\<dots> = (n div k) * ALT_US + (n mod k) * u" unfolding u by (simp only: distrib_right mult.assoc)
  finally have split: "n * u = (n div k) * ALT_US + (n mod k) * u" .
  have r: "0 \<le> (n mod k) * u" "(n mod k) * u < ALT_US"
    unfolding u using u0 k by (simp_all add: mult_less_cancel_right)
  then have m: "(n * u) mod ALT_US = (n mod k) * u" unfolding split by simp
  have "n div k \<le> n div 2" using k by (intro zdiv_mono2) auto
  then have q: "0 \<le> n div k" "n div k < 2 ^ 31"
    using k by (simp_all add: pos_imp_zdiv_nonneg_iff)
  have sec: "sint (0 + alt_nticks s div alt_tick_rate s) = n div k"
    using q by (simp add: sint_signed32 uint_div_mult n_def k_def)
  have usec: "sint (0 + word_of_int ((n * u) mod ALT_US) :: alt_u32) = (n mod k) * u"
    using r unfolding m add_0 by (intro sint_word_of_int32) simp_all
  have "alt_gettimeofday s = Inr (0, Some (n div k, (n mod k) * u, alt_timezone s))"
    using assms(1) small sec usec u0(2) tod_in_range [OF r]
    by (auto simp: alt_gettimeofday_def alt_ticks_per_second_def Let_def n_def k_def)
  then show ?thesis
    using r split u0 small by (auto simp: n_def k_def alt_sysclk_init_def)
qed

section \<open>Properties: the delay loop\<close>

lemma big_delays_eq: "big_delays n per us = (n * (2 ^ 31 - 1), us - of_nat n * per)"
proof -
  have "bne_turns (word_of_int INT_MAX) = 2 ^ 31 - 1" by (simp add: bne_turns_def)
  then show ?thesis by (induction n arbitrary: us) (simp_all only: big_delays.simps, simp_all add: algebra_simps)
qed

lemma delay_enough:
  fixes u q r :: nat
  assumes "u = q * 429496729 + r"
  shows "5 * u \<le> (if q = 0 then max 1 (5 * u) else q * (2 ^ 31 - 1) + (if r = 0 then 2 ^ 32 else 5 * r))"
proof (cases "q = 0")
  case False
  have "5 * u = q * 2147483645 + 5 * r" using assms by simp
  then show ?thesis using False by simp
qed simp

text \<open>
  C35. \<open>usleep\<close> on this processor. A microsecond is 5 turns of the delay loop; a request of up to
  429496728 microseconds takes exactly 5 turns each (one turn at least), and a longer one
  \<open>2 ^ 31 - 1\<close> turns for each block of 429496729 and 5 per microsecond for the rest, so never
  fewer than were asked for. When nothing is left after the blocks, though, the last loop
  starts its counter at zero, which costs \<open>2 ^ 32\<close> turns too many.
\<close>

theorem usleep_turns:
  "alt_usleep us =
     (0, let q = unat us div 429496729; r = unat us mod 429496729
         in if q = 0 then max 1 (5 * unat us)
            else q * (2 ^ 31 - 1) + (if r = 0 then 2 ^ 32 else 5 * r)) \<and>
   5 * unat us \<le> snd (alt_usleep us)"
proof -
  let ?per = "429496729 :: nat"
  let ?q = "unat us div ?per" and ?r = "unat us mod ?per"
  have r: "?r < ?per" by simp
  have q: "unat (us div 429496729) = ?q" by (simp add: unat_div)
  have u: "unat us = ?q * ?per + ?r" by simp
  have rest: "us - of_nat ?q * 429496729 = of_nat ?r"
  proof -
    have "us = of_nat (unat us)" by simp
    also have "\<dots> = of_nat ?q * 429496729 + of_nat ?r" by (subst u) (simp only: of_nat_add of_nat_mult of_nat_numeral)
    finally show ?thesis by (simp add: algebra_simps)
  qed
  have five: "unat (of_nat n * 5 :: alt_u32) = 5 * n" if "n < ?per" for n
    using that by (simp add: unat_word_ariths unat_of_nat)
  have b5: "bne_turns (of_nat n * 5) = (if n = 0 then 2 ^ 32 else 5 * n)" if "n < ?per" for n
    using five [OF that] by (auto simp: bne_turns_def simp flip: unat_eq_zero)
  have "alt_busy_sleep us = (0, if ?q = 0 then max 1 (5 * unat us)
            else ?q * (2 ^ 31 - 1) + (if ?r = 0 then 2 ^ 32 else 5 * ?r))"
  proof (cases "?q = 0")
    case True
    then have s: "unat us < ?per" by (simp add: div_eq_0_iff)
    have "us div 429496729 = 0" using q True by (simp flip: unat_eq_zero)
    moreover have "bgt_turns (us * 5) = max 1 (5 * unat us)"
    proof -
      have f: "unat (us * 5) = 5 * unat us" using five [OF s] by simp
      have "uint (us * 5) = int (unat (us * 5))" by simp
      then have "sint (us * 5) = int (5 * unat us)"
      proof -
        assume "uint (us * 5) = int (unat (us * 5))"
        then have "uint (us * 5) = int (5 * unat us)" by (simp only: f)
        moreover have "5 * unat us < 2 ^ 31" using s by simp
        then have "int (5 * unat us) < int (2 ^ 31)" by (simp only: of_nat_less_iff)
        then have "int (5 * unat us) < 2 ^ 31" by (simp only: of_nat_power of_nat_numeral)
        ultimately show ?thesis by (simp only: sint_signed32 if_True)
      qed
      then have "0 < sint (us * 5) \<longleftrightarrow> 0 < unat us" by linarith
      moreover have "us * 5 \<noteq> 0x80000000"
      proof
        assume "us * 5 = 0x80000000"
        then have "5 * unat us = unat (0x80000000 :: alt_u32)" using f by (simp only:)
        then show False by simp presburger
      qed
      ultimately show ?thesis using f by (auto simp: bgt_turns_def max_def)
    qed
    ultimately show ?thesis using True by (simp add: alt_busy_sleep_def cycles_per_loop_def Let_def)
  next
    case False
    then have "us div 429496729 \<noteq> 0" using q by auto
    then show ?thesis
      using False b5 [OF r] by (simp add: alt_busy_sleep_def cycles_per_loop_def Let_def big_delays_eq q rest)
  qed
  moreover note delay_enough [OF u]
  ultimately show ?thesis unfolding alt_usleep_def Let_def by (simp only: snd_conv simp_thms)
qed

end
