(* ===== verification/Ring.thy ===== *)
theory Ring
  imports HAL_Prelude
begin

text \<open>
  The ring buffers of the JTAG UART driver: 2048 slots, an index where the producer writes
  next and one where the consumer reads next, one slot always left empty. \<open>ring\<close> is the
  sequence of bytes between the two; single-byte and block operations refine appending to
  it and dropping from it.
\<close>

abbreviation (input) BUF_LEN :: nat where "BUF_LEN \<equiv> 2048"

definition ring_used :: "nat \<Rightarrow> nat \<Rightarrow> nat" where
  "ring_used inx out = (if out \<le> inx then inx - out else inx + BUF_LEN - out)"

definition ring :: "'a list \<Rightarrow> nat \<Rightarrow> nat \<Rightarrow> 'a list" where
  "ring buf inx out = map (\<lambda>k. buf ! ((out + k) mod BUF_LEN)) [0..<ring_used inx out]"

definition ring_ok :: "'a list \<Rightarrow> nat \<Rightarrow> nat \<Rightarrow> bool" where
  "ring_ok buf inx out \<longleftrightarrow> length buf = BUF_LEN \<and> inx < BUF_LEN \<and> out < BUF_LEN"

lemma length_ring [simp]: "length (ring buf inx out) = ring_used inx out"
  by (simp add: ring_def)

lemma ring_used_lt: "ring_ok buf inx out \<Longrightarrow> ring_used inx out < BUF_LEN"
  by (auto simp: ring_ok_def ring_used_def)

lemma ring_empty_iff: "ring_ok buf inx out \<Longrightarrow> ring buf inx out = [] \<longleftrightarrow> inx = out"
  by (auto simp: ring_def ring_used_def ring_ok_def)

lemma wrap_add: "a < BUF_LEN \<Longrightarrow> b \<le> BUF_LEN \<Longrightarrow> (a + b) mod BUF_LEN = (if a + b < BUF_LEN then a + b else a + b - BUF_LEN)"
  by (rule add_mod_wrap)

lemma wrap_Suc: "a < BUF_LEN \<Longrightarrow> Suc a mod BUF_LEN = (if Suc a < BUF_LEN then Suc a else 0)"
  by (simp add: mod_Suc)

lemma nth_ring: "k < ring_used inx out \<Longrightarrow> ring buf inx out ! k = buf ! ((out + k) mod BUF_LEN)"
  by (simp add: ring_def)

text \<open>The index after the last used slot is the producer's.\<close>

lemma ring_end: "ring_ok buf inx out \<Longrightarrow> (out + ring_used inx out) mod BUF_LEN = inx"
  by (auto simp: ring_ok_def ring_used_def)

lemma ring_used_advance_in:
  "ring_ok buf inx out \<Longrightarrow> n + ring_used inx out < BUF_LEN \<Longrightarrow>
   ring_used ((inx + n) mod BUF_LEN) out = ring_used inx out + n"
  by (auto simp: ring_ok_def ring_used_def wrap_add split: if_splits)

lemma ring_used_advance_out:
  "ring_ok buf inx out \<Longrightarrow> n \<le> ring_used inx out \<Longrightarrow>
   ring_used inx ((out + n) mod BUF_LEN) = ring_used inx out - n"
  by (auto simp: ring_ok_def ring_used_def wrap_add split: if_splits)

lemma ring_full_iff:
  "ring_ok buf inx out \<Longrightarrow> (inx + 1) mod BUF_LEN = out \<longleftrightarrow> ring_used inx out = BUF_LEN - 1"
  by (auto simp: ring_ok_def ring_used_def wrap_Suc split: if_splits)

section \<open>Producing\<close>

text \<open>Writing a block of bytes from position \<open>i\<close> on, as \<open>memcpy\<close> does.\<close>

definition blit :: "nat \<Rightarrow> 'a list \<Rightarrow> 'a list \<Rightarrow> 'a list" where
  "blit i xs buf = take i buf @ xs @ drop (i + length xs) buf"

lemma length_blit [simp]: "i + length xs \<le> length buf \<Longrightarrow> length (blit i xs buf) = length buf"
  by (simp add: blit_def)

lemma nth_blit:
  "i + length xs \<le> length buf \<Longrightarrow> j < length buf \<Longrightarrow>
   blit i xs buf ! j = (if i \<le> j \<and> j < i + length xs then xs ! (j - i) else buf ! j)"
  by (auto simp: blit_def nth_append min_def)

lemma ring_blit:
  assumes ok: "ring_ok buf inx out" and fits: "inx + length xs \<le> BUF_LEN"
    and room: "length xs + ring_used inx out < BUF_LEN"
  shows "ring (blit inx xs buf) ((inx + length xs) mod BUF_LEN) out = ring buf inx out @ xs"
    and "ring_ok (blit inx xs buf) ((inx + length xs) mod BUF_LEN) out"
proof -
  let ?u = "ring_used inx out"
  have len: "length buf = BUF_LEN" "inx < BUF_LEN" "out < BUF_LEN" using ok by (simp_all add: ring_ok_def)
  show "ring_ok (blit inx xs buf) ((inx + length xs) mod BUF_LEN) out"
    using len fits by (simp add: ring_ok_def)
  show "ring (blit inx xs buf) ((inx + length xs) mod BUF_LEN) out = ring buf inx out @ xs"
  proof (rule nth_equalityI)
    show "length (ring (blit inx xs buf) ((inx + length xs) mod BUF_LEN) out) = length (ring buf inx out @ xs)"
      using ring_used_advance_in [OF ok room] by simp
    fix k assume "k < length (ring (blit inx xs buf) ((inx + length xs) mod BUF_LEN) out)"
    then have k: "k < ?u + length xs" using ring_used_advance_in [OF ok room] by simp
    then have l: "ring (blit inx xs buf) ((inx + length xs) mod BUF_LEN) out ! k
        = blit inx xs buf ! ((out + k) mod BUF_LEN)"
      using ring_used_advance_in [OF ok room] by (simp add: nth_ring)
    have p: "(out + k) mod BUF_LEN = (if out + k < BUF_LEN then out + k else out + k - BUF_LEN)"
      using len k room by (intro wrap_add) simp_all
    show "ring (blit inx xs buf) ((inx + length xs) mod BUF_LEN) out ! k = (ring buf inx out @ xs) ! k"
    proof (cases "k < ?u")
      case True
      then have "\<not> (inx \<le> (out + k) mod BUF_LEN \<and> (out + k) mod BUF_LEN < inx + length xs)"
        unfolding p using len room fits by (auto simp: ring_used_def split: if_splits)
      then show ?thesis
        unfolding l using True len fits by (auto simp: nth_blit nth_append nth_ring)
    next
      case False
      then have "(out + k) mod BUF_LEN = inx + (k - ?u)"
        unfolding p using len room fits k by (auto simp: ring_used_def split: if_splits)
      then show ?thesis
        unfolding l using False k len fits by (auto simp: nth_blit nth_append not_less le_iff_add)
    qed
  qed
qed

text \<open>A block written where the producer writes next is not yet part of the ring.\<close>

lemma ring_blit_outside:
  assumes ok: "ring_ok buf inx out" and fits: "inx + length xs \<le> BUF_LEN"
    and room: "length xs + ring_used inx out < BUF_LEN"
  shows "ring (blit inx xs buf) inx out = ring buf inx out" "ring_ok (blit inx xs buf) inx out"
proof -
  have "ring (blit inx xs buf) inx out =
      take (ring_used inx out) (ring (blit inx xs buf) ((inx + length xs) mod BUF_LEN) out)"
    using ring_used_advance_in [OF ok room] by (simp add: ring_def take_map)
  then show "ring (blit inx xs buf) inx out = ring buf inx out"
    using ring_blit(1) [OF ok fits room] by simp
  show "ring_ok (blit inx xs buf) inx out" using ok fits by (simp add: ring_ok_def)
qed

lemma blit_again: "i + length xs \<le> length buf \<Longrightarrow> blit i xs (blit i xs buf) = blit i xs buf"
  by (cases xs) (auto simp: blit_def min_def)

lemma ring_push:
  assumes "ring_ok buf inx out" "(inx + 1) mod BUF_LEN \<noteq> out"
  shows "ring (buf[inx := b]) ((inx + 1) mod BUF_LEN) out = ring buf inx out @ [b]"
    and "ring_ok (buf[inx := b]) ((inx + 1) mod BUF_LEN) out"
proof -
  have u: "ring_used inx out \<noteq> BUF_LEN - 1" using assms ring_full_iff by blast
  then have "length [b] + ring_used inx out < BUF_LEN" using ring_used_lt [OF assms(1)] by simp
  moreover have "inx + length [b] \<le> BUF_LEN" "buf[inx := b] = blit inx [b] buf"
    using assms(1) by (auto simp: ring_ok_def blit_def upd_conv_take_nth_drop)
  ultimately show "ring (buf[inx := b]) ((inx + 1) mod BUF_LEN) out = ring buf inx out @ [b]"
    and "ring_ok (buf[inx := b]) ((inx + 1) mod BUF_LEN) out"
    using ring_blit [OF assms(1), of "[b]"] by simp_all
qed

section \<open>Consuming\<close>

lemma ring_drop:
  assumes ok: "ring_ok buf inx out" and n: "n \<le> ring_used inx out"
  shows "ring buf inx ((out + n) mod BUF_LEN) = drop n (ring buf inx out)"
    and "ring_ok buf inx ((out + n) mod BUF_LEN)"
proof -
  show "ring_ok buf inx ((out + n) mod BUF_LEN)" using ok by (simp add: ring_ok_def)
  show "ring buf inx ((out + n) mod BUF_LEN) = drop n (ring buf inx out)"
  proof (rule nth_equalityI)
    fix k assume "k < length (ring buf inx ((out + n) mod BUF_LEN))"
    then have k: "k < ring_used inx ((out + n) mod BUF_LEN)" "n + k < ring_used inx out"
      using ring_used_advance_out [OF ok n] by simp_all
    have "((out + n) mod BUF_LEN + k) mod BUF_LEN = (out + (n + k)) mod BUF_LEN"
      by (simp only: mod_add_left_eq add.assoc)
    with k show "ring buf inx ((out + n) mod BUF_LEN) ! k = drop n (ring buf inx out) ! k"
      using n by (simp add: nth_ring)
  qed (use ring_used_advance_out [OF ok n] in simp)
qed

text \<open>A block that does not wrap around is a plain piece of the buffer.\<close>

lemma ring_block:
  assumes ok: "ring_ok buf inx out" and n: "n \<le> ring_used inx out" "out + n \<le> BUF_LEN"
  shows "take n (drop out buf) = take n (ring buf inx out)"
  using assms ring_used_lt [OF ok]
  by (intro nth_equalityI) (auto simp: ring_def ring_ok_def)

lemma ring_head: "ring_ok buf inx out \<Longrightarrow> inx \<noteq> out \<Longrightarrow> buf ! out = hd (ring buf inx out)"
  by (auto simp: ring_def ring_ok_def ring_used_def hd_map hd_conv_nth)

section \<open>The interface\<close>

text \<open>
  A bounded queue: what the two ends of a buffer may rely on. The lemma over whole traces
  is proved once here, from the laws alone.
\<close>

datatype 'a queue_op = Enq 'a | Deq

locale byte_queue =
  fixes good :: "'s \<Rightarrow> bool" and content :: "'s \<Rightarrow> 'a list" and room :: "'s \<Rightarrow> bool"
    and enq :: "'a \<Rightarrow> 's \<Rightarrow> 's" and deq :: "'s \<Rightarrow> 's"
  assumes enq: "good s \<Longrightarrow> room s \<Longrightarrow> good (enq b s) \<and> content (enq b s) = content s @ [b]"
    and deq: "good s \<Longrightarrow> content s \<noteq> [] \<Longrightarrow> good (deq s) \<and> content (deq s) = tl (content s)"
begin

text \<open>Operations in any order, those without room or content skipped; what came out is logged.\<close>

fun trace :: "'a queue_op list \<Rightarrow> 's \<Rightarrow> 'a list \<times> 'a list \<times> 's" where
  "trace [] s = ([], [], s)"
| "trace (Enq b # ops) s =
     (if room s then let (i, o', s') = trace ops (enq b s) in (b # i, o', s') else trace ops s)"
| "trace (Deq # ops) s =
     (if content s = [] then trace ops s
      else let (i, o', s') = trace ops (deq s) in (i, hd (content s) # o', s'))"

text \<open>First in, first out: nothing lost, nothing twice, nothing out of order.\<close>

lemma fifo:
  "good s \<Longrightarrow> trace ops s = (i, o', s') \<Longrightarrow> good s' \<and> content s @ i = o' @ content s'"
proof (induction ops arbitrary: s i o')
  case (Cons op ops)
  show ?case
  proof (cases op)
    case (Enq b)
    show ?thesis
    proof (cases "room s")
      case True
      with Cons.prems Enq obtain i' where t: "trace ops (enq b s) = (i', o', s')" "i = b # i'"
        by (auto split: prod.splits)
      then show ?thesis using Cons.IH [OF _ t(1)] enq [OF Cons.prems(1) True] by simp
    qed (use Cons Enq in simp)
  next
    case Deq
    show ?thesis
    proof (cases "content s = []")
      case False
      with Cons.prems Deq obtain q where t: "trace ops (deq s) = (i, q, s')" "o' = hd (content s) # q"
        by (auto split: prod.splits)
      then show ?thesis using Cons.IH [OF _ t(1)] deq [OF Cons.prems(1) False] False
        by (cases "content s") simp_all
    qed (use Cons.IH [OF Cons.prems(1)] Cons.prems(2) Deq in simp)
  qed
qed simp

end

text \<open>The ring buffer, as a triple of its storage and its two indices, is such a queue.\<close>

definition ring_enq :: "'a \<Rightarrow> 'a list \<times> nat \<times> nat \<Rightarrow> 'a list \<times> nat \<times> nat" where
  "ring_enq b = (\<lambda>(buf, inx, out). (buf[inx := b], (inx + 1) mod BUF_LEN, out))"

definition ring_deq :: "'a list \<times> nat \<times> nat \<Rightarrow> 'a list \<times> nat \<times> nat" where
  "ring_deq = (\<lambda>(buf, inx, out). (buf, inx, (out + 1) mod BUF_LEN))"

interpretation rq: byte_queue "\<lambda>(buf, inx, out). ring_ok buf inx out" "\<lambda>(buf, inx, out). ring buf inx out"
  "\<lambda>(buf, inx, out). (inx + 1) mod BUF_LEN \<noteq> out" ring_enq ring_deq
proof (unfold_locales, goal_cases)
  case (1 s b)
  then show ?case using ring_push by (auto simp: ring_enq_def split: prod.splits)
next
  case (2 s)
  then obtain buf inx out where s: "s = (buf, inx, out)" "ring_ok buf inx out" "ring buf inx out \<noteq> []"
    by (cases s) auto
  then have "1 \<le> ring_used inx out" by (metis length_0_conv length_ring less_one linorder_not_le)
  from ring_drop [OF s(2) this] s(1) show ?case by (simp add: ring_deq_def drop_Suc)
qed

end
