(* ===== verification/Jtag_Uart.thy ===== *)
theory Jtag_Uart
  imports Ring Clock File_Ops
begin

text \<open>
  The JTAG UART: its register interface as the hardware description
  \<open>final_project_soc_jtag_uart_0.v\<close> gives it, seen one bus access at a time, and the
  interrupt-driven driver (\<open>altera_avalon_jtag_uart_init.c\<close>, \<open>_read.c\<close>, \<open>_write.c\<close>,
  \<open>_ioctl.c\<close>, \<open>_fd.c\<close>). Semaphores and event flags are empty macros in this build.
\<close>

section \<open>The hardware\<close>

text \<open>
  The two 64-byte FIFOs (\<open>rfifo\<close> from the host, \<open>wfifo\<close> to it) and the flip-flops. Status
  flags that follow a FIFO's fill with a clock of delay are taken as settled. \<open>typed\<close> and
  \<open>shown\<close> are the host's terminal: all bytes it put into \<open>rfifo\<close>, all it took from \<open>wfifo\<close>.
\<close>

record juart =
  rfifo :: "alt_u8 list"
  wfifo :: "alt_u8 list"
  ien_AF :: bool
  ien_AE :: bool
  jac :: bool
  pause_irq :: bool
  rvalid :: bool
  woverflow :: bool
  typed :: "alt_u8 list"
  shown :: "alt_u8 list"

abbreviation (input) FIFO_LEN :: nat where "FIFO_LEN \<equiv> 64"

definition ipen_AF :: "juart \<Rightarrow> bool" where
  "ipen_AF h \<longleftrightarrow> ien_AF h \<and> (pause_irq h \<or> FIFO_LEN - length (rfifo h) \<le> 8)"

definition ipen_AE :: "juart \<Rightarrow> bool" where
  "ipen_AE h \<longleftrightarrow> ien_AE h \<and> length (wfifo h) \<le> 8"

definition av_irq :: "juart \<Rightarrow> bool" where
  "av_irq h \<longleftrightarrow> ipen_AE h \<or> ipen_AF h"

definition at_bit :: "nat \<Rightarrow> bool \<Rightarrow> alt_u32" where
  "at_bit n b = (if b then push_bit n 1 else 0)"

text \<open>The bits 15 to 8 that both registers share.\<close>

definition av_flags :: "juart \<Rightarrow> alt_u32" where
  "av_flags h = at_bit 15 (rvalid h) OR at_bit 14 (woverflow h) OR at_bit 13 (length (wfifo h) < FIFO_LEN) OR
     at_bit 12 (rfifo h \<noteq> []) OR at_bit 10 (jac h) OR at_bit 9 (ipen_AE h) OR at_bit 8 (ipen_AF h)"

definition av_upper :: "nat \<Rightarrow> alt_u32" where
  "av_upper k = push_bit 16 (of_nat k)"

text \<open>Reading the data register takes a byte out, if there is one; the low byte is stale if not.\<close>

definition rd_data :: "juart \<Rightarrow> alt_u32 \<times> juart" where
  "rd_data h =
     (let b = (case rfifo h of [] \<Rightarrow> 0 | b # bs \<Rightarrow> b);
          h = h\<lparr>rvalid := rfifo h \<noteq> [], rfifo := tl (rfifo h), pause_irq := False\<rparr>
      in (av_upper (length (rfifo h)) OR av_flags h OR ucast b, h))"

definition rd_control :: "juart \<Rightarrow> alt_u32" where
  "rd_control h = av_upper (FIFO_LEN - length (wfifo h)) OR av_flags h OR at_bit 1 (ien_AE h) OR at_bit 0 (ien_AF h)"

definition wr_data :: "alt_u8 \<Rightarrow> juart \<Rightarrow> juart" where
  "wr_data b h =
     (if length (wfifo h) < FIFO_LEN then h\<lparr>wfifo := wfifo h @ [b], woverflow := False\<rparr>
      else h\<lparr>woverflow := True\<rparr>)"

definition wr_control :: "alt_u32 \<Rightarrow> juart \<Rightarrow> juart" where
  "wr_control w h = h\<lparr>ien_AF := bit w 0, ien_AE := bit w 1, jac := jac h \<and> \<not> bit w 10\<rparr>"

text \<open>The host's side: it pushes a byte, takes one, or polls, which also raises the pause flag.\<close>

definition host_send :: "alt_u8 \<Rightarrow> juart \<Rightarrow> juart" where
  "host_send b h =
     (if length (rfifo h) < FIFO_LEN then h\<lparr>rfifo := rfifo h @ [b], typed := typed h @ [b], jac := True\<rparr>
      else h\<lparr>jac := True\<rparr>)"

definition host_take :: "juart \<Rightarrow> juart" where
  "host_take h = h\<lparr>wfifo := tl (wfifo h), shown := shown h @ take 1 (wfifo h)\<rparr>"

definition host_poll :: "juart \<Rightarrow> juart" where
  "host_poll h = h\<lparr>jac := True, pause_irq := pause_irq h \<or> rfifo h \<noteq> []\<rparr>"

abbreviation (input) RE_MSK :: alt_u32 where "RE_MSK \<equiv> 0x1"
abbreviation (input) WE_MSK :: alt_u32 where "WE_MSK \<equiv> 0x2"
abbreviation (input) RI_MSK :: alt_u32 where "RI_MSK \<equiv> 0x100"
abbreviation (input) WI_MSK :: alt_u32 where "WI_MSK \<equiv> 0x200"
abbreviation (input) AC_MSK :: alt_u32 where "AC_MSK \<equiv> 0x400"
abbreviation (input) WSPACE_MSK :: alt_u32 where "WSPACE_MSK \<equiv> 0xFFFF0000"
abbreviation (input) DATA_MSK :: alt_u32 where "DATA_MSK \<equiv> 0xFF"
abbreviation (input) RVALID_MSK :: alt_u32 where "RVALID_MSK \<equiv> 0x8000"
abbreviation (input) RAVAIL_MSK :: alt_u32 where "RAVAIL_MSK \<equiv> 0xFFFF0000"

section \<open>What the masks read\<close>

lemma bit_at_bit: "n < 32 \<Longrightarrow> bit (at_bit n b) m \<longleftrightarrow> b \<and> m = n"
  using bit_single [of n m] by (simp add: at_bit_def)

lemma bit_av_upper: "bit (av_upper k) m \<longleftrightarrow> 16 \<le> m \<and> m < 32 \<and> bit k (m - 16)"
  by (auto simp: av_upper_def bit_simps dest: bit_imp_le_length)

lemma bit_av_flags: "bit (av_flags h) m \<longleftrightarrow> rvalid h \<and> m = 15 \<or> woverflow h \<and> m = 14 \<or>
    length (wfifo h) < FIFO_LEN \<and> m = 13 \<or> rfifo h \<noteq> [] \<and> m = 12 \<or> jac h \<and> m = 10 \<or> ipen_AE h \<and> m = 9 \<or> ipen_AF h \<and> m = 8"
  by (auto simp: av_flags_def bit_or_iff bit_at_bit)

lemma bit_ucast8: "bit (ucast (b :: alt_u8) :: alt_u32) m \<longleftrightarrow> bit b m \<and> m < 8"
  using bit_imp_le_length [of b m] by (auto simp: bit_simps)

lemma test_bits:
  "w AND 0x100 = 0 \<longleftrightarrow> \<not> bit w 8" "w AND 0x200 = 0 \<longleftrightarrow> \<not> bit w 9" "w AND 0x400 = 0 \<longleftrightarrow> \<not> bit w 10"
  "w AND 0x8000 = 0 \<longleftrightarrow> \<not> bit w 15" for w :: alt_u32
  using and_single_eq_0 [of 8 w] and_single_eq_0 [of 9 w] and_single_eq_0 [of 10 w] and_single_eq_0 [of 15 w]
  by simp_all

lemma test_two: "w AND 0x300 = 0 \<longleftrightarrow> \<not> bit w 8 \<and> \<not> bit w 9" for w :: alt_u32
proof -
  have "w AND 0x300 = (w AND 0x100) OR (w AND 0x200)" by (simp flip: bit.conj_disj_distrib)
  then show ?thesis using test_bits(1,2) [of w] by (metis or_eq_0_iff)
qed

lemma upper_half: "w AND 0xFFFF0000 = 0 \<longleftrightarrow> (\<forall>n<32. 16 \<le> n \<longrightarrow> \<not> bit w n)"
    "drop_bit 16 (w AND 0xFFFF0000) = drop_bit 16 w" for w :: alt_u32
proof -
  have m: "(0xFFFF0000 :: alt_u32) = NOT (mask 16)"
    by (simp only: mask_eq_exp_minus_1 not_eq_complement) simp
  show "w AND 0xFFFF0000 = 0 \<longleftrightarrow> (\<forall>n<32. 16 \<le> n \<longrightarrow> \<not> bit w n)"
    unfolding m word_eq_0_bits by (auto simp: bit_and_iff bit_not_iff bit_mask_iff not_less)
  show "drop_bit 16 (w AND 0xFFFF0000) = drop_bit 16 w"
    unfolding m by (auto simp: bit_eq_iff bit_simps dest: bit_imp_le_length)
qed

lemma avail_bits: "k < 65536 \<Longrightarrow> (\<forall>n<32. 16 \<le> n \<longrightarrow> \<not> bit k (n - 16)) \<longleftrightarrow> k = 0" for k :: nat
proof
  assume k: "k < 65536" and all: "\<forall>n<32. 16 \<le> n \<longrightarrow> \<not> bit k (n - 16)"
  have "\<not> bit k m" for m
  proof (cases "m < 16")
    case True
    then show ?thesis using all [rule_format, of "m + 16"] by simp
  next
    case False
    then have "k < 2 ^ m" using k power_increasing [of 16 m "2 :: nat"] by simp
    then show ?thesis by (metis bit_take_bit_iff less_irrefl take_bit_nat_eq_self_iff)
  qed
  then show "k = 0" by (simp add: bit_eq_iff)
qed simp

lemma flag_bits:
  assumes "k < 65536" and low: "\<And>n. bit c n \<Longrightarrow> n < 8"
  shows "(av_upper k OR av_flags h OR c) AND 0xFFFF0000 = 0 \<longleftrightarrow> k = 0"
    "(av_upper k OR av_flags h OR c) AND 0x8000 = 0 \<longleftrightarrow> \<not> rvalid h"
    "(av_upper k OR av_flags h OR c) AND 0x400 = 0 \<longleftrightarrow> \<not> jac h"
    "(av_upper k OR av_flags h OR c) AND 0x200 = 0 \<longleftrightarrow> \<not> ipen_AE h"
    "(av_upper k OR av_flags h OR c) AND 0x100 = 0 \<longleftrightarrow> \<not> ipen_AF h"
    "(av_upper k OR av_flags h OR c) AND 0x300 = 0 \<longleftrightarrow> \<not> av_irq h"
    "drop_bit 16 (av_upper k OR av_flags h OR c) = (of_nat k :: alt_u32)"
proof -
  have low': "\<not> bit c n" if "8 \<le> n" for n using low [of n] that by auto
  have b: "bit (av_upper k OR av_flags h OR c) n \<longleftrightarrow> n < 32 \<and> bit k (n - 16)" if "16 \<le> n" for n
    using that low' [of n] by (auto simp: bit_or_iff bit_av_upper bit_av_flags)
  then show "(av_upper k OR av_flags h OR c) AND 0xFFFF0000 = 0 \<longleftrightarrow> k = 0"
    unfolding upper_half avail_bits [OF assms(1), symmetric] by blast
  show "drop_bit 16 (av_upper k OR av_flags h OR c) = (of_nat k :: alt_u32)"
  proof (rule bit_word_eqI)
    fix n assume "n < LENGTH(32)"
    have "k < 2 ^ n" if "16 \<le> n" using assms(1) power_increasing [OF that, of "2 :: nat"] by simp
    then have "\<not> bit k n" if "16 \<le> n"
      using that by (metis bit_take_bit_iff less_irrefl take_bit_nat_eq_self_iff)
    then show "bit (drop_bit 16 (av_upper k OR av_flags h OR c)) n = bit (of_nat k :: alt_u32) n"
      using b [of "16 + n"] \<open>n < LENGTH(32)\<close> by (cases "16 \<le> n") (auto simp: bit_simps)
  qed
qed (auto simp: test_bits test_two bit_or_iff bit_av_upper bit_av_flags av_irq_def dest: low)

lemma control_bits:
  "rd_control h AND (RI_MSK OR WI_MSK) = 0 \<longleftrightarrow> \<not> av_irq h"
  "rd_control h AND RI_MSK = 0 \<longleftrightarrow> \<not> ipen_AF h"
  "rd_control h AND WI_MSK = 0 \<longleftrightarrow> \<not> ipen_AE h"
  "rd_control h AND AC_MSK = 0 \<longleftrightarrow> \<not> jac h"
  "rd_control h AND WSPACE_MSK = 0 \<longleftrightarrow> FIFO_LEN \<le> length (wfifo h)"
  "unat (drop_bit 16 (rd_control h AND WSPACE_MSK)) = FIFO_LEN - length (wfifo h)"
proof -
  let ?c = "at_bit 1 (ien_AE h) OR at_bit 0 (ien_AF h)"
  have low: "n < 8" if "bit ?c n" for n using that by (auto simp: bit_or_iff bit_at_bit)
  have lt: "FIFO_LEN - length (wfifo h) < 65536" by simp
  have c: "rd_control h = av_upper (FIFO_LEN - length (wfifo h)) OR av_flags h OR ?c"
    by (simp add: rd_control_def or.assoc)
  have "(RI_MSK OR WI_MSK) = (0x300 :: alt_u32)" by simp
  then show "rd_control h AND (RI_MSK OR WI_MSK) = 0 \<longleftrightarrow> \<not> av_irq h"
    unfolding c by (simp only: flag_bits [OF lt low])
  show "unat (drop_bit 16 (rd_control h AND WSPACE_MSK)) = FIFO_LEN - length (wfifo h)"
    unfolding upper_half(2) c using flag_bits(7) [OF lt, of ?c, where h = h] low
    by (simp add: unat_of_nat take_bit_nat_eq_self_iff less_imp_diff_less del: drop_bit_or)
  show "rd_control h AND RI_MSK = 0 \<longleftrightarrow> \<not> ipen_AF h" "rd_control h AND WI_MSK = 0 \<longleftrightarrow> \<not> ipen_AE h"
    "rd_control h AND AC_MSK = 0 \<longleftrightarrow> \<not> jac h"
    unfolding c by (rule flag_bits(5) flag_bits(4) flag_bits(3), rule lt, erule low)+
  show "rd_control h AND WSPACE_MSK = 0 \<longleftrightarrow> FIFO_LEN \<le> length (wfifo h)"
    unfolding c by (subst flag_bits(1), rule lt, erule low, simp)
qed

lemma rd_data_valid: "fst (rd_data h) AND RVALID_MSK = 0 \<longleftrightarrow> rfifo h = []"
  by (auto simp: test_bits rd_data_def Let_def bit_or_iff bit_av_upper bit_av_flags bit_ucast8)

lemma rd_data_snd:
  "snd (rd_data h) = h\<lparr>rvalid := rfifo h \<noteq> [], rfifo := tl (rfifo h), pause_irq := False\<rparr>"
  by (simp add: rd_data_def Let_def)

lemma low_byte: "n < 8 \<Longrightarrow> bit (ucast (w AND DATA_MSK) :: alt_u8) n \<longleftrightarrow> bit w n" for w :: alt_u32
proof -
  have "(DATA_MSK :: alt_u32) = mask 8" by (simp add: mask_eq_exp_minus_1)
  then show "n < 8 \<Longrightarrow> bit (ucast (w AND DATA_MSK) :: alt_u8) n \<longleftrightarrow> bit w n"
    by (simp only: bit_ucast_iff bit_and_iff bit_mask_iff) auto
qed

lemma rd_data_facts:
  assumes "length (rfifo h) \<le> FIFO_LEN"
  shows "fst (rd_data h) AND RAVAIL_MSK = 0 \<longleftrightarrow> length (rfifo h) \<le> 1"
    "rfifo h = b # bs \<Longrightarrow> ucast (fst (rd_data h) AND DATA_MSK) = b"
proof -
  let ?b = "case rfifo h of [] \<Rightarrow> 0 | b # bs \<Rightarrow> b"
  let ?g = "h\<lparr>rvalid := rfifo h \<noteq> [], rfifo := tl (rfifo h), pause_irq := False\<rparr>"
  have d: "fst (rd_data h) = av_upper (length (tl (rfifo h))) OR av_flags ?g OR ucast ?b"
    by (simp add: rd_data_def Let_def or.assoc)
  have low: "n < 8" if "bit (ucast ?b :: alt_u32) n" for n using that by (simp add: bit_ucast8)
  have lt: "length (tl (rfifo h)) < 65536" using assms by simp
  show "fst (rd_data h) AND RAVAIL_MSK = 0 \<longleftrightarrow> length (rfifo h) \<le> 1"
    unfolding d by (subst flag_bits(1), rule lt, erule low, simp)
  show "ucast (fst (rd_data h) AND DATA_MSK) = b" if "rfifo h = b # bs"
  proof (rule bit_word_eqI)
    fix n assume n: "n < LENGTH(8)"
    then show "bit (ucast (fst (rd_data h) AND DATA_MSK) :: alt_u8) n = bit b n"
      using that by (simp add: low_byte d) (auto simp: bit_or_iff bit_av_upper bit_av_flags bit_ucast8)
  qed
qed

section \<open>The driver's state\<close>

text \<open>
  \<open>altera_avalon_jtag_uart_state\<close>. There is one device, so \<open>base\<close> is implicit; the embedded
  alarm lives in the clock. The four indices are the volatile and plain words of the C
  struct, always below the buffers' length.
\<close>

record jtag_uart_state =
  timeout :: alt_u32
  irq_enable :: alt_u32
  host_inactive :: alt_u32
  rx_in :: nat
  rx_out :: nat
  tx_in :: nat
  tx_out :: nat
  rx_buf :: "alt_u8 list"
  tx_buf :: "alt_u8 list"

record uart =
  sp :: jtag_uart_state
  hw :: juart

definition with_sp :: "(jtag_uart_state \<Rightarrow> jtag_uart_state) \<Rightarrow> uart \<Rightarrow> uart" where
  "with_sp f s = s\<lparr>sp := f (sp s)\<rparr>"

definition with_hw :: "(juart \<Rightarrow> juart) \<Rightarrow> uart \<Rightarrow> uart" where
  "with_hw f s = s\<lparr>hw := f (hw s)\<rparr>"

lemma with_simps [simp]:
  "sp (with_sp f s) = f (sp s)" "hw (with_sp f s) = hw s" "sp (with_hw g s) = sp s" "hw (with_hw g s) = g (hw s)"
  by (simp_all add: with_sp_def with_hw_def)

text \<open>The static initialiser of \<open>ALTERA_AVALON_JTAG_UART_DEV_INSTANCE\<close>.\<close>

definition jtag_uart_instance :: jtag_uart_state where
  "jtag_uart_instance = \<lparr>timeout = 10, irq_enable = 0, host_inactive = 0, rx_in = 0, rx_out = 0,
     tx_in = 0, tx_out = 0, rx_buf = replicate BUF_LEN 0, tx_buf = replicate BUF_LEN 0\<rparr>"

text \<open>Updating the shadow register and writing it out.\<close>

definition set_irq_enable :: "(alt_u32 \<Rightarrow> alt_u32) \<Rightarrow> uart \<Rightarrow> uart" where
  "set_irq_enable f s =
     (let s = with_sp (irq_enable_update f) s in with_hw (wr_control (irq_enable (sp s))) s)"

section \<open>The host\<close>

text \<open>
  The host acts on the device at any time: between any two accesses of the polling driver, of the
  interrupt-driven one and of its interrupt handler. A script lists its actions before each.
\<close>

datatype host_ev = Send alt_u8 | Take | Poll

fun host_event :: "host_ev \<Rightarrow> juart \<Rightarrow> juart" where
  "host_event (Send b) h = host_send b h"
| "host_event Take h = host_take h"
| "host_event Poll h = host_poll h"

definition host_env :: "(nat \<Rightarrow> host_ev list) \<Rightarrow> nat \<Rightarrow> juart \<Rightarrow> juart" where
  "host_env script k h = fold host_event (script k) h"

section \<open>The interrupt handler\<close>

text \<open>
  \<open>env k\<close> is what the host does before the handler's \<open>k\<close>-th access to the device; nothing else
  runs while the handler does. The receive loop leaves with the data word it read last
  (initially one that says bytes are available): when the ring is full before reading, or when
  nothing was valid. \<open>None\<close>: it never ends.
\<close>

partial_function (option) irq_rx ::
    "(nat \<Rightarrow> juart \<Rightarrow> juart) \<Rightarrow> alt_u32 \<Rightarrow> nat \<Rightarrow> uart \<Rightarrow> (alt_u32 \<times> nat \<times> uart) option" where
  "irq_rx env data k s =
     (if (rx_in (sp s) + 1) mod BUF_LEN = rx_out (sp s) then Some (data, k, s)
      else (let s = with_hw (env k) s; data = fst (rd_data (hw s)); s' = with_hw (\<lambda>h. snd (rd_data h)) s
            in if data AND RVALID_MSK = 0 then Some (data, k + 1, s')
               else irq_rx env data (k + 1) (with_sp (\<lambda>p. p\<lparr>rx_buf := (rx_buf p)[rx_in p := ucast (data AND DATA_MSK)],
                                                            rx_in := (rx_in p + 1) mod BUF_LEN\<rparr>) s')))"

text \<open>The transmit loop; \<open>space\<close> counts down, the rest of it is returned.\<close>

fun irq_tx :: "(nat \<Rightarrow> juart \<Rightarrow> juart) \<Rightarrow> nat \<Rightarrow> nat \<Rightarrow> uart \<Rightarrow> nat \<times> nat \<times> uart" where
  "irq_tx env 0 k s = (0, k, s)"
| "irq_tx env (Suc space) k s =
     (if tx_out (sp s) = tx_in (sp s) then (Suc space, k, s)
      else (let s = with_hw (env k) s;
                s = with_hw (wr_data (tx_buf (sp s) ! tx_out (sp s))) s;
                s = with_sp (\<lambda>p. p\<lparr>tx_out := (tx_out p + 1) mod BUF_LEN\<rparr>) s
            in irq_tx env space (k + 1) s))"

text \<open>
  One turn of the handler's loop, for the control word it has read. (The read that follows a
  write of the control register changes nothing.)
\<close>

definition irq_body :: "(nat \<Rightarrow> juart \<Rightarrow> juart) \<Rightarrow> alt_u32 \<Rightarrow> nat \<Rightarrow> uart \<Rightarrow> (nat \<times> uart) option" where
  "irq_body env control k s =
     Option.bind
       (if control AND RI_MSK \<noteq> 0 then
          Option.bind (irq_rx env 0x10000 k s) (\<lambda>(data, k, s).
            Some (if data AND RAVAIL_MSK \<noteq> 0 then (k + 1, set_irq_enable (\<lambda>e. e AND NOT RE_MSK) (with_hw (env k) s))
                  else (k, s)))
        else Some (k, s))
       (\<lambda>(k, s).
          Some (if control AND WI_MSK \<noteq> 0 then
                  (let (space, k, s) = irq_tx env (unat (drop_bit 16 (control AND WSPACE_MSK))) k s
                   in if 0 < space then (k + 1, set_irq_enable (\<lambda>e. e AND NOT WE_MSK) (with_hw (env k) s)) else (k, s))
                else (k, s)))"

partial_function (option) altera_avalon_jtag_uart_irq ::
    "(nat \<Rightarrow> juart \<Rightarrow> juart) \<Rightarrow> nat \<Rightarrow> uart \<Rightarrow> (nat \<times> uart) option" where
  "altera_avalon_jtag_uart_irq env k s =
     (let s = with_hw (env k) s; control = rd_control (hw s)
      in if control AND (RI_MSK OR WI_MSK) = 0 then Some (k + 1, s)
         else Option.bind (irq_body env control (k + 1) s) (\<lambda>(k, s). altera_avalon_jtag_uart_irq env k s))"

text \<open>The alarm's callback, once a second; \<open>rate\<close> is \<open>alt_ticks_per_second()\<close>.\<close>

definition altera_avalon_jtag_uart_timeout :: "alt_u32 \<Rightarrow> uart \<Rightarrow> alt_u32 \<times> uart" where
  "altera_avalon_jtag_uart_timeout rate s =
     (let control = rd_control (hw s)
      in if control AND AC_MSK \<noteq> 0 then
           (rate, with_sp (\<lambda>p. p\<lparr>host_inactive := 0\<rparr>) (with_hw (wr_control (irq_enable (sp s) OR AC_MSK)) s))
         else if host_inactive (sp s) < 0x7FFFFFFD then
           (rate, with_sp (\<lambda>p. p\<lparr>host_inactive := host_inactive p + 1\<rparr>) s)
         else (rate, s))"

section \<open>What happens around a running driver call\<close>

text \<open>
  Between any two accesses of the driver's foreground code the host may act, the alarm may
  tick and the interrupt may be taken, any number of times in any order; while an interrupt is
  served, the host goes on acting, as the interrupt's own script says.
\<close>

datatype uart_ev = Host host_ev | Alarm | Interrupt "nat \<Rightarrow> host_ev list"

abbreviation Host_Send :: "alt_u8 \<Rightarrow> uart_ev" where "Host_Send b \<equiv> Host (Send b)"
abbreviation Host_Take :: uart_ev where "Host_Take \<equiv> Host Take"
abbreviation Host_Poll :: uart_ev where "Host_Poll \<equiv> Host Poll"

definition isr :: "(nat \<Rightarrow> host_ev list) \<Rightarrow> uart \<Rightarrow> uart" where
  "isr host s =
     (if av_irq (hw s) then (case altera_avalon_jtag_uart_irq (host_env host) 0 s of None \<Rightarrow> s | Some (k, s') \<Rightarrow> s') else s)"

fun uart_event :: "uart_ev \<Rightarrow> uart \<Rightarrow> uart" where
  "uart_event (Host e) s = with_hw (host_event e) s"
| "uart_event Alarm s = snd (altera_avalon_jtag_uart_timeout 0 s)"
| "uart_event (Interrupt host) s = isr host s"

section \<open>The invariant and the two streams\<close>

text \<open>
  The rings are well formed, the FIFOs within their depth and the software's copy of the
  enable bits is what the device has.
\<close>

definition uart_ok :: "uart \<Rightarrow> bool" where
  "uart_ok s \<longleftrightarrow> ring_ok (rx_buf (sp s)) (rx_in (sp s)) (rx_out (sp s)) \<and>
     ring_ok (tx_buf (sp s)) (tx_in (sp s)) (tx_out (sp s)) \<and>
     length (rfifo (hw s)) \<le> FIFO_LEN \<and> length (wfifo (hw s)) \<le> FIFO_LEN \<and>
     ien_AF (hw s) = bit (irq_enable (sp s)) 0 \<and> ien_AE (hw s) = bit (irq_enable (sp s)) 1"

definition rx_ring :: "uart \<Rightarrow> alt_u8 list" where
  "rx_ring s = ring (rx_buf (sp s)) (rx_in (sp s)) (rx_out (sp s))"

definition tx_ring :: "uart \<Rightarrow> alt_u8 list" where
  "tx_ring s = ring (tx_buf (sp s)) (tx_in (sp s)) (tx_out (sp s))"

text \<open>Bytes under way to the program, and to the host, oldest first.\<close>

definition rx_stream :: "uart \<Rightarrow> alt_u8 list" where
  "rx_stream s = rx_ring s @ rfifo (hw s)"

definition tx_stream :: "uart \<Rightarrow> alt_u8 list" where
  "tx_stream s = wfifo (hw s) @ tx_ring s"

text \<open>
  No stuck bytes: receive interrupts are off only while the receive ring is full, transmit
  interrupts only while the transmit ring is empty.
\<close>

definition rx_live :: "uart \<Rightarrow> bool" where
  "rx_live s \<longleftrightarrow> bit (irq_enable (sp s)) 0 \<or> (rx_in (sp s) + 1) mod BUF_LEN = rx_out (sp s)"

definition tx_live :: "uart \<Rightarrow> bool" where
  "tx_live s \<longleftrightarrow> bit (irq_enable (sp s)) 1 \<or> tx_in (sp s) = tx_out (sp s)"

text \<open>
  What the events may do, seen from the foreground: it owns \<open>rx_out\<close>, \<open>tx_in\<close> and \<open>tx_buf\<close>;
  the rings change only at their other ends; no byte is lost, doubled or reordered.
\<close>

definition uart_env_step :: "uart \<Rightarrow> uart \<Rightarrow> bool" where
  "uart_env_step s s' \<longleftrightarrow> uart_ok s' \<and>
     rx_out (sp s') = rx_out (sp s) \<and> tx_in (sp s') = tx_in (sp s) \<and> tx_buf (sp s') = tx_buf (sp s) \<and>
     timeout (sp s') = timeout (sp s) \<and>
     (\<exists>m. rx_ring s' = rx_ring s @ m) \<and> (\<exists>d. tx_ring s = d @ tx_ring s') \<and>
     (\<forall>d. typed (hw s) = d @ rx_stream s \<longrightarrow> typed (hw s') = d @ rx_stream s') \<and>
     shown (hw s') @ tx_stream s' = shown (hw s) @ tx_stream s \<and> (\<exists>g. shown (hw s') = shown (hw s) @ g) \<and>
     (rx_live s \<longrightarrow> rx_live s') \<and> (tx_live s \<longrightarrow> tx_live s')"

lemma env_refl: "uart_ok s \<Longrightarrow> uart_env_step s s"
  by (simp add: uart_env_step_def)

lemma env_trans: "uart_env_step s t \<Longrightarrow> uart_env_step t u \<Longrightarrow> uart_env_step s u"
  by (auto simp: uart_env_step_def)

lemma env_full: "uart_env_step s t \<Longrightarrow> length (rx_ring s) = BUF_LEN - 1 \<Longrightarrow> length (rx_ring t) = BUF_LEN - 1"
  using ring_used_lt [of "rx_buf (sp t)" "rx_in (sp t)" "rx_out (sp t)"]
  by (auto simp: uart_env_step_def uart_ok_def rx_ring_def dest: arg_cong [of _ _ length])

lemma uart_ok_bounds:
  "uart_ok s \<Longrightarrow> rx_in (sp s) < BUF_LEN" "uart_ok s \<Longrightarrow> rx_out (sp s) < BUF_LEN"
  "uart_ok s \<Longrightarrow> tx_in (sp s) < BUF_LEN" "uart_ok s \<Longrightarrow> tx_out (sp s) < BUF_LEN"
  "uart_ok s \<Longrightarrow> length (rfifo (hw s)) \<le> FIFO_LEN" "uart_ok s \<Longrightarrow> length (wfifo (hw s)) \<le> FIFO_LEN"
  by (simp_all add: uart_ok_def ring_ok_def)

section \<open>What the interrupt handler does\<close>

lemma set_irq_enable_simps [simp]:
  "sp (set_irq_enable f s) = irq_enable_update f (sp s)"
  "hw (set_irq_enable f s) = wr_control (f (irq_enable (sp s))) (hw s)"
  by (simp_all add: set_irq_enable_def Let_def)

lemma wr_control_simps [simp]:
  "rfifo (wr_control w h) = rfifo h" "wfifo (wr_control w h) = wfifo h" "typed (wr_control w h) = typed h"
  "shown (wr_control w h) = shown h" "ien_AF (wr_control w h) = bit w 0" "ien_AE (wr_control w h) = bit w 1"
  "pause_irq (wr_control w h) = pause_irq h"
  by (simp_all add: wr_control_def)

lemma mask_bits:
  "bit (e AND NOT RE_MSK) 0 = False" "bit (e AND NOT RE_MSK) 1 = bit e 1"
  "bit (e AND NOT WE_MSK) 1 = False" "bit (e AND NOT WE_MSK) 0 = bit e 0"
  "bit (e OR RE_MSK) 0 = True" "bit (e OR RE_MSK) 1 = bit e 1"
  "bit (e OR WE_MSK) 1 = True" "bit (e OR WE_MSK) 0 = bit e 0"
  "bit (e OR AC_MSK) 1 = bit e 1" "bit (e OR AC_MSK) 0 = bit e 0" for e :: alt_u32
  by (simp_all add: bit_and_iff bit_or_iff bit_not_iff)

definition rx_store :: "alt_u8 \<Rightarrow> uart \<Rightarrow> uart" where
  "rx_store b s = with_sp (\<lambda>p. p\<lparr>rx_buf := (rx_buf p)[rx_in p := b], rx_in := (rx_in p + 1) mod BUF_LEN\<rparr>)
     (with_hw (\<lambda>h. snd (rd_data h)) s)"

lemma rx_store_step:
  assumes ok: "uart_ok s" and room: "(rx_in (sp s) + 1) mod BUF_LEN \<noteq> rx_out (sp s)" and r: "rfifo (hw s) = b # bs"
  shows "uart_env_step s (rx_store b s)"
proof -
  have "ring_ok (rx_buf (sp s)) (rx_in (sp s)) (rx_out (sp s))" using ok by (simp add: uart_ok_def)
  note p = ring_push [OF this room, of b]
  show ?thesis
    using ok r p room unfolding uart_env_step_def
    by (auto simp: rx_store_def uart_ok_def rx_ring_def tx_ring_def rx_stream_def tx_stream_def rd_data_snd
        rx_live_def tx_live_def)
qed

lemma rx_flush_step:
  assumes ok: "uart_ok s" and r: "rfifo (hw s) = []"
  shows "uart_env_step s (with_hw (\<lambda>h. snd (rd_data h)) s)"
  using assms unfolding uart_env_step_def
  by (simp add: uart_ok_def rx_ring_def tx_ring_def rx_stream_def tx_stream_def rd_data_snd rx_live_def tx_live_def)

text \<open>
  What the host may do to the device: append to one FIFO, take from the other, and raise flags.
  The pause flag is never raised over an empty FIFO.
\<close>

definition stale :: "juart \<Rightarrow> bool" where
  "stale h \<longleftrightarrow> pause_irq h \<and> rfifo h = []"

definition host_acts :: "juart \<Rightarrow> juart \<Rightarrow> bool" where
  "host_acts h h' \<longleftrightarrow> length (rfifo h') \<le> FIFO_LEN \<and> (\<exists>x. rfifo h' = rfifo h @ x \<and> typed h' = typed h @ x) \<and>
     (\<exists>y. wfifo h = y @ wfifo h' \<and> shown h' = shown h @ y) \<and> ien_AF h' = ien_AF h \<and> ien_AE h' = ien_AE h \<and>
     (pause_irq h \<longrightarrow> pause_irq h') \<and> (stale h' \<longrightarrow> stale h)"

lemma host_event_acts: "length (rfifo h) \<le> FIFO_LEN \<Longrightarrow> host_acts h (host_event e h)"
proof (cases e)
  case Take
  moreover have "wfifo h = take 1 (wfifo h) @ tl (wfifo h)" by (cases "wfifo h") simp_all
  moreover assume "length (rfifo h) \<le> FIFO_LEN"
  ultimately show ?thesis by (auto simp: host_acts_def stale_def host_take_def)
qed (auto simp: host_acts_def stale_def host_send_def host_poll_def)

lemma host_acts_trans:
  assumes "host_acts g h" "host_acts h k"
  shows "host_acts g k"
proof -
  obtain x y where "rfifo h = rfifo g @ x" "typed h = typed g @ x" "wfifo g = y @ wfifo h" "shown h = shown g @ y"
    using assms(1) unfolding host_acts_def by blast
  moreover obtain x' y' where "rfifo k = rfifo h @ x'" "typed k = typed h @ x'" "wfifo h = y' @ wfifo k"
      "shown k = shown h @ y'"
    using assms(2) unfolding host_acts_def by blast
  ultimately have "rfifo k = rfifo g @ (x @ x') \<and> typed k = typed g @ (x @ x')"
    "wfifo g = (y @ y') @ wfifo k \<and> shown k = shown g @ (y @ y')" by simp_all
  then show ?thesis using assms unfolding host_acts_def by blast
qed

lemma host_env_acts: "length (rfifo h) \<le> FIFO_LEN \<Longrightarrow> host_acts h (host_env host k h)"
proof -
  have "length (rfifo h) \<le> FIFO_LEN \<Longrightarrow> host_acts h (fold host_event es h)" for es
  proof (induction es arbitrary: h)
    case (Cons e es)
    note a = host_event_acts [OF Cons.prems, of e]
    then have "length (rfifo (host_event e h)) \<le> FIFO_LEN" by (simp add: host_acts_def)
    from host_acts_trans [OF a Cons.IH [OF this]] show ?case by simp
  qed (simp add: host_acts_def)
  then show "length (rfifo h) \<le> FIFO_LEN \<Longrightarrow> host_acts h (host_env host k h)" by (simp add: host_env_def)
qed

lemma acts_step:
  assumes ok: "uart_ok s" and a: "host_acts (hw s) h"
  shows "uart_env_step s (with_hw (\<lambda>_. h) s)"
proof -
  obtain x y where "rfifo h = rfifo (hw s) @ x" "typed h = typed (hw s) @ x" "wfifo (hw s) = y @ wfifo h"
      "shown h = shown (hw s) @ y" "length (rfifo h) \<le> FIFO_LEN" "ien_AF h = ien_AF (hw s)" "ien_AE h = ien_AE (hw s)"
    using a unfolding host_acts_def by blast
  then show ?thesis
    using ok unfolding uart_env_step_def
    by (auto simp: uart_ok_def rx_ring_def tx_ring_def rx_stream_def tx_stream_def rx_live_def tx_live_def)
qed

lemma host_step:
  assumes "uart_ok s"
  shows "uart_env_step s (with_hw (host_env host k) s)" "host_acts (hw s) (hw (with_hw (host_env host k) s))"
proof -
  show a: "host_acts (hw s) (hw (with_hw (host_env host k) s))" using host_env_acts uart_ok_bounds(5) [OF assms] by simp
  from acts_step [OF assms a] show "uart_env_step s (with_hw (host_env host k) s)" by (simp add: with_hw_def)
qed

lemma host_frame [simp]: "rx_ring (with_hw f s) = rx_ring s" "tx_ring (with_hw f s) = tx_ring s"
  by (simp_all add: rx_ring_def tx_ring_def)

text \<open>
  The receive loop ends, whatever the host does: it fills the ring, or it empties the FIFO. What
  it leaves in the FIFO then, no host action has come after.
\<close>

definition rx_full :: "uart \<Rightarrow> bool" where
  "rx_full s \<longleftrightarrow> (rx_in (sp s) + 1) mod BUF_LEN = rx_out (sp s)"

lemma rx_ring_lt: "uart_ok s \<Longrightarrow> length (rx_ring s) < BUF_LEN"
  using ring_used_lt [of "rx_buf (sp s)" "rx_in (sp s)" "rx_out (sp s)"] by (simp add: uart_ok_def rx_ring_def)

lemma rx_full_length: "uart_ok s \<Longrightarrow> rx_full s \<longleftrightarrow> length (rx_ring s) = BUF_LEN - 1"
  using ring_full_iff [of "rx_buf (sp s)" "rx_in (sp s)" "rx_out (sp s)"]
  by (auto simp: uart_ok_def rx_full_def rx_ring_def)

definition irq_rx_post :: "alt_u32 \<Rightarrow> uart \<Rightarrow> alt_u32 \<Rightarrow> uart \<Rightarrow> bool" where
  "irq_rx_post data s data' s' \<longleftrightarrow> uart_env_step s s' \<and> irq_enable (sp s') = irq_enable (sp s) \<and>
     length (wfifo (hw s')) \<le> length (wfifo (hw s)) \<and> tx_ring s' = tx_ring s \<and>
     (if data' AND RAVAIL_MSK = 0 then rfifo (hw s') = [] \<and> \<not> pause_irq (hw s') else rx_full s') \<and>
     (rx_full s' \<or> length (rx_ring s) + length (rfifo (hw s)) \<le> length (rx_ring s')) \<and>
     (if rx_full s then data' = data \<and> s' = s
      else \<not> stale (hw s') \<and> (rfifo (hw s) \<noteq> [] \<longrightarrow> length (rx_ring s) < length (rx_ring s')))"

lemma irq_rx_spec:
  assumes "uart_ok s" "data AND RAVAIL_MSK = 0 \<longrightarrow> rfifo (hw s) = [] \<and> \<not> pause_irq (hw s)"
  shows "\<exists>data' k' s'. irq_rx (host_env host) data k s = Some (data', k', s') \<and> irq_rx_post data s data' s' \<and>
    ((\<forall>k. host k = []) \<longrightarrow> wfifo (hw s') = wfifo (hw s))"
  using assms
proof (induction "BUF_LEN - length (rx_ring s)" arbitrary: data k s rule: less_induct)
  case less
  show ?case
  proof (cases "rx_full s")
    case True
    then show ?thesis using less.prems
      by (simp add: irq_rx.simps [of _ data] irq_rx_post_def env_refl rx_full_def)
  next
    case room: False
    define g where "g = with_hw (host_env host k) s"
    have sg: "uart_env_step s g" "host_acts (hw s) (hw g)" using host_step [OF less.prems(1)] by (simp_all add: g_def)
    then have ok: "uart_ok g" by (simp add: uart_env_step_def)
    have ga: "rx_ring g = rx_ring s" "tx_ring g = tx_ring s" "irq_enable (sp g) = irq_enable (sp s)"
      "length (rfifo (hw s)) \<le> length (rfifo (hw g))" "length (wfifo (hw g)) \<le> length (wfifo (hw s))"
      using sg(2) by (auto simp: g_def host_acts_def)
    have quiet: "g = s" if "\<forall>k. host k = []" using that by (simp add: g_def host_env_def with_hw_def)
    have room': "\<not> rx_full g" using room by (simp add: rx_full_def g_def)
    note len = uart_ok_bounds(5) [OF ok]
    let ?d = "fst (rd_data (hw g))"
    have unfold: "irq_rx (host_env host) data k s = (if ?d AND RVALID_MSK = 0 then Some (?d, k + 1, with_hw (\<lambda>h. snd (rd_data h)) g)
        else irq_rx (host_env host) ?d (k + 1) (with_sp (\<lambda>p. p\<lparr>rx_buf := (rx_buf p)[rx_in p := ucast (?d AND DATA_MSK)],
            rx_in := (rx_in p + 1) mod BUF_LEN\<rparr>) (with_hw (\<lambda>h. snd (rd_data h)) g)))"
      using room by (simp add: irq_rx.simps [of _ data k] rx_full_def Let_def flip: g_def)
    show ?thesis
    proof (cases "rfifo (hw g)")
      case Nil
      let ?t = "with_hw (\<lambda>h. snd (rd_data h)) g"
      have "irq_rx (host_env host) data k s = Some (?d, k + 1, ?t)" using Nil unfold by (simp add: rd_data_valid)
      moreover have "?d AND RAVAIL_MSK = 0" using Nil rd_data_facts(1) [OF len] by simp
      moreover have "uart_env_step s ?t" using env_trans [OF sg(1) rx_flush_step [OF ok Nil]] .
      ultimately show ?thesis
        using Nil ga room quiet by (intro exI [of _ ?d] exI [of _ "k + 1"] exI [of _ ?t])
          (auto simp: irq_rx_post_def rd_data_snd stale_def)
    next
      case (Cons b bs)
      let ?s = "rx_store b g"
      have b: "ucast (?d AND DATA_MSK) = b" using rd_data_facts(2) [OF len Cons] .
      have "?d AND RVALID_MSK \<noteq> 0" using Cons by (simp add: rd_data_valid)
      then have nxt: "irq_rx (host_env host) data k s = irq_rx (host_env host) ?d (k + 1) ?s"
        unfolding unfold b by (simp add: rx_store_def)
      have room'': "(rx_in (sp g) + 1) mod BUF_LEN \<noteq> rx_out (sp g)" using room' by (simp add: rx_full_def)
      have e: "uart_env_step s ?s" by (rule env_trans [OF sg(1) rx_store_step [OF ok room'' Cons]])
      then have ok': "uart_ok ?s" by (simp add: uart_env_step_def)
      have r: "rx_ring ?s = rx_ring s @ [b]"
        using ring_push(1) [of "rx_buf (sp g)" "rx_in (sp g)" "rx_out (sp g)" b] ok room'' ga(1)
        by (simp add: rx_store_def rx_ring_def uart_ok_def)
      have h: "rfifo (hw ?s) = bs" "\<not> pause_irq (hw ?s)" "wfifo (hw ?s) = wfifo (hw g)" "tx_ring ?s = tx_ring g"
        "irq_enable (sp ?s) = irq_enable (sp g)"
        using Cons by (simp_all add: rx_store_def rd_data_snd tx_ring_def)
      have "length (rx_ring s) < BUF_LEN" by (rule rx_ring_lt [OF less.prems(1)])
      then have m: "BUF_LEN - length (rx_ring ?s) < BUF_LEN - length (rx_ring s)" using r by simp
      have "?d AND RAVAIL_MSK = 0 \<longrightarrow> rfifo (hw ?s) = [] \<and> \<not> pause_irq (hw ?s)"
        using Cons rd_data_facts(1) [OF len] h by simp
      from less.hyps [OF m ok' this, of "k + 1"] obtain data' k' s' where
        ih: "irq_rx (host_env host) ?d (k + 1) ?s = Some (data', k', s')" "irq_rx_post ?d ?s data' s'"
        "(\<forall>k. host k = []) \<longrightarrow> wfifo (hw s') = wfifo (hw ?s)" by blast
      have "length (rx_ring ?s) \<le> length (rx_ring s')" using ih(2) by (auto simp: irq_rx_post_def uart_env_step_def)
      moreover have "\<not> stale (hw s')" using ih(2) h(2) by (auto simp: irq_rx_post_def stale_def split: if_splits)
      moreover have "uart_env_step s s'" using env_trans [OF e] ih(2) by (simp add: irq_rx_post_def)
      ultimately have "irq_rx_post data s data' s'"
        using ih(2) room r h ga Cons by (auto simp: irq_rx_post_def cong: if_cong)
      moreover have "(\<forall>k. host k = []) \<longrightarrow> wfifo (hw s') = wfifo (hw s)" using ih(3) h(3) quiet by (intro impI) simp
      ultimately show ?thesis unfolding nxt using ih(1)
        by (intro exI [of _ data'] exI [of _ k'] exI [of _ s']) simp
    qed
  qed
qed

definition tx_send :: "uart \<Rightarrow> uart" where
  "tx_send s = with_sp (\<lambda>p. p\<lparr>tx_out := (tx_out p + 1) mod BUF_LEN\<rparr>)
     (with_hw (wr_data (tx_buf (sp s) ! tx_out (sp s))) s)"

lemma tx_send_step:
  assumes ok: "uart_ok s" and more: "tx_out (sp s) \<noteq> tx_in (sp s)" and space: "length (wfifo (hw s)) < FIFO_LEN"
  shows "uart_env_step s (tx_send s) \<and> length (tx_ring (tx_send s)) < length (tx_ring s)"
proof -
  have r: "ring_ok (tx_buf (sp s)) (tx_in (sp s)) (tx_out (sp s))" using ok by (simp add: uart_ok_def)
  have u: "1 \<le> ring_used (tx_in (sp s)) (tx_out (sp s))"
    using more r ring_empty_iff [OF r] by (metis length_0_conv length_ring less_one not_le)
  have ne: "tx_ring s \<noteq> []" using ring_empty_iff [OF r] more by (simp add: tx_ring_def)
  have h: "tx_buf (sp s) ! tx_out (sp s) = hd (tx_ring s)"
    using ring_head [OF r] more by (simp add: tx_ring_def)
  have t: "tx_ring (tx_send s) = tl (tx_ring s)"
    using ring_drop(1) [OF r u] by (simp add: tx_send_def tx_ring_def drop_Suc)
  have w: "hw (tx_send s) = (hw s)\<lparr>wfifo := wfifo (hw s) @ [hd (tx_ring s)], woverflow := False\<rparr>"
    using space by (simp add: tx_send_def wr_data_def h)
  have "uart_ok (tx_send s)"
    using ok ring_drop(2) [OF r u] space w by (simp add: uart_ok_def tx_send_def)
  moreover have "\<exists>d. tx_ring s = d @ tx_ring (tx_send s)"
    using ne t by (intro exI [of _ "[hd (tx_ring s)]"]) simp
  ultimately show ?thesis
    using w t ne more unfolding uart_env_step_def
    by (simp add: tx_stream_def rx_stream_def rx_ring_def rx_live_def tx_live_def)
      (simp add: tx_send_def)
qed

text \<open>
  The transmit loop never writes to a full FIFO, because the host only makes more room than the
  control word said there was.
\<close>

definition irq_tx_post :: "nat \<Rightarrow> uart \<Rightarrow> nat \<Rightarrow> uart \<Rightarrow> bool" where
  "irq_tx_post space s r s' \<longleftrightarrow> uart_env_step s s' \<and> irq_enable (sp s') = irq_enable (sp s) \<and> rx_ring s' = rx_ring s \<and>
     (stale (hw s') \<longrightarrow> stale (hw s)) \<and> (0 < r \<longrightarrow> tx_in (sp s') = tx_out (sp s')) \<and>
     (0 < space \<longrightarrow> tx_ring s \<noteq> [] \<longrightarrow> length (tx_ring s') < length (tx_ring s))"

lemma irq_tx_spec:
  assumes "uart_ok s" "length (wfifo (hw s)) + space \<le> FIFO_LEN" "irq_tx (host_env host) space k s = (r, k', s')"
  shows "irq_tx_post space s r s' \<and> ((\<forall>k. host k = []) \<longrightarrow> rfifo (hw s') = rfifo (hw s) \<and> pause_irq (hw s') = pause_irq (hw s) \<and>
    (r = 0 \<longrightarrow> length (wfifo (hw s')) = length (wfifo (hw s)) + space))"
  using assms
proof (induction space arbitrary: k s)
  case 0
  then show ?case by (auto simp: env_refl irq_tx_post_def)
next
  case (Suc n)
  show ?case
  proof (cases "tx_out (sp s) = tx_in (sp s)")
    case True
    then have "tx_ring s = []" by (simp add: tx_ring_def ring_def ring_used_def)
    then show ?thesis using Suc.prems True by (auto simp: env_refl irq_tx_post_def)
  next
    case False
    define g where "g = with_hw (host_env host k) s"
    have sg: "uart_env_step s g" "host_acts (hw s) (hw g)" using host_step [OF Suc.prems(1)] by (simp_all add: g_def)
    then have ok: "uart_ok g" by (simp add: uart_env_step_def)
    have ga: "rx_ring g = rx_ring s" "tx_ring g = tx_ring s" "irq_enable (sp g) = irq_enable (sp s)"
      "stale (hw g) \<longrightarrow> stale (hw s)" "length (wfifo (hw g)) \<le> length (wfifo (hw s))"
      using sg(2) by (auto simp: g_def host_acts_def)
    have quiet: "g = s" if "\<forall>k. host k = []" using that by (simp add: g_def host_env_def with_hw_def)
    have more: "tx_out (sp g) \<noteq> tx_in (sp g)" using False by (simp add: g_def)
    have e: "uart_env_step g (tx_send g)" "length (tx_ring (tx_send g)) < length (tx_ring g)"
      using tx_send_step [OF ok more] Suc.prems(2) ga(5) by simp_all
    have ok': "uart_ok (tx_send g)" using e by (simp add: uart_env_step_def)
    have l: "length (wfifo (hw (tx_send g))) = Suc (length (wfifo (hw g)))" "rfifo (hw (tx_send g)) = rfifo (hw g)"
      "irq_enable (sp (tx_send g)) = irq_enable (sp g)" "pause_irq (hw (tx_send g)) = pause_irq (hw g)"
      "rx_ring (tx_send g) = rx_ring g"
      using Suc.prems ga(5) by (simp_all add: tx_send_def wr_data_def rx_ring_def)
    have "irq_tx (host_env host) n (k + 1) (tx_send g) = (r, k', s')"
      using Suc.prems False by (simp add: tx_send_def Let_def g_def)
    from Suc.IH [OF ok' _ this] have
      ih: "irq_tx_post n (tx_send g) r s'" "(\<forall>k. host k = []) \<longrightarrow> rfifo (hw s') = rfifo (hw (tx_send g)) \<and>
         pause_irq (hw s') = pause_irq (hw (tx_send g)) \<and>
         (r = 0 \<longrightarrow> length (wfifo (hw s')) = length (wfifo (hw (tx_send g))) + n)"
      using Suc.prems(2) ga(5) l(1) by simp_all
    have "\<exists>d. tx_ring (tx_send g) = d @ tx_ring s'" using ih(1) by (simp add: irq_tx_post_def uart_env_step_def)
    then have "length (tx_ring s') \<le> length (tx_ring (tx_send g))" by auto
    moreover have "uart_env_step s s'"
      using env_trans [OF env_trans [OF sg(1) e(1)]] ih(1) by (simp add: irq_tx_post_def)
    ultimately have "irq_tx_post (Suc n) s r s'" using ih(1) l ga e(2) by (auto simp: irq_tx_post_def stale_def)
    moreover have "rfifo (hw s') = rfifo (hw s) \<and> pause_irq (hw s') = pause_irq (hw s) \<and>
        (r = 0 \<longrightarrow> length (wfifo (hw s')) = length (wfifo (hw s)) + Suc n)" if "\<forall>k. host k = []"
      using ih(2) l quiet [OF that] that by simp
    ultimately show ?thesis by blast
  qed
qed

lemma disable_rx_step:
  assumes "uart_ok s" "rx_full s"
  shows "uart_env_step s (set_irq_enable (\<lambda>e. e AND NOT RE_MSK) s)"
  using assms mask_bits(1,2) [of "irq_enable (sp s)"] unfolding uart_env_step_def
  by (simp add: uart_ok_def rx_ring_def tx_ring_def rx_stream_def tx_stream_def rx_live_def tx_live_def rx_full_def)

lemma disable_tx_step:
  assumes "uart_ok s" "tx_in (sp s) = tx_out (sp s)"
  shows "uart_env_step s (set_irq_enable (\<lambda>e. e AND NOT WE_MSK) s)"
  using assms mask_bits(3,4) [of "irq_enable (sp s)"] unfolding uart_env_step_def
  by (simp add: uart_ok_def rx_ring_def tx_ring_def rx_stream_def tx_stream_def rx_live_def tx_live_def)

text \<open>
  The two halves of the body, and the work that each request stands for: free slots of the
  receive ring and bytes of the transmit ring, and one for an interrupt that is on.
\<close>

definition rx_half :: "(nat \<Rightarrow> juart \<Rightarrow> juart) \<Rightarrow> nat \<Rightarrow> uart \<Rightarrow> (nat \<times> uart) option" where
  "rx_half env k s = Option.bind (irq_rx env 0x10000 k s) (\<lambda>(data, k, s).
     Some (if data AND RAVAIL_MSK \<noteq> 0 then (k + 1, set_irq_enable (\<lambda>e. e AND NOT RE_MSK) (with_hw (env k) s)) else (k, s)))"

definition tx_half :: "(nat \<Rightarrow> juart \<Rightarrow> juart) \<Rightarrow> nat \<Rightarrow> nat \<Rightarrow> uart \<Rightarrow> nat \<times> uart" where
  "tx_half env space k s = (let (space, k, s) = irq_tx env space k s
     in if 0 < space then (k + 1, set_irq_enable (\<lambda>e. e AND NOT WE_MSK) (with_hw (env k) s)) else (k, s))"

definition rx_work :: "uart \<Rightarrow> nat" where
  "rx_work s = (BUF_LEN - 1 - length (rx_ring s)) + of_bool (ien_AF (hw s)) + of_bool (stale (hw s))"

definition tx_work :: "uart \<Rightarrow> nat" where
  "tx_work s = length (tx_ring s) + of_bool (ien_AE (hw s))"

text \<open>The bytes that were in the device are in the ring, or the ring is full.\<close>

definition rx_taken :: "uart \<Rightarrow> uart \<Rightarrow> bool" where
  "rx_taken s s' \<longleftrightarrow> min (BUF_LEN - 1) (length (rx_ring s) + length (rfifo (hw s))) \<le> length (rx_ring s')"

lemma stale_wr_control [simp]: "stale (wr_control w h) = stale h"
  by (simp add: stale_def)

lemma rx_half_spec:
  assumes ok: "uart_ok s"
  shows "\<exists>k' s'. rx_half (host_env host) k s = Some (k', s') \<and> uart_env_step s s' \<and> \<not> ipen_AF (hw s') \<and>
    ien_AE (hw s') = ien_AE (hw s) \<and> length (wfifo (hw s')) \<le> length (wfifo (hw s)) \<and> tx_ring s' = tx_ring s \<and>
    rx_taken s s' \<and> (ipen_AF (hw s) \<longrightarrow> rx_work s' < rx_work s) \<and>
    ((\<forall>k. host k = []) \<longrightarrow> wfifo (hw s') = wfifo (hw s) \<and> (rfifo (hw s') = [] \<or> length (rx_ring s') = BUF_LEN - 1))"
proof -
  obtain d k1 t where r: "irq_rx (host_env host) 0x10000 k s = Some (d, k1, t)" "irq_rx_post 0x10000 s d t"
    and rq: "(\<forall>k. host k = []) \<longrightarrow> wfifo (hw t) = wfifo (hw s)"
    using irq_rx_spec [OF ok, of "0x10000" host k] by auto
  have t: "uart_env_step s t" "irq_enable (sp t) = irq_enable (sp s)" "length (wfifo (hw t)) \<le> length (wfifo (hw s))"
      "tx_ring t = tx_ring s"
    and d: "if d AND RAVAIL_MSK = 0 then rfifo (hw t) = [] \<and> \<not> pause_irq (hw t) else rx_full t"
    and taken: "rx_full t \<or> length (rx_ring s) + length (rfifo (hw s)) \<le> length (rx_ring t)"
    and prog: "if rx_full s then d = 0x10000 \<and> t = s
      else \<not> stale (hw t) \<and> (rfifo (hw s) \<noteq> [] \<longrightarrow> length (rx_ring s) < length (rx_ring t))"
    using r(2) unfolding irq_rx_post_def by blast+
  have okt: "uart_ok t" using t(1) by (simp add: uart_env_step_def)
  have ien: "ien_AE (hw t) = ien_AE (hw s)" "ien_AF (hw t) = ien_AF (hw s)" using okt ok t(2) by (simp_all add: uart_ok_def)
  have grow: "length (rx_ring s) \<le> length (rx_ring t)" using t(1) by (auto simp: uart_env_step_def)
  have le: "length (rx_ring t) < BUF_LEN" by (rule rx_ring_lt [OF okt])
  have tk: "rx_taken s t" using taken rx_full_length [OF okt] by (auto simp: rx_taken_def)
  show ?thesis
  proof (cases "d AND RAVAIL_MSK = 0")
    case True
    then have h: "rx_half (host_env host) k s = Some (k1, t)" by (simp add: rx_half_def r(1))
    have nf: "\<not> rx_full s" using True prog by auto
    have "rx_work t < rx_work s" if "ipen_AF (hw s)"
    proof (cases "rfifo (hw s) = []")
      case True
      then have "stale (hw s)" using that by (simp add: ipen_AF_def stale_def)
      then show ?thesis using nf prog grow ien by (simp add: rx_work_def)
    next
      case False
      then show ?thesis using nf prog grow ien le by (auto simp: rx_work_def)
    qed
    with t d True ien tk h rq show ?thesis by (simp add: ipen_AF_def)
  next
    case False
    let ?g = "with_hw (host_env host k1) t" and ?s = "set_irq_enable (\<lambda>e. e AND NOT RE_MSK) (with_hw (host_env host k1) t)"
    have h: "rx_half (host_env host) k s = Some (k1 + 1, ?s)" using False by (simp add: rx_half_def r(1))
    have tg: "uart_env_step t ?g" "host_acts (hw t) (hw ?g)" by (rule host_step [OF okt])+
    then have okg: "uart_ok ?g" by (simp add: uart_env_step_def)
    have full: "rx_full t" "rx_full ?g" using d False by (simp_all add: rx_full_def)
    have st: "uart_env_step s ?s" by (rule env_trans [OF t(1) env_trans [OF tg(1) disable_rx_step [OF okg full(2)]]])
    have ring: "rx_ring ?s = rx_ring t" "tx_ring ?s = tx_ring t" by (simp_all add: rx_ring_def tx_ring_def)
    have bits: "\<not> ien_AF (hw ?s)" "ien_AE (hw ?s) = ien_AE (hw s)"
      using mask_bits(1,2) [of "irq_enable (sp t)"] okt ien(1) by (simp_all add: uart_ok_def)
    have stale: "stale (hw ?s) \<longrightarrow> stale (hw t)" using tg(2) by (simp add: host_acts_def)
    have "rx_work ?s < rx_work s" if "ipen_AF (hw s)"
    proof -
      have "ien_AF (hw s)" using that by (simp add: ipen_AF_def)
      moreover have "stale (hw t) \<longrightarrow> stale (hw s)" using prog by (auto split: if_splits)
      ultimately show ?thesis using bits(1) stale grow ring(1) by (auto simp: rx_work_def)
    qed
    moreover have "length (wfifo (hw ?s)) \<le> length (wfifo (hw s))" using tg(2) t(3) by (auto simp: host_acts_def)
    moreover have "(\<forall>k. host k = []) \<longrightarrow> wfifo (hw ?s) = wfifo (hw s)" using rq by (simp add: host_env_def)
    ultimately show ?thesis using h st bits ring t(4) tk full(1) rx_full_length [OF okt]
      by (simp add: ipen_AF_def rx_taken_def)
  qed
qed

lemma tx_half_spec:
  assumes ok: "uart_ok s" and space: "length (wfifo (hw s)) + space \<le> FIFO_LEN"
    and h: "tx_half (host_env host) space k s = (k', s')"
  shows "uart_env_step s s' \<and> rx_ring s' = rx_ring s \<and> (stale (hw s') \<longrightarrow> stale (hw s)) \<and>
    ien_AF (hw s') = ien_AF (hw s) \<and> (0 < space \<longrightarrow> ien_AE (hw s) \<longrightarrow> tx_work s' < tx_work s) \<and>
    ((\<forall>k. host k = []) \<longrightarrow> space = FIFO_LEN - length (wfifo (hw s)) \<longrightarrow> rfifo (hw s') = rfifo (hw s) \<and>
       pause_irq (hw s') = pause_irq (hw s) \<and> \<not> ipen_AE (hw s') \<and> (tx_ring s' = [] \<or> length (wfifo (hw s')) = FIFO_LEN))"
proof -
  obtain r k1 t where e: "irq_tx (host_env host) space k s = (r, k1, t)" by (metis prod_cases3)
  from irq_tx_spec [OF ok space e] have post: "irq_tx_post space s r t" and
    quiet: "(\<forall>k. host k = []) \<longrightarrow> rfifo (hw t) = rfifo (hw s) \<and> pause_irq (hw t) = pause_irq (hw s) \<and>
      (r = 0 \<longrightarrow> length (wfifo (hw t)) = length (wfifo (hw s)) + space)" by blast+
  have t: "uart_env_step s t" "irq_enable (sp t) = irq_enable (sp s)" "rx_ring t = rx_ring s" "stale (hw t) \<longrightarrow> stale (hw s)"
      "0 < r \<longrightarrow> tx_in (sp t) = tx_out (sp t)" "0 < space \<longrightarrow> tx_ring s \<noteq> [] \<longrightarrow> length (tx_ring t) < length (tx_ring s)"
    using post unfolding irq_tx_post_def by blast+
  have okt: "uart_ok t" using t(1) by (simp add: uart_env_step_def)
  have ien: "ien_AE (hw t) = ien_AE (hw s)" "ien_AF (hw t) = ien_AF (hw s)" using okt ok t(2) by (simp_all add: uart_ok_def)
  show ?thesis
  proof (cases "0 < r")
    case False
    then have [simp]: "s' = t" using h by (simp add: tx_half_def e)
    have "tx_ring s \<noteq> []" if "0 < space"
    proof
      assume "tx_ring s = []"
      then have "tx_out (sp s) = tx_in (sp s)" using ring_empty_iff ok by (fastforce simp: uart_ok_def tx_ring_def)
      then have "r = space" using e that by (cases space) auto
      then show False using False that by simp
    qed
    then have "tx_work t < tx_work s" if "0 < space" using t(6) that ien(1) by (simp add: tx_work_def)
    then show ?thesis using t ien quiet False space by (auto simp: ipen_AE_def)
  next
    case True
    let ?g = "with_hw (host_env host k1) t" and ?s = "set_irq_enable (\<lambda>e. e AND NOT WE_MSK) (with_hw (host_env host k1) t)"
    have [simp]: "s' = ?s" using h True by (simp add: tx_half_def e)
    have tg: "uart_env_step t ?g" "host_acts (hw t) (hw ?g)" by (rule host_step [OF okt])+
    then have okg: "uart_ok ?g" by (simp add: uart_env_step_def)
    have empty: "tx_in (sp ?g) = tx_out (sp ?g)" using t(5) True by simp
    have st: "uart_env_step s ?s" by (rule env_trans [OF t(1) env_trans [OF tg(1) disable_tx_step [OF okg empty]]])
    have ring: "rx_ring ?s = rx_ring s" "tx_ring ?s = []"
      using t(3,5) True by (simp_all add: rx_ring_def tx_ring_def ring_def ring_used_def)
    have bits: "\<not> ien_AE (hw ?s)" "ien_AF (hw ?s) = ien_AF (hw s)"
      using mask_bits(3,4) [of "irq_enable (sp t)"] okt ien(2) by (simp_all add: uart_ok_def)
    have "stale (hw ?s) \<longrightarrow> stale (hw s)" using tg(2) t(4) by (simp add: host_acts_def)
    moreover have "?g = t" if "\<forall>k. host k = []" using that by (simp add: host_env_def with_hw_def)
    ultimately show ?thesis using st ring bits quiet by (auto simp: tx_work_def ipen_AE_def)
  qed
qed

text \<open>One turn: the work left goes down, and with the host quiet nothing is left to do.\<close>

lemma irq_body_spec:
  assumes ok: "uart_ok s" and irq: "av_irq (hw s)"
  shows "\<exists>k' s'. irq_body (host_env host) (rd_control (hw s)) k s = Some (k', s') \<and> uart_env_step s s' \<and>
    rx_work s' + tx_work s' < rx_work s + tx_work s \<and> (ipen_AF (hw s) \<longrightarrow> rx_taken s s') \<and>
    ((\<forall>k. host k = []) \<longrightarrow> \<not> av_irq (hw s') \<and> (ipen_AF (hw s) \<longrightarrow> rfifo (hw s') = [] \<or> length (rx_ring s') = BUF_LEN - 1) \<and>
       (ipen_AE (hw s) \<longrightarrow> tx_ring s' = [] \<or> length (wfifo (hw s')) = FIFO_LEN))"
proof -
  let ?env = "host_env host" and ?n = "FIFO_LEN - length (wfifo (hw s))"
  have b: "irq_body ?env (rd_control (hw s)) k s =
      Option.bind (if ipen_AF (hw s) then rx_half ?env k s else Some (k, s))
        (\<lambda>(k, s). Some (if ipen_AE (hw s0) then tx_half ?env ?n k s else (k, s)))" if "s0 = s" for s0
    unfolding irq_body_def control_bits that by (simp add: rx_half_def tx_half_def Let_def cong: if_cong)
  obtain k1 t where t: "(if ipen_AF (hw s) then rx_half ?env k s else Some (k, s)) = Some (k1, t)"
      "uart_env_step s t" "\<not> ipen_AF (hw t)" "ien_AE (hw t) = ien_AE (hw s)" "length (wfifo (hw t)) \<le> length (wfifo (hw s))"
      "tx_ring t = tx_ring s" "ipen_AF (hw s) \<longrightarrow> rx_taken s t \<and> rx_work t < rx_work s" "\<not> ipen_AF (hw s) \<longrightarrow> t = s"
      "ipen_AF (hw s) \<longrightarrow> (\<forall>k. host k = []) \<longrightarrow> rfifo (hw t) = [] \<or> length (rx_ring t) = BUF_LEN - 1"
      "(\<forall>k. host k = []) \<longrightarrow> wfifo (hw t) = wfifo (hw s)"
    using rx_half_spec [OF ok, of host k] env_refl [OF ok] by (cases "ipen_AF (hw s)") auto
  have okt: "uart_ok t" using t(2) by (simp add: uart_env_step_def)
  have tw: "tx_work t = tx_work s" using t(4,6) by (simp add: tx_work_def)
  show ?thesis
  proof (cases "ipen_AE (hw s)")
    case False
    then have AF: "ipen_AF (hw s)" using irq by (simp add: av_irq_def)
    have "irq_body ?env (rd_control (hw s)) k s = Some (k1, t)" unfolding b [OF refl] t(1) using False by simp
    moreover have "\<not> ipen_AE (hw t)" if "\<forall>k. host k = []"
      using False t(4,10) that by (simp add: ipen_AE_def)
    ultimately show ?thesis using t AF tw False by (intro exI [of _ k1] exI [of _ t]) (auto simp: av_irq_def)
  next
    case True
    obtain k2 u where u: "tx_half ?env ?n k1 t = (k2, u)" by force
    have "length (wfifo (hw s)) \<le> 8" using True by (simp add: ipen_AE_def)
    then have sp: "length (wfifo (hw t)) + ?n \<le> FIFO_LEN" "0 < ?n" using t(5) by simp_all
    note h = tx_half_spec [OF okt sp(1) u]
    have body: "irq_body ?env (rd_control (hw s)) k s = Some (k2, u)" unfolding b [OF refl] t(1) using True u by simp
    have su: "uart_env_step s u" using env_trans [OF t(2)] h by blast
    have "rx_work u \<le> rx_work t" using h by (auto simp: rx_work_def)
    moreover have "tx_work u < tx_work t" using h sp(2) True t(4) by (simp add: ipen_AE_def)
    moreover have "rx_work t \<le> rx_work s" using t(7,8) by (cases "ipen_AF (hw s)") auto
    ultimately have work: "rx_work u + tx_work u < rx_work s + tx_work s" using tw by simp
    have taken: "ipen_AF (hw s) \<longrightarrow> rx_taken s u" using t(7) h by (simp add: rx_taken_def)
    have quiet: "\<not> av_irq (hw u) \<and> (ipen_AF (hw s) \<longrightarrow> rfifo (hw u) = [] \<or> length (rx_ring u) = BUF_LEN - 1) \<and>
        (tx_ring u = [] \<or> length (wfifo (hw u)) = FIFO_LEN)" if q: "\<forall>k. host k = []"
    proof -
      have "wfifo (hw t) = wfifo (hw s)" using t(10) q by simp
      with h q have "rfifo (hw u) = rfifo (hw t)" "pause_irq (hw u) = pause_irq (hw t)" "\<not> ipen_AE (hw u)"
        "tx_ring u = [] \<or> length (wfifo (hw u)) = FIFO_LEN" "ien_AF (hw u) = ien_AF (hw t)" "rx_ring u = rx_ring t" by simp_all
      then show ?thesis using t(3,9) q by (auto simp: av_irq_def ipen_AF_def)
    qed
    show ?thesis using body su work taken quiet by (intro exI [of _ k2] exI [of _ u]) auto
  qed
qed

text \<open>The handler always returns, and leaves the line quiet.\<close>

lemma irq_unfold:
  "altera_avalon_jtag_uart_irq env k s =
     (if av_irq (hw (with_hw (env k) s)) then
        Option.bind (irq_body env (rd_control (hw (with_hw (env k) s))) (k + 1) (with_hw (env k) s))
          (\<lambda>(k, s). altera_avalon_jtag_uart_irq env k s)
      else Some (k + 1, with_hw (env k) s))"
  unfolding altera_avalon_jtag_uart_irq.simps [of env k s] Let_def control_bits by simp

lemma acts_pending: "host_acts h h' \<Longrightarrow> ipen_AF h \<Longrightarrow> ipen_AF h'" "host_acts h h' \<Longrightarrow> ipen_AE h \<Longrightarrow> ipen_AE h'"
  by (auto simp: host_acts_def ipen_AF_def ipen_AE_def)

lemma acts_work: "host_acts (hw s) (hw (with_hw f s)) \<Longrightarrow> rx_work (with_hw f s) \<le> rx_work s \<and> tx_work (with_hw f s) \<le> tx_work s"
  by (auto simp: host_acts_def rx_work_def tx_work_def)

lemma taken_mono: "uart_env_step t u \<Longrightarrow> rx_taken s t \<Longrightarrow> rx_taken s u"
  by (auto simp: rx_taken_def uart_env_step_def)

lemma irq_returns:
  "uart_ok s \<Longrightarrow> \<exists>k' s'. altera_avalon_jtag_uart_irq (host_env host) k s = Some (k', s') \<and> uart_env_step s s' \<and>
     \<not> av_irq (hw s') \<and> (ipen_AF (hw s) \<longrightarrow> rx_taken s s')"
proof (induction "rx_work s + tx_work s" arbitrary: k s rule: less_induct)
  case less
  define g where "g = with_hw (host_env host k) s"
  have sg: "uart_env_step s g" "host_acts (hw s) (hw g)" using host_step [OF less.prems] by (simp_all add: g_def)
  then have ok: "uart_ok g" by (simp add: uart_env_step_def)
  have wk: "rx_work g + tx_work g \<le> rx_work s + tx_work s" using acts_work sg(2) unfolding g_def by (simp add: add_mono)
  have tk: "rx_taken s u" if "rx_taken g u" for u using that sg(2) by (auto simp: rx_taken_def g_def host_acts_def)
  show ?case
  proof (cases "av_irq (hw g)")
    case False
    then have "\<not> ipen_AF (hw s)" using acts_pending(1) [OF sg(2)] by (auto simp: av_irq_def)
    then show ?thesis using False sg(1) by (simp add: irq_unfold [of _ k s] flip: g_def)
  next
    case True
    from irq_body_spec [OF ok True, of host "k + 1"] obtain k1 t where
      t: "irq_body (host_env host) (rd_control (hw g)) (k + 1) g = Some (k1, t)" "uart_env_step g t"
        "rx_work t + tx_work t < rx_work g + tx_work g" "ipen_AF (hw g) \<longrightarrow> rx_taken g t" by blast
    have okt: "uart_ok t" using t(2) by (simp add: uart_env_step_def)
    have "rx_work t + tx_work t < rx_work s + tx_work s" using t(3) wk by simp
    from less.hyps [OF this okt, of k1] obtain k' s' where
      s': "altera_avalon_jtag_uart_irq (host_env host) k1 t = Some (k', s')" "uart_env_step t s'" "\<not> av_irq (hw s')" by blast
    have "uart_env_step s s'" by (rule env_trans [OF env_trans [OF sg(1) t(2)] s'(2)])
    moreover have "rx_taken s s'" if "ipen_AF (hw s)"
      using tk taken_mono [OF s'(2)] t(4) acts_pending(1) [OF sg(2) that] by blast
    moreover have "altera_avalon_jtag_uart_irq (host_env host) k s = Some (k', s')"
      using True t(1) s'(1) by (simp add: irq_unfold [of _ k s] flip: g_def)
    ultimately show ?thesis using s'(3) by blast
  qed
qed

text \<open>With the host quiet, one turn is enough.\<close>

lemma irq_one_turn:
  assumes ok: "uart_ok s" and irq: "av_irq (hw s)" and quiet: "\<forall>k. host k = []"
  shows "\<exists>k' s'. irq_body (host_env host) (rd_control (hw s)) (k + 1) s = Some (k', s') \<and>
    altera_avalon_jtag_uart_irq (host_env host) k s = Some (k' + 1, s') \<and> \<not> av_irq (hw s') \<and>
    (ipen_AF (hw s) \<longrightarrow> rfifo (hw s') = [] \<or> length (rx_ring s') = BUF_LEN - 1) \<and>
    (ipen_AE (hw s) \<longrightarrow> tx_ring s' = [] \<or> length (wfifo (hw s')) = FIFO_LEN)"
proof -
  have id: "with_hw (host_env host k) t = t" for k t using quiet by (simp add: host_env_def with_hw_def)
  from irq_body_spec [OF ok irq, of host "k + 1"] obtain k' s' where
    b: "irq_body (host_env host) (rd_control (hw s)) (k + 1) s = Some (k', s')" "\<not> av_irq (hw s')"
      "ipen_AF (hw s) \<longrightarrow> rfifo (hw s') = [] \<or> length (rx_ring s') = BUF_LEN - 1"
      "ipen_AE (hw s) \<longrightarrow> tx_ring s' = [] \<or> length (wfifo (hw s')) = FIFO_LEN" using quiet by blast
  then show ?thesis
    using irq by (simp add: irq_unfold [of _ k s] irq_unfold [of _ k' s'] id)
qed

lemma isr_returns:
  "uart_ok s \<Longrightarrow> av_irq (hw s) \<Longrightarrow> \<exists>k. altera_avalon_jtag_uart_irq (host_env host) 0 s = Some (k, isr host s)"
  using irq_returns [of s host 0] by (auto simp: isr_def)

lemma isr_step: "uart_ok s \<Longrightarrow> uart_env_step s (isr host s) \<and> \<not> av_irq (hw (isr host s)) \<and> (ipen_AF (hw s) \<longrightarrow> rx_taken s (isr host s))"
  using irq_returns [of s host 0] by (auto simp: isr_def env_refl av_irq_def)

section \<open>Interrupts around the foreground\<close>

lemma event_step:
  assumes ok: "uart_ok s"
  shows "uart_env_step s (uart_event e s)"
proof (cases e)
  case (Interrupt host)
  then show ?thesis using isr_step [OF ok] by simp
next
  case Alarm
  then show ?thesis
    using ok mask_bits(9,10) [of "irq_enable (sp s)"] unfolding uart_env_step_def
    by (simp add: altera_avalon_jtag_uart_timeout_def Let_def uart_ok_def rx_ring_def tx_ring_def rx_stream_def
        tx_stream_def rx_live_def tx_live_def)
next
  case (Host h)
  from acts_step [OF ok host_event_acts [OF uart_ok_bounds(5) [OF ok]]] Host show ?thesis by (simp add: with_hw_def)
qed

text \<open>
  A script says which events happen at each interruption point of a run; \<open>run_events\<close> is the
  environment it makes.
\<close>

definition run_events :: "(nat \<Rightarrow> uart_ev list) \<Rightarrow> nat \<Rightarrow> uart \<Rightarrow> uart" where
  "run_events script k s = fold uart_event (script k) s"

lemma fold_events: "uart_ok s \<Longrightarrow> uart_env_step s (fold uart_event es s)"
proof (induction es arbitrary: s)
  case (Cons e es)
  have "uart_env_step s (uart_event e s)" by (rule event_step [OF Cons.prems])
  moreover from this have "uart_ok (uart_event e s)" by (simp add: uart_env_step_def)
  ultimately show ?case using Cons.IH env_trans by force
qed (simp add: env_refl)

text \<open>The device's line in the pending register, and the interrupt source it makes.\<close>

abbreviation (input) JTAG_UART_0_IRQ :: nat where "JTAG_UART_0_IRQ \<equiv> 5"

definition uart_pending :: "uart \<Rightarrow> alt_u32" where
  "uart_pending s = (if av_irq (hw s) then push_bit JTAG_UART_0_IRQ 1 else 0)"

interpretation jtag: irq_source uart_pending "\<lambda>n. isr host" "\<lambda>s. of_bool (av_irq (hw s))" uart_ok for host
  using isr_step by unfold_locales (auto simp: uart_pending_def uart_env_step_def split: if_splits)

end
