(* ===== verification/Jtag_Driver.thy ===== *)
theory Jtag_Driver
  imports Jtag_Uart
begin

text \<open>
  The foreground half of the JTAG UART driver: \<open>altera_avalon_jtag_uart_read\<close>, \<open>_write\<close>,
  \<open>_close\<close>, \<open>_ioctl\<close>, \<open>_init\<close>, their descriptor wrappers and the polling variants. Each
  runs with an environment \<open>env\<close>: \<open>env k\<close> is what interrupts and the host do at the \<open>k\<close>-th
  point where the code can be interrupted.
\<close>

section \<open>Reading\<close>

text \<open>
  One turn of the inner loop: the indices are read first, the bytes copied then, and \<open>rx_out\<close>
  stored last, with interrupts possible in between. The result says whether anything was
  there, the bytes, their number, the \<open>rx_in\<close> read, and the interruption points passed.
\<close>

definition read_chunk ::
    "(nat \<Rightarrow> uart \<Rightarrow> uart) \<Rightarrow> int \<Rightarrow> nat \<Rightarrow> uart \<Rightarrow> alt_u8 list \<times> nat \<times> nat \<times> nat \<times> uart" where
  "read_chunk env space k s =
     (let s = env k s; inx = rx_in (sp s); out = rx_out (sp s);
          n = (if out \<le> inx then inx - out else BUF_LEN - out)
      in if n = 0 then ([], 0, inx, k + 1, s)
         else (let n = (if space < int n then nat space else n);
                   s = env (k + 1) s;
                   bytes = take n (drop out (rx_buf (sp s)));
                   s = env (k + 2) s;
                   s = with_sp (\<lambda>p. p\<lparr>rx_out := (out + n) mod BUF_LEN\<rparr>) s
               in (bytes, n, inx, k + 3, s)))"

text \<open>The inner loop: the bytes copied so far, the space left, the \<open>rx_in\<close> read last.\<close>

function read_drain ::
    "(nat \<Rightarrow> uart \<Rightarrow> uart) \<Rightarrow> int \<Rightarrow> alt_u8 list \<Rightarrow> nat \<Rightarrow> uart \<Rightarrow> alt_u8 list \<times> int \<times> nat \<times> nat \<times> uart" where
  "read_drain env space ptr k s =
     (case read_chunk env space k s of (bytes, n, inx, k', s') \<Rightarrow>
        if 0 < n \<and> 0 < space - int n then read_drain env (space - int n) (ptr @ bytes) k' s'
        else (ptr @ bytes, space - int n, inx, k', s'))"
  by pat_completeness auto
termination
  by (relation "measure (\<lambda>(env, space, ptr, k, s). nat space)") auto

text \<open>The busy wait. \<open>None\<close>: it never ends.\<close>

partial_function (option) read_wait ::
    "(nat \<Rightarrow> uart \<Rightarrow> uart) \<Rightarrow> nat \<Rightarrow> nat \<Rightarrow> uart \<Rightarrow> (nat \<times> uart) option" where
  "read_wait env inx k s =
     (let s = env k s
      in if inx = rx_in (sp s) \<and> host_inactive (sp s) < timeout (sp s) then read_wait env inx (k + 1) s
         else Some (k + 1, s))"

partial_function (option) read_loop ::
    "(nat \<Rightarrow> uart \<Rightarrow> uart) \<Rightarrow> int \<Rightarrow> alt_u32 \<Rightarrow> nat \<Rightarrow> uart \<Rightarrow> (alt_u8 list \<times> nat \<times> uart) option" where
  "read_loop env space flags k s =
     (if 0 < space then
        (let (ptr, space, inx, k, s) = read_drain env space [] k s
         in if ptr \<noteq> [] then Some (ptr, k, s)
            else if flags AND O_NONBLOCK \<noteq> 0 then Some (ptr, k, s)
            else Option.bind (read_wait env inx k s) (\<lambda>(k, s).
                   let s = env k s
                   in if inx = rx_in (sp s) then Some (ptr, k + 1, s) else read_loop env space flags (k + 1) s))
      else Some ([], k, s))"

text \<open>The result: the return value and the bytes in the caller's buffer.\<close>

definition altera_avalon_jtag_uart_read ::
    "(nat \<Rightarrow> uart \<Rightarrow> uart) \<Rightarrow> int \<Rightarrow> alt_u32 \<Rightarrow> nat \<Rightarrow> uart \<Rightarrow> (int \<times> alt_u8 list \<times> nat \<times> uart) option" where
  "altera_avalon_jtag_uart_read env space flags k s =
     Option.bind (read_loop env space flags k s) (\<lambda>(ptr, k, s).
       let s = (if ptr \<noteq> [] then set_irq_enable (\<lambda>e. e OR RE_MSK) (env k s) else s)
       in Some (if ptr \<noteq> [] then int (length ptr)
                else if flags AND O_NONBLOCK \<noteq> 0 then - EWOULDBLOCK else - EIO, ptr, k + 1, s))"

section \<open>Writing\<close>

text \<open>One turn of the inner loop: how many bytes went into the ring, and the \<open>tx_out\<close> read.\<close>

definition write_chunk ::
    "(nat \<Rightarrow> uart \<Rightarrow> uart) \<Rightarrow> alt_u8 list \<Rightarrow> nat \<Rightarrow> uart \<Rightarrow> nat \<times> nat \<times> nat \<times> uart" where
  "write_chunk env ptr k s =
     (let s = env k s; inx = tx_in (sp s); out = tx_out (sp s);
          n = (if inx < out then out - 1 - inx else if 0 < out then BUF_LEN - inx else BUF_LEN - 1 - inx)
      in if n = 0 then (0, out, k + 1, s)
         else (let n = (if length ptr < n then length ptr else n);
                   s = env (k + 1) s;
                   s = with_sp (\<lambda>p. p\<lparr>tx_buf := blit inx (take n ptr) (tx_buf p)\<rparr>) s;
                   s = env (k + 2) s;
                   s = with_sp (\<lambda>p. p\<lparr>tx_in := (inx + n) mod BUF_LEN\<rparr>) s
               in (n, out, k + 3, s)))"

function write_fill ::
    "(nat \<Rightarrow> uart \<Rightarrow> uart) \<Rightarrow> alt_u8 list \<Rightarrow> nat \<Rightarrow> nat \<Rightarrow> uart \<Rightarrow> alt_u8 list \<times> nat \<times> nat \<times> uart" where
  "write_fill env ptr out k s =
     (if ptr = [] then (ptr, out, k, s)
      else (case write_chunk env ptr k s of (n, out, k', s') \<Rightarrow>
              if n = 0 then (ptr, out, k', s') else write_fill env (drop n ptr) out k' s'))"
  by pat_completeness auto
termination
  by (relation "measure (\<lambda>(env, ptr, out, k, s). length ptr)") auto

partial_function (option) write_wait ::
    "(nat \<Rightarrow> uart \<Rightarrow> uart) \<Rightarrow> nat \<Rightarrow> nat \<Rightarrow> uart \<Rightarrow> (nat \<times> uart) option" where
  "write_wait env out k s =
     (let s = env k s
      in if out = tx_out (sp s) \<and> host_inactive (sp s) < timeout (sp s) then write_wait env out (k + 1) s
         else Some (k + 1, s))"

text \<open>What is left of \<open>ptr\<close> is the part not written; \<open>out\<close> survives from turn to turn.\<close>

partial_function (option) write_loop ::
    "(nat \<Rightarrow> uart \<Rightarrow> uart) \<Rightarrow> alt_u8 list \<Rightarrow> nat \<Rightarrow> alt_u32 \<Rightarrow> nat \<Rightarrow> uart \<Rightarrow> (alt_u8 list \<times> nat \<times> uart) option" where
  "write_loop env ptr out flags k s =
     (let (ptr, out, k, s) = write_fill env ptr out k s;
          s = set_irq_enable (\<lambda>e. e OR WE_MSK) (env k s)
      in if ptr = [] then Some (ptr, k + 1, s)
         else if flags AND O_NONBLOCK \<noteq> 0 then Some (ptr, k + 1, s)
         else Option.bind (write_wait env out (k + 1) s) (\<lambda>(k, s).
                let s = env k s
                in if host_inactive (sp s) \<noteq> 0 then Some (ptr, k + 1, s)
                   else write_loop env ptr out flags (k + 1) s))"

definition altera_avalon_jtag_uart_write ::
    "(nat \<Rightarrow> uart \<Rightarrow> uart) \<Rightarrow> alt_u8 list \<Rightarrow> alt_u32 \<Rightarrow> nat \<Rightarrow> uart \<Rightarrow> (int \<times> nat \<times> uart) option" where
  "altera_avalon_jtag_uart_write env start flags k s =
     Option.bind (write_loop env start 0 flags k s) (\<lambda>(ptr, k, s).
       let n = int (length start) - int (length ptr)
       in Some (if n \<noteq> 0 then n else if flags AND O_NONBLOCK \<noteq> 0 then - EWOULDBLOCK else - EIO, k, s))"

section \<open>Closing and controlling\<close>

partial_function (option) altera_avalon_jtag_uart_close ::
    "(nat \<Rightarrow> uart \<Rightarrow> uart) \<Rightarrow> alt_u32 \<Rightarrow> nat \<Rightarrow> uart \<Rightarrow> (int \<times> nat \<times> uart) option" where
  "altera_avalon_jtag_uart_close env flags k s =
     (let s = env k s
      in if tx_out (sp s) \<noteq> tx_in (sp s) \<and> host_inactive (sp s) < timeout (sp s) then
           if flags AND O_NONBLOCK \<noteq> 0 then Some (- EWOULDBLOCK, k + 1, s)
           else altera_avalon_jtag_uart_close env flags (k + 1) s
         else Some (0, k + 1, s))"

abbreviation (input) TIOCSTIMEOUT :: int where "TIOCSTIMEOUT \<equiv> 0x6a01"
abbreviation (input) TIOCGCONNECTED :: int where "TIOCGCONNECTED \<equiv> 0x6a02"
abbreviation (input) UINT_INT_MAX :: alt_u32 where "UINT_INT_MAX \<equiv> 0x7FFFFFFF"

text \<open>\<open>arg\<close> is the \<open>int\<close> behind the pointer, before and after.\<close>

definition altera_avalon_jtag_uart_ioctl :: "int \<Rightarrow> int \<Rightarrow> uart \<Rightarrow> int \<times> int \<times> uart" where
  "altera_avalon_jtag_uart_ioctl req arg s =
     (if req = TIOCSTIMEOUT then
        if timeout (sp s) \<noteq> UINT_INT_MAX then
          (0, arg, with_sp (\<lambda>p. p\<lparr>timeout := (if 2 \<le> arg \<and> arg < INT_MAX then word_of_int arg
                                                    else UINT_INT_MAX - 1)\<rparr>) s)
        else (- ENOTTY, arg, s)
      else if req = TIOCGCONNECTED then
        if timeout (sp s) \<noteq> UINT_INT_MAX then
          (0, if host_inactive (sp s) < timeout (sp s) then 1 else 0, s)
        else (- ENOTTY, arg, s)
      else (- ENOTTY, arg, s))"

section \<open>Foreground steps\<close>

text \<open>
  What a piece of \<open>read\<close> may do in the midst of interrupts: take \<open>bytes\<close> off the front of the
  incoming stream. With no bytes it is as quiet as an interrupt.
\<close>

definition uart_read_step :: "alt_u8 list \<Rightarrow> uart \<Rightarrow> uart \<Rightarrow> bool" where
  "uart_read_step bytes s s' \<longleftrightarrow> uart_ok s' \<and>
     tx_in (sp s') = tx_in (sp s) \<and> tx_buf (sp s') = tx_buf (sp s) \<and> timeout (sp s') = timeout (sp s) \<and>
     (\<exists>m. rx_ring s @ m = bytes @ rx_ring s') \<and>
     (\<forall>d. typed (hw s) = d @ rx_stream s \<longrightarrow> typed (hw s') = (d @ bytes) @ rx_stream s') \<and>
     shown (hw s') @ tx_stream s' = shown (hw s) @ tx_stream s \<and>
     (bytes = [] \<longrightarrow> rx_out (sp s') = rx_out (sp s)) \<and>
     (bytes = [] \<longrightarrow> rx_live s \<longrightarrow> rx_live s') \<and> (tx_live s \<longrightarrow> tx_live s')"

lemma read_step_env: "uart_env_step s s' \<Longrightarrow> uart_read_step [] s s'"
  by (auto simp: uart_env_step_def uart_read_step_def)

lemma read_step_ok: "uart_read_step bs s t \<Longrightarrow> uart_ok t"
  by (simp add: uart_read_step_def)

lemma read_step_trans:
  assumes s: "uart_read_step bs s t" and t: "uart_read_step cs t u"
  shows "uart_read_step (bs @ cs) s u"
proof -
  obtain m where "rx_ring s @ m = bs @ rx_ring t" using s by (auto simp: uart_read_step_def)
  moreover obtain m' where "rx_ring t @ m' = cs @ rx_ring u" using t by (auto simp: uart_read_step_def)
  ultimately have "rx_ring s @ (m @ m') = (bs @ cs) @ rx_ring u" by (metis append.assoc)
  then have "\<exists>m. rx_ring s @ m = (bs @ cs) @ rx_ring u" by blast
  moreover have "typed (hw u) = (d @ bs @ cs) @ rx_stream u" if "typed (hw s) = d @ rx_stream s" for d
  proof -
    have "typed (hw t) = (d @ bs) @ rx_stream t" using s that unfolding uart_read_step_def by blast
    then have "typed (hw u) = ((d @ bs) @ cs) @ rx_stream u" using t unfolding uart_read_step_def by blast
    then show ?thesis by simp
  qed
  ultimately show ?thesis using s t unfolding uart_read_step_def by simp
qed

lemma length_rx_ring: "length (rx_ring s) = ring_used (rx_in (sp s)) (rx_out (sp s))"
  by (simp add: rx_ring_def)

lemma length_tx_ring: "length (tx_ring s) = ring_used (tx_in (sp s)) (tx_out (sp s))"
  by (simp add: tx_ring_def)

lemma rings_ok:
  "uart_ok s \<Longrightarrow> ring_ok (rx_buf (sp s)) (rx_in (sp s)) (rx_out (sp s))"
  "uart_ok s \<Longrightarrow> ring_ok (tx_buf (sp s)) (tx_in (sp s)) (tx_out (sp s))"
  by (simp_all add: uart_ok_def)

lemma read_advance_step:
  assumes ok: "uart_ok s" and n: "n \<le> ring_used (rx_in (sp s)) (rx_out (sp s))" "0 < n"
  shows "uart_read_step (take n (rx_ring s)) s (with_sp (\<lambda>p. p\<lparr>rx_out := (rx_out (sp s) + n) mod BUF_LEN\<rparr>) s)"
proof -
  have r: "ring_ok (rx_buf (sp s)) (rx_in (sp s)) (rx_out (sp s))" using ok by (simp add: uart_ok_def)
  have "rx_ring s \<noteq> []" using n by (auto simp: rx_ring_def simp flip: length_0_conv)
  moreover have "xs @ ys = take n xs @ drop n xs @ ys" for xs ys :: "alt_u8 list"
    by (metis append.assoc append_take_drop_id)
  ultimately show ?thesis
    using ok ring_drop [OF r n(1)] n(2) unfolding uart_read_step_def
    by (simp add: uart_ok_def rx_ring_def tx_ring_def rx_stream_def tx_stream_def tx_live_def)
qed

lemma enable_rx_step:
  assumes "uart_ok s"
  shows "uart_ok (set_irq_enable (\<lambda>e. e OR RE_MSK) s)" "rx_live (set_irq_enable (\<lambda>e. e OR RE_MSK) s)"
    "tx_live (set_irq_enable (\<lambda>e. e OR RE_MSK) s) = tx_live s"
  using assms mask_bits(5,6) [of "irq_enable (sp s)"] by (simp_all add: uart_ok_def rx_live_def tx_live_def)

lemma enable_tx_step:
  assumes "uart_ok s"
  shows "uart_ok (set_irq_enable (\<lambda>e. e OR WE_MSK) s)" "tx_live (set_irq_enable (\<lambda>e. e OR WE_MSK) s)"
    "rx_live (set_irq_enable (\<lambda>e. e OR WE_MSK) s) = rx_live s"
  using assms mask_bits(7,8) [of "irq_enable (sp s)"] by (simp_all add: uart_ok_def rx_live_def tx_live_def)

lemma set_irq_enable_streams [simp]:
  "rx_ring (set_irq_enable f s) = rx_ring s" "tx_ring (set_irq_enable f s) = tx_ring s"
  "rx_stream (set_irq_enable f s) = rx_stream s" "tx_stream (set_irq_enable f s) = tx_stream s"
  by (simp_all add: rx_ring_def tx_ring_def rx_stream_def tx_stream_def)

text \<open>What a piece of \<open>write\<close> may do: append \<open>bytes\<close> to the outgoing stream.\<close>

definition uart_write_step :: "alt_u8 list \<Rightarrow> uart \<Rightarrow> uart \<Rightarrow> bool" where
  "uart_write_step bytes s s' \<longleftrightarrow> uart_ok s' \<and>
     rx_out (sp s') = rx_out (sp s) \<and> timeout (sp s') = timeout (sp s) \<and> (\<exists>m. rx_ring s' = rx_ring s @ m) \<and>
     (\<forall>d. typed (hw s) = d @ rx_stream s \<longrightarrow> typed (hw s') = d @ rx_stream s') \<and>
     shown (hw s') @ tx_stream s' = shown (hw s) @ tx_stream s @ bytes \<and>
     (\<exists>d. tx_ring s @ bytes = d @ tx_ring s') \<and> (rx_live s \<longrightarrow> rx_live s')"

lemma write_step_env: "uart_env_step s s' \<Longrightarrow> uart_write_step [] s s'"
  by (auto simp: uart_env_step_def uart_write_step_def)

lemma write_step_ok: "uart_write_step bs s t \<Longrightarrow> uart_ok t"
  by (simp add: uart_write_step_def)

lemma write_step_trans:
  assumes s: "uart_write_step bs s t" and t: "uart_write_step cs t u"
  shows "uart_write_step (bs @ cs) s u"
proof -
  obtain d where "tx_ring s @ bs = d @ tx_ring t" using s by (auto simp: uart_write_step_def)
  moreover obtain d' where "tx_ring t @ cs = d' @ tx_ring u" using t by (auto simp: uart_write_step_def)
  ultimately have "tx_ring s @ bs @ cs = (d @ d') @ tx_ring u" by (metis append.assoc)
  then have "\<exists>d. tx_ring s @ bs @ cs = d @ tx_ring u" by blast
  with s t show ?thesis unfolding uart_write_step_def by (metis append_assoc)
qed

lemma write_enable_step: "uart_ok s \<Longrightarrow> uart_write_step [] s (set_irq_enable (\<lambda>e. e OR WE_MSK) s)"
  using enable_tx_step [of s] by (simp add: uart_write_step_def)

text \<open>Storing the bytes, and then the index that publishes them.\<close>

definition tx_store :: "nat \<Rightarrow> alt_u8 list \<Rightarrow> uart \<Rightarrow> uart" where
  "tx_store inx xs = with_sp (\<lambda>p. p\<lparr>tx_buf := blit inx xs (tx_buf p)\<rparr>)"

lemma tx_store_step:
  assumes ok: "uart_ok s" and fits: "tx_in (sp s) + length xs \<le> BUF_LEN" "length xs + length (tx_ring s) < BUF_LEN"
  shows "uart_write_step [] s (tx_store (tx_in (sp s)) xs s) \<and> tx_ring (tx_store (tx_in (sp s)) xs s) = tx_ring s"
  using ok ring_blit_outside [OF rings_ok(2) [OF ok] fits(1)] fits(2)
  by (simp add: uart_write_step_def tx_store_def uart_ok_def rx_ring_def tx_ring_def rx_stream_def tx_stream_def rx_live_def)

lemma tx_publish_step:
  assumes ok: "uart_ok s" and fits: "tx_in (sp s) + length xs \<le> BUF_LEN" "length xs + length (tx_ring s) < BUF_LEN"
    and stored: "blit (tx_in (sp s)) xs (tx_buf (sp s)) = tx_buf (sp s)"
  shows "uart_write_step xs s (with_sp (\<lambda>p. p\<lparr>tx_in := (tx_in (sp s) + length xs) mod BUF_LEN\<rparr>) s)"
  using ok ring_blit [OF rings_ok(2) [OF ok] fits(1)] fits(2) stored
  by (simp add: uart_write_step_def uart_ok_def rx_ring_def tx_ring_def rx_stream_def tx_stream_def rx_live_def)

text \<open>
  The environment of the driver: anything the events can do, at any point. The foreground's
  guarantees follow from this alone.
\<close>

locale uart_env =
  fixes env :: "nat \<Rightarrow> uart \<Rightarrow> uart"
  assumes env: "uart_ok s \<Longrightarrow> uart_env_step s (env k s)"
begin

lemma env_ok: "uart_ok s \<Longrightarrow> uart_ok (env k s)"
  using env by (simp add: uart_env_step_def)

text \<open>The copy is right although \<open>rx_in\<close> may have moved on since it was read.\<close>

lemma read_chunk_spec:
  assumes ok: "uart_ok s" and sp: "0 < space" and c: "read_chunk env space k s = (bytes, n, inx, k', s')"
  shows "uart_read_step bytes s s' \<and> length bytes = n \<and> int n \<le> space \<and> (n = 0 \<longrightarrow> rx_ring s' = [] \<and> inx = rx_in (sp s'))"
proof -
  define s1 where "s1 = env k s"
  define out where "out = rx_out (sp s1)"
  define m where "m = (if out \<le> rx_in (sp s1) then rx_in (sp s1) - out else BUF_LEN - out)"
  have e1: "uart_env_step s s1" using env [OF ok] by (simp add: s1_def)
  then have ok1: "uart_ok s1" by (simp add: uart_env_step_def)
  have r1: "ring_ok (rx_buf (sp s1)) (rx_in (sp s1)) out" using ok1 by (simp add: uart_ok_def out_def)
  have m_le: "m \<le> length (rx_ring s1)" "out + m \<le> BUF_LEN" "m = 0 \<longleftrightarrow> rx_ring s1 = []"
    using r1 ring_empty_iff [OF r1] by (auto simp: m_def ring_used_def ring_ok_def rx_ring_def out_def)
  show ?thesis
  proof (cases "m = 0")
    case True
    then have "bytes = []" "n = 0" "inx = rx_in (sp s1)" "s' = s1"
      using c by (auto simp: read_chunk_def Let_def m_def out_def s1_def split: if_splits)
    moreover have "rx_ring s1 = []" using m_le(3) True by simp
    ultimately show ?thesis using read_step_env [OF e1] sp by simp
  next
    case False
    define q where "q = (if space < int m then nat space else m)"
    have q: "0 < q" "q \<le> m" "int q \<le> space" using False sp by (auto simp: q_def)
    define s2 where "s2 = env (k + 1) s1"
    define s3 where "s3 = env (k + 2) s2"
    have e2: "uart_env_step s1 s2" using env [OF ok1] by (simp add: s2_def)
    then have ok2: "uart_ok s2" by (simp add: uart_env_step_def)
    have e3: "uart_env_step s2 s3" using env [OF ok2] by (simp add: s3_def)
    then have ok3: "uart_ok s3" by (simp add: uart_env_step_def)
    have o: "rx_out (sp s2) = out" "rx_out (sp s3) = out" using e2 e3 by (simp_all add: uart_env_step_def out_def)
    obtain x y where x: "rx_ring s2 = rx_ring s1 @ x" "rx_ring s3 = rx_ring s2 @ y"
      using e2 e3 by (auto simp: uart_env_step_def)
    have ql: "q \<le> length (rx_ring s1)" using q m_le(1) by simp
    have "take q (drop out (rx_buf (sp s2))) = take q (rx_ring s2)"
      using ring_block [OF rings_ok(1) [OF ok2], of q] o x(1) ql q m_le(2) length_rx_ring [of s2]
      by (simp add: rx_ring_def [of s2])
    then have b: "take q (drop out (rx_buf (sp s2))) = take q (rx_ring s3)" using x ql by simp
    have "read_chunk env space k s = (take q (drop out (rx_buf (sp s2))), q, rx_in (sp s1), k + 3,
        with_sp (\<lambda>p. p\<lparr>rx_out := (out + q) mod BUF_LEN\<rparr>) s3)"
      using False unfolding read_chunk_def Let_def q_def s3_def s2_def m_def out_def s1_def by simp
    then have c': "bytes = take q (rx_ring s3)" "n = q"
        "s' = with_sp (\<lambda>p. p\<lparr>rx_out := (out + q) mod BUF_LEN\<rparr>) s3"
      using c b by simp_all
    have "q \<le> ring_used (rx_in (sp s3)) (rx_out (sp s3))"
      using ql x length_rx_ring [of s3] by simp
    from read_advance_step [OF ok3 this q(1)] have "uart_read_step bytes s3 s'" unfolding c' o .
    from read_step_trans [OF read_step_env [OF env_trans [OF env_trans [OF e1 e2] e3]] this]
    show ?thesis using c' q ql x by simp
  qed
qed

declare read_drain.simps [simp del]

lemma read_drain_spec:
  "uart_ok s \<Longrightarrow> 0 < space \<Longrightarrow> read_drain env space ptr k s = (ptr', space', inx, k', s') \<Longrightarrow>
   \<exists>bytes. ptr' = ptr @ bytes \<and> uart_read_step bytes s s' \<and> space' = space - int (length bytes) \<and> 0 \<le> space' \<and>
     min (nat space) (length (rx_ring s)) \<le> length bytes \<and> (bytes = [] \<longrightarrow> rx_ring s' = [] \<and> inx = rx_in (sp s'))"
proof (induction "nat space" arbitrary: space ptr k s rule: less_induct)
  case less
  obtain bytes n inx1 k1 t where c: "read_chunk env space k s = (bytes, n, inx1, k1, t)" by (metis prod_cases5)
  note ch = read_chunk_spec [OF less.prems(1,2) c]
  obtain m where m: "rx_ring s @ m = bytes @ rx_ring t" using ch by (auto simp: uart_read_step_def)
  show ?case
  proof (cases "0 < n \<and> 0 < space - int n")
    case True
    then have "read_drain env (space - int n) (ptr @ bytes) k1 t = (ptr', space', inx, k', s')"
      using less.prems(3) c by (simp add: read_drain.simps [of _ _ ptr])
    with True less.prems(2) obtain bs where bs: "ptr' = (ptr @ bytes) @ bs" "uart_read_step bs t s'"
        "space' = space - int n - int (length bs)" "0 \<le> space'"
        "min (nat (space - int n)) (length (rx_ring t)) \<le> length bs"
      using less.hyps [of "space - int n" t "ptr @ bytes" k1] ch read_step_ok by (auto simp: nat_less_iff)
    have "length (rx_ring s) \<le> n + length (rx_ring t)" using arg_cong [OF m, of length] ch by simp
    then have "min (nat space) (length (rx_ring s)) \<le> length (bytes @ bs)"
      using bs(5) ch True by (auto simp: min_def nat_diff_distrib split: if_splits)
    moreover have "uart_read_step (bytes @ bs) s s'" using ch bs(2) read_step_trans by blast
    ultimately show ?thesis using bs ch True by (intro exI [of _ "bytes @ bs"]) auto
  next
    case False
    then have r: "ptr' = ptr @ bytes" "space' = space - int n" "inx = inx1" "s' = t"
      using less.prems(3) c by (auto simp: read_drain.simps [of _ _ ptr])
    have "min (nat space) (length (rx_ring s)) \<le> length bytes"
    proof (cases "n = 0")
      case True
      then show ?thesis using ch m by simp
    qed (use False ch less.prems(2) in auto)
    with r ch show ?thesis by (intro exI [of _ bytes]) auto
  qed
qed

lemma read_wait_spec:
  assumes "read_wait env inx k s = Some (k', s')" "uart_ok s"
  shows "uart_env_step s s' \<and> (inx \<noteq> rx_in (sp s') \<or> timeout (sp s') \<le> host_inactive (sp s'))"
proof -
  have "e = env \<longrightarrow> uart_ok s \<longrightarrow> uart_env_step s (snd r) \<and>
      (inx \<noteq> rx_in (sp (snd r)) \<or> timeout (sp (snd r)) \<le> host_inactive (sp (snd r)))"
    if "read_wait e inx k s = Some r" for e inx k s r
  proof (rule read_wait.raw_induct [OF _ that], goal_cases)
    case (1 w e inx k s r)
    show ?case
    proof (intro impI)
      assume e: "e = env" and ok: "uart_ok s"
      note st = env [OF ok, of k]
      show "uart_env_step s (snd r) \<and> (inx \<noteq> rx_in (sp (snd r)) \<or> timeout (sp (snd r)) \<le> host_inactive (sp (snd r)))"
        using 1(1) [of e inx "k + 1" "env k s" r] 1(2) st env_trans [OF st] env_ok [OF ok] unfolding e Let_def
        by (auto split: if_splits)
    qed
  qed
  from this [OF assms(1)] assms(2) show ?thesis by simp
qed

text \<open>The facts about one run of \<open>read\<close> up to the point where it enables the interrupt again.\<close>

definition read_post :: "int \<Rightarrow> uart \<Rightarrow> alt_u8 list \<Rightarrow> uart \<Rightarrow> bool" where
  "read_post space s ptr s' \<longleftrightarrow> uart_read_step ptr s s' \<and> length ptr \<le> nat space \<and>
     min (nat space) (length (rx_ring s)) \<le> length ptr \<and> (ptr = [] \<longrightarrow> 0 < space \<longrightarrow> rx_ring s' = [])"

lemma empty_ring_stays:
  assumes "uart_ok s" "rx_ring s = []" "rx_in (sp s) = inx" "uart_env_step s s'" "inx = rx_in (sp s')"
  shows "rx_ring s' = []"
proof -
  have "rx_in (sp s) = rx_out (sp s)"
    using ring_empty_iff [OF rings_ok(1) [OF assms(1)]] assms(2) by (simp add: rx_ring_def)
  moreover have "uart_ok s'" "rx_out (sp s') = rx_out (sp s)" using assms(4) by (simp_all add: uart_env_step_def)
  ultimately show ?thesis
    using ring_empty_iff [OF rings_ok(1), of s'] assms(3,5) by (simp add: rx_ring_def)
qed

lemma read_loop_spec:
  assumes "read_loop env space flags k s = Some (ptr, k', s')" "uart_ok s"
  shows "read_post space s ptr s'"
proof -
  have "e = env \<longrightarrow> uart_ok s \<longrightarrow> read_post space s (fst r) (snd (snd r))"
    if "read_loop e space flags k s = Some r" for e space flags k s r
  proof (rule read_loop.raw_induct [OF _ that], goal_cases)
    case (1 w e space flags k s r)
    show ?case
    proof (intro impI)
      assume e: "e = env" and ok: "uart_ok s"
      show "read_post space s (fst r) (snd (snd r))"
      proof (cases "0 < space")
        case False
        then show ?thesis using 1(2) read_step_env [OF env_refl [OF ok]] by (auto simp: read_post_def)
      next
        case pos: True
        obtain ptr sp1 inx k1 t where d: "read_drain env space [] k s = (ptr, sp1, inx, k1, t)" by (metis prod_cases5)
        have dr: "uart_read_step ptr s t" "sp1 = space - int (length ptr)" "0 \<le> sp1"
            "min (nat space) (length (rx_ring s)) \<le> length ptr" "ptr = [] \<longrightarrow> rx_ring t = [] \<and> inx = rx_in (sp t)"
          using read_drain_spec [OF ok pos d] by auto
        have okt: "uart_ok t" using read_step_ok [OF dr(1)] .
        show ?thesis
        proof (cases "ptr = [] \<and> flags AND O_NONBLOCK = 0")
          case False
          then have "r = (ptr, k1, t)" using 1(2) pos d unfolding e by (auto split: if_splits)
          then show ?thesis using dr pos by (auto simp: read_post_def)
        next
          case True
          then have sp1: "sp1 = space" "ptr = []" using dr by simp_all
          obtain k2 u where wt: "read_wait env inx k1 t = Some (k2, u)"
            and rest: "(if inx = rx_in (sp (env k2 u)) then Some ([], k2 + 1, env k2 u)
              else w env space flags (k2 + 1) (env k2 u)) = Some r"
            using 1(2) pos d True sp1 unfolding e by (auto simp: Let_def bind_eq_Some_conv)
          have tu: "uart_env_step t u" using read_wait_spec [OF wt okt] by simp
          then have oku: "uart_ok u" by (simp add: uart_env_step_def)
          have tv: "uart_env_step t (env k2 u)" by (rule env_trans [OF tu env [OF oku]])
          have sv: "uart_read_step [] s (env k2 u)"
            using read_step_trans [OF dr(1) read_step_env [OF tv]] sp1(2) by simp
          show ?thesis
          proof (cases "inx = rx_in (sp (env k2 u))")
            case True
            then have r: "r = ([], k2 + 1, env k2 u)" using rest by simp
            have "rx_ring (env k2 u) = []" using empty_ring_stays [OF okt _ _ tv True] dr(5) sp1(2) by simp
            then show ?thesis using r sv dr(4) sp1(2) by (simp add: read_post_def)
          next
            case False
            then have "w env space flags (k2 + 1) (env k2 u) = Some r" using rest by simp
            from 1(1) [OF this] env_ok [OF oku] have "read_post space (env k2 u) (fst r) (snd (snd r))" by blast
            moreover have "min (nat space) (length (rx_ring s)) = 0" using dr(4) sp1(2) by simp
            ultimately show ?thesis using read_step_trans [OF sv] by (simp add: read_post_def)
          qed
        qed
      qed
    qed
  qed
  from this [OF assms(1)] assms(2) show ?thesis by simp
qed

lemma read_spec:
  assumes r: "altera_avalon_jtag_uart_read env space flags k s = Some (rc, ptr, k', s')" and ok: "uart_ok s"
  shows "uart_ok s'" "typed (hw s) = d @ rx_stream s \<Longrightarrow> typed (hw s') = (d @ ptr) @ rx_stream s'"
    "shown (hw s') @ tx_stream s' = shown (hw s) @ tx_stream s"
    "rc = (if ptr \<noteq> [] then int (length ptr) else if flags AND O_NONBLOCK \<noteq> 0 then - EWOULDBLOCK else - EIO)"
    "length ptr \<le> nat space" "min (nat space) (length (rx_ring s)) \<le> length ptr"
    "ptr = [] \<Longrightarrow> 0 < space \<Longrightarrow> rx_ring s' = []"
    "rx_live s \<Longrightarrow> rx_live s'" "tx_live s \<Longrightarrow> tx_live s'"
proof -
  obtain k1 t where l: "read_loop env space flags k s = Some (ptr, k1, t)"
    and s': "s' = (if ptr \<noteq> [] then set_irq_enable (\<lambda>e. e OR RE_MSK) (env k1 t) else t)"
    and rc: "rc = (if ptr \<noteq> [] then int (length ptr) else if flags AND O_NONBLOCK \<noteq> 0 then - EWOULDBLOCK else - EIO)"
    using r unfolding altera_avalon_jtag_uart_read_def bind_eq_Some_conv by (auto simp: Let_def)
  have p: "read_post space s ptr t" by (rule read_loop_spec [OF l ok])
  then have st: "uart_read_step ptr s t" and okt: "uart_ok t" by (simp_all add: read_post_def uart_read_step_def)
  have "uart_env_step t (env k1 t)" by (rule env [OF okt])
  from read_step_trans [OF st read_step_env [OF this]] have st': "uart_read_step ptr s (env k1 t)" by simp
  note e = enable_rx_step [OF read_step_ok [OF st']]
  show "uart_ok s'" "typed (hw s) = d @ rx_stream s \<Longrightarrow> typed (hw s') = (d @ ptr) @ rx_stream s'"
    "shown (hw s') @ tx_stream s' = shown (hw s) @ tx_stream s"
    "rx_live s \<Longrightarrow> rx_live s'" "tx_live s \<Longrightarrow> tx_live s'"
    using st st' okt e unfolding s' by (auto simp: uart_read_step_def)
  show "rc = (if ptr \<noteq> [] then int (length ptr) else if flags AND O_NONBLOCK \<noteq> 0 then - EWOULDBLOCK else - EIO)"
    "length ptr \<le> nat space" "min (nat space) (length (rx_ring s)) \<le> length ptr"
    "ptr = [] \<Longrightarrow> 0 < space \<Longrightarrow> rx_ring s' = []"
    using rc p unfolding s' by (auto simp: read_post_def)
qed

text \<open>A call that need not wait always returns.\<close>

lemma read_returns:
  assumes ok: "uart_ok s" and now: "flags AND O_NONBLOCK \<noteq> 0 \<or> rx_ring s \<noteq> [] \<or> space \<le> 0"
  shows "altera_avalon_jtag_uart_read env space flags k s \<noteq> None"
proof (cases "0 < space")
  case True
  obtain ptr sp1 inx k1 t where d: "read_drain env space [] k s = (ptr, sp1, inx, k1, t)" by (metis prod_cases5)
  have "min (nat space) (length (rx_ring s)) \<le> length ptr" using read_drain_spec [OF ok True d] by auto
  then have "ptr \<noteq> [] \<or> flags AND O_NONBLOCK \<noteq> 0" using now True by (auto simp: min_def split: if_splits)
  then have "read_loop env space flags k s = Some (ptr, k1, t)" using d True by (auto simp: read_loop.simps)
  then show ?thesis by (simp add: altera_avalon_jtag_uart_read_def Let_def)
next
  case False
  then show ?thesis by (simp add: altera_avalon_jtag_uart_read_def read_loop.simps Let_def)
qed

end

declare write_fill.simps [simp del]

context uart_env
begin

text \<open>
  The room computed from a \<open>tx_out\<close> that may be old is never too much: the handler only makes
  more.
\<close>

lemma write_chunk_spec:
  assumes ok: "uart_ok s" and ne: "ptr \<noteq> []" and c: "write_chunk env ptr k s = (n, out, k', s')"
  shows "n \<le> length ptr \<and> uart_write_step (take n ptr) s s' \<and>
    (n = 0 \<longrightarrow> length (tx_ring s') = BUF_LEN - 1 \<and> out = tx_out (sp s'))"
proof -
  define s1 where "s1 = env k s"
  define inx where "inx = tx_in (sp s1)"
  define o1 where "o1 = tx_out (sp s1)"
  define m where "m = (if inx < o1 then o1 - 1 - inx else if 0 < o1 then BUF_LEN - inx else BUF_LEN - 1 - inx)"
  have e1: "uart_env_step s s1" using env [OF ok] by (simp add: s1_def)
  then have ok1: "uart_ok s1" by (simp add: uart_env_step_def)
  have m_le: "m + length (tx_ring s1) < BUF_LEN" "inx + m \<le> BUF_LEN" "m = 0 \<longrightarrow> length (tx_ring s1) = BUF_LEN - 1"
    using rings_ok(2) [OF ok1] by (auto simp: m_def inx_def o1_def length_tx_ring ring_ok_def ring_used_def)
  show ?thesis
  proof (cases "m = 0")
    case True
    then have "n = 0" "out = o1" "s' = s1"
      using c by (auto simp: write_chunk_def Let_def m_def inx_def o1_def s1_def split: if_splits)
    then show ?thesis using write_step_env [OF e1] m_le(3) True by (simp add: o1_def)
  next
    case False
    define q where "q = (if length ptr < m then length ptr else m)"
    define xs where "xs = take q ptr"
    have q: "0 < q" "q \<le> m" "length xs = q" using False ne by (auto simp: q_def xs_def)
    define s2 where "s2 = env (k + 1) s1"
    define t where "t = tx_store inx xs s2"
    define s3 where "s3 = env (k + 2) t"
    have e2: "uart_env_step s1 s2" using env [OF ok1] by (simp add: s2_def)
    then have ok2: "uart_ok s2" and in2: "tx_in (sp s2) = inx"
      by (simp_all add: uart_env_step_def inx_def)
    have len2: "length (tx_ring s2) \<le> length (tx_ring s1)" using e2 by (auto simp: uart_env_step_def)
    then have fits: "tx_in (sp s2) + length xs \<le> BUF_LEN" "length xs + length (tx_ring s2) < BUF_LEN"
      using m_le q in2 by simp_all
    from tx_store_step [OF ok2 fits] have st: "uart_write_step [] s2 t" "tx_ring t = tx_ring s2"
      by (simp_all add: t_def in2)
    have okt: "uart_ok t" by (rule write_step_ok [OF st(1)])
    then have e3: "uart_env_step t s3" using env by (simp add: s3_def)
    then have ok3: "uart_ok s3" and in3: "tx_in (sp s3) = inx" "tx_buf (sp s3) = blit inx xs (tx_buf (sp s2))"
      using in2 by (simp_all add: uart_env_step_def t_def tx_store_def)
    have "length (tx_ring s3) \<le> length (tx_ring t)" using e3 by (auto simp: uart_env_step_def)
    then have fits3: "tx_in (sp s3) + length xs \<le> BUF_LEN" "length xs + length (tx_ring s3) < BUF_LEN"
      using fits st(2) in2 in3 by simp_all
    have "blit (tx_in (sp s3)) xs (tx_buf (sp s3)) = tx_buf (sp s3)"
      using rings_ok(2) [OF ok2] fits(1) in2 in3 by (simp add: blit_again ring_ok_def)
    from tx_publish_step [OF ok3 fits3 this]
    have "uart_write_step xs s3 (with_sp (\<lambda>p. p\<lparr>tx_in := (inx + q) mod BUF_LEN\<rparr>) s3)" by (simp add: in3 q)
    with write_step_trans [OF write_step_trans [OF write_step_env [OF env_trans [OF e1 e2]] st(1)] write_step_env [OF e3]]
    have "uart_write_step xs s (with_sp (\<lambda>p. p\<lparr>tx_in := (inx + q) mod BUF_LEN\<rparr>) s3)"
      using write_step_trans by fastforce
    moreover have "write_chunk env ptr k s = (q, o1, k + 3, with_sp (\<lambda>p. p\<lparr>tx_in := (inx + q) mod BUF_LEN\<rparr>) s3)"
      using False unfolding write_chunk_def Let_def s3_def t_def tx_store_def xs_def q_def s2_def m_def inx_def o1_def s1_def
      by simp
    ultimately show ?thesis using c q by (auto simp: xs_def q_def)
  qed
qed

lemma write_fill_spec:
  "uart_ok s \<Longrightarrow> write_fill env ptr out k s = (rest, out', k', s') \<Longrightarrow>
   \<exists>bytes. ptr = bytes @ rest \<and> uart_write_step bytes s s' \<and>
     (rest \<noteq> [] \<longrightarrow> length (tx_ring s') = BUF_LEN - 1 \<and> out' = tx_out (sp s'))"
proof (induction "length ptr" arbitrary: ptr out k s rule: less_induct)
  case less
  show ?case
  proof (cases "ptr = []")
    case True
    then show ?thesis using less.prems write_step_env [OF env_refl] by (auto simp: write_fill.simps)
  next
    case False
    obtain n o1 k1 t where c: "write_chunk env ptr k s = (n, o1, k1, t)" by (metis prod_cases4)
    note ch = write_chunk_spec [OF less.prems(1) False c]
    show ?thesis
    proof (cases "n = 0")
      case True
      then show ?thesis using less.prems(2) False c ch by (auto simp: write_fill.simps)
    next
      case n: False
      then have "write_fill env (drop n ptr) o1 k1 t = (rest, out', k', s')"
        using less.prems(2) False c by (simp add: write_fill.simps [of _ ptr])
      moreover have "uart_ok t" using ch write_step_ok by blast
      ultimately obtain bs where bs: "drop n ptr = bs @ rest" "uart_write_step bs t s'"
          "rest \<noteq> [] \<longrightarrow> length (tx_ring s') = BUF_LEN - 1 \<and> out' = tx_out (sp s')"
        using less.hyps [of "drop n ptr" t o1 k1] n False by auto
      moreover have "ptr = (take n ptr @ bs) @ rest" using bs(1) by (metis append.assoc append_take_drop_id)
      ultimately show ?thesis using ch write_step_trans by blast
    qed
  qed
qed

lemma write_wait_spec:
  assumes "write_wait env out k s = Some (k', s')" "uart_ok s"
  shows "uart_env_step s s' \<and> (out \<noteq> tx_out (sp s') \<or> timeout (sp s') \<le> host_inactive (sp s'))"
proof -
  have "e = env \<longrightarrow> uart_ok s \<longrightarrow> uart_env_step s (snd r) \<and>
      (out \<noteq> tx_out (sp (snd r)) \<or> timeout (sp (snd r)) \<le> host_inactive (sp (snd r)))"
    if "write_wait e out k s = Some r" for e out k s r
  proof (rule write_wait.raw_induct [OF _ that], goal_cases)
    case (1 w e out k s r)
    show ?case
    proof (intro impI)
      assume e: "e = env" and ok: "uart_ok s"
      note st = env [OF ok, of k]
      show "uart_env_step s (snd r) \<and> (out \<noteq> tx_out (sp (snd r)) \<or> timeout (sp (snd r)) \<le> host_inactive (sp (snd r)))"
        using 1(1) [of e out "k + 1" "env k s" r] 1(2) st env_trans [OF st] env_ok [OF ok] unfolding e Let_def
        by (auto split: if_splits)
    qed
  qed
  from this [OF assms(1)] assms(2) show ?thesis by simp
qed

text \<open>The facts about one run of the outer loop.\<close>

definition write_post :: "alt_u8 list \<Rightarrow> alt_u32 \<Rightarrow> uart \<Rightarrow> alt_u8 list \<Rightarrow> uart \<Rightarrow> bool" where
  "write_post ptr flags s rest s' \<longleftrightarrow>
     (\<exists>bytes. ptr = bytes @ rest \<and> uart_write_step bytes s s' \<and>
        min (length ptr) (BUF_LEN - 1 - length (tx_ring s)) \<le> length bytes) \<and> tx_live s' \<and>
     (rest \<noteq> [] \<longrightarrow> flags AND O_NONBLOCK \<noteq> 0 \<or> host_inactive (sp s') \<noteq> 0)"

lemma write_loop_spec:
  assumes "write_loop env ptr out flags k s = Some (rest, k', s')" "uart_ok s"
  shows "write_post ptr flags s rest s'"
proof -
  have "e = env \<longrightarrow> uart_ok s \<longrightarrow> write_post ptr flags s (fst r) (snd (snd r))"
    if "write_loop e ptr out flags k s = Some r" for e ptr out flags k s r
  proof (rule write_loop.raw_induct [OF _ that], goal_cases)
    case (1 w e ptr out flags k s r)
    show ?case
    proof (intro impI)
      assume e: "e = env" and ok: "uart_ok s"
      obtain rest o1 k1 t where f: "write_fill env ptr out k s = (rest, o1, k1, t)" by (metis prod_cases4)
      then obtain bs where bs: "ptr = bs @ rest" "uart_write_step bs s t"
          "rest \<noteq> [] \<longrightarrow> length (tx_ring t) = BUF_LEN - 1"
        using write_fill_spec [OF ok f] by blast
      define u where "u = set_irq_enable (\<lambda>e. e OR WE_MSK) (env k1 t)"
      have okt: "uart_ok t" by (rule write_step_ok [OF bs(2)])
      then have et: "uart_env_step t (env k1 t)" by (rule env)
      then have ok': "uart_ok (env k1 t)" by (simp add: uart_env_step_def)
      have su: "uart_write_step bs s u"
        using write_step_trans [OF write_step_trans [OF bs(2) write_step_env [OF et]] write_enable_step [OF ok']]
        by (simp add: u_def)
      have live: "tx_live u" using enable_tx_step [OF ok'] by (simp add: u_def)
      have oku: "uart_ok u" by (rule write_step_ok [OF su])
      have "length (tx_ring s) + length bs \<ge> length (tx_ring t)"
      proof -
        obtain d where "tx_ring s @ bs = d @ tx_ring t" using bs(2) by (auto simp: uart_write_step_def)
        from arg_cong [OF this, of length] show ?thesis by simp
      qed
      then have much: "min (length ptr) (BUF_LEN - 1 - length (tx_ring s)) \<le> length bs"
        using bs(1,3) by (cases "rest = []") auto
      show "write_post ptr flags s (fst r) (snd (snd r))"
      proof (cases "rest = [] \<or> flags AND O_NONBLOCK \<noteq> 0")
        case True
        then have "r = (rest, k1 + 1, u)" using 1(2) f unfolding e u_def by (auto simp: Let_def split: if_splits)
        then show ?thesis using True bs(1) su live much by (auto simp: write_post_def)
      next
        case False
        then obtain k2 v where wt: "write_wait env o1 (k1 + 1) u = Some (k2, v)"
          and rest: "(if host_inactive (sp (env k2 v)) \<noteq> 0 then Some (rest, k2 + 1, env k2 v)
            else w env rest o1 flags (k2 + 1) (env k2 v)) = Some r"
          using 1(2) f unfolding e u_def by (auto simp: Let_def bind_eq_Some_conv)
        have uv: "uart_env_step u v" using write_wait_spec [OF wt oku] by simp
        then have okv: "uart_ok v" by (simp add: uart_env_step_def)
        have ux: "uart_env_step u (env k2 v)" by (rule env_trans [OF uv env [OF okv]])
        have sx: "uart_write_step bs s (env k2 v)" using write_step_trans [OF su write_step_env [OF ux]] by simp
        show ?thesis
        proof (cases "host_inactive (sp (env k2 v)) \<noteq> 0")
          case True
          then show ?thesis using rest bs(1) sx much ux live by (auto simp: write_post_def uart_env_step_def)
        next
          case False
          then have "w env rest o1 flags (k2 + 1) (env k2 v) = Some r" using rest by simp
          from 1(1) [OF this] env_ok [OF okv]
          have p: "write_post rest flags (env k2 v) (fst r) (snd (snd r))" by blast
          then obtain cs where "rest = cs @ fst r" "uart_write_step cs (env k2 v) (snd (snd r))"
            by (auto simp: write_post_def)
          then have "ptr = (bs @ cs) @ fst r \<and> uart_write_step (bs @ cs) s (snd (snd r)) \<and>
              min (length ptr) (BUF_LEN - 1 - length (tx_ring s)) \<le> length (bs @ cs)"
            using bs(1) write_step_trans [OF sx] much by auto
          then show ?thesis using p unfolding write_post_def by blast
        qed
      qed
    qed
  qed
  from this [OF assms(1)] assms(2) show ?thesis by simp
qed

lemma write_spec:
  assumes w: "altera_avalon_jtag_uart_write env start flags k s = Some (rc, k', s')" and ok: "uart_ok s"
  shows "\<exists>n. n \<le> length start \<and> uart_write_step (take n start) s s' \<and> tx_live s' \<and>
     min (length start) (BUF_LEN - 1 - length (tx_ring s)) \<le> n \<and>
     (n < length start \<longrightarrow> flags AND O_NONBLOCK \<noteq> 0 \<or> host_inactive (sp s') \<noteq> 0) \<and>
     rc = (if n \<noteq> 0 then int n else if flags AND O_NONBLOCK \<noteq> 0 then - EWOULDBLOCK else - EIO)"
proof -
  obtain rest where l: "write_loop env start 0 flags k s = Some (rest, k', s')"
    and rc: "rc = (let n = int (length start) - int (length rest)
      in if n \<noteq> 0 then n else if flags AND O_NONBLOCK \<noteq> 0 then - EWOULDBLOCK else - EIO)"
    using w unfolding altera_avalon_jtag_uart_write_def bind_eq_Some_conv by (auto simp: Let_def)
  from write_loop_spec [OF l ok] obtain bs where bs: "start = bs @ rest" "uart_write_step bs s s'"
      "min (length start) (BUF_LEN - 1 - length (tx_ring s)) \<le> length bs" "tx_live s'"
      "rest \<noteq> [] \<longrightarrow> flags AND O_NONBLOCK \<noteq> 0 \<or> host_inactive (sp s') \<noteq> 0"
    unfolding write_post_def by blast
  then show ?thesis using rc by (intro exI [of _ "length bs"]) (auto simp: Let_def)
qed

text \<open>A call that need not wait always returns.\<close>

lemma write_returns:
  assumes ok: "uart_ok s" and now: "flags AND O_NONBLOCK \<noteq> 0 \<or> length start + length (tx_ring s) < BUF_LEN"
  shows "altera_avalon_jtag_uart_write env start flags k s \<noteq> None"
proof -
  obtain rest o1 k1 t where f: "write_fill env start 0 k s = (rest, o1, k1, t)" by (metis prod_cases4)
  then obtain bs where bs: "start = bs @ rest" "uart_write_step bs s t" "rest \<noteq> [] \<longrightarrow> length (tx_ring t) = BUF_LEN - 1"
    using write_fill_spec [OF ok f] by blast
  then obtain d where "tx_ring s @ bs = d @ tx_ring t" by (auto simp: uart_write_step_def)
  from arg_cong [OF this, of length] have "rest = [] \<or> flags AND O_NONBLOCK \<noteq> 0" using bs now by (cases rest) auto
  then obtain st where "write_loop env start 0 flags k s = Some (rest, k1 + 1, st)"
    using f by (auto simp: write_loop.simps [of _ start] Let_def)
  then show ?thesis by (simp add: altera_avalon_jtag_uart_write_def Let_def)
qed

end

text \<open>Any script of host actions, ticks and interrupts is such an environment.\<close>

interpretation world: uart_env "run_events script" for script
  using fold_events by unfold_locales (simp add: run_events_def)

section \<open>Closing\<close>

lemma close_spec:
  assumes "altera_avalon_jtag_uart_close (run_events script) flags k s = Some (rc, k', s')" "uart_ok s"
  shows "uart_env_step s s' \<and>
    (if rc = 0 then tx_ring s' = [] \<or> timeout (sp s') \<le> host_inactive (sp s')
     else rc = - EWOULDBLOCK \<and> flags AND O_NONBLOCK \<noteq> 0 \<and> tx_ring s' \<noteq> [])"
proof -
  have "e = run_events script \<longrightarrow> uart_ok s \<longrightarrow> uart_env_step s (snd (snd r)) \<and>
      (if fst r = 0 then tx_ring (snd (snd r)) = [] \<or> timeout (sp (snd (snd r))) \<le> host_inactive (sp (snd (snd r)))
       else fst r = - EWOULDBLOCK \<and> flags AND O_NONBLOCK \<noteq> 0 \<and> tx_ring (snd (snd r)) \<noteq> [])"
    if "altera_avalon_jtag_uart_close e flags k s = Some r" for e flags k s r
  proof (rule altera_avalon_jtag_uart_close.raw_induct [OF _ that], goal_cases)
    case (1 w e flags k s r)
    show ?case
    proof (intro impI)
      assume e: "e = run_events script" and ok: "uart_ok s"
      let ?t = "run_events script k s"
      have st: "uart_env_step s ?t" by (rule world.env [OF ok])
      then have okt: "uart_ok ?t" by (simp add: uart_env_step_def)
      have empty: "tx_ring ?t = [] \<longleftrightarrow> tx_out (sp ?t) = tx_in (sp ?t)"
        using ring_empty_iff [OF rings_ok(2) [OF okt]] by (auto simp: tx_ring_def)
      show "uart_env_step s (snd (snd r)) \<and>
        (if fst r = 0 then tx_ring (snd (snd r)) = [] \<or> timeout (sp (snd (snd r))) \<le> host_inactive (sp (snd (snd r)))
         else fst r = - EWOULDBLOCK \<and> flags AND O_NONBLOCK \<noteq> 0 \<and> tx_ring (snd (snd r)) \<noteq> [])"
      proof (cases "(tx_out (sp ?t) \<noteq> tx_in (sp ?t) \<and> host_inactive (sp ?t) < timeout (sp ?t)) \<and> flags AND O_NONBLOCK = 0")
        case True
        then have "w e flags (k + 1) ?t = Some r" using 1(2) unfolding e by (simp add: Let_def)
        from 1(1) [OF this] e okt show ?thesis using env_trans [OF st] by blast
      next
        case False
        then have "r = (- EWOULDBLOCK, k + 1, ?t) \<and> tx_out (sp ?t) \<noteq> tx_in (sp ?t) \<and> flags AND O_NONBLOCK \<noteq> 0 \<or>
            r = (0, k + 1, ?t) \<and> (tx_out (sp ?t) = tx_in (sp ?t) \<or> timeout (sp ?t) \<le> host_inactive (sp ?t))"
          using 1(2) unfolding e by (auto simp: Let_def split: if_splits)
        then show ?thesis using st empty by auto
      qed
    qed
  qed
  from this [OF assms(1)] assms(2) show ?thesis by (simp cong: if_cong)
qed

section \<open>Initialisation\<close>

text \<open>The device after reset, with an empty terminal.\<close>

definition juart_reset :: juart where
  "juart_reset = \<lparr>rfifo = [], wfifo = [], ien_AF = False, ien_AE = False, jac = False, pause_irq = False,
     rvalid = False, woverflow = False, typed = [], shown = []\<rparr>"

text \<open>
  The system around the driver: the interrupt tables and the clock. \<open>service\<close> and \<open>callback\<close> are
  the addresses of the two functions, \<open>ptr\<close> that of the state, \<open>alarm\<close> that of its alarm.
\<close>

definition altera_avalon_jtag_uart_init ::
    "nat \<Rightarrow> nat \<Rightarrow> nat \<Rightarrow> nat \<Rightarrow> alt_u32 \<Rightarrow> alt_u32 \<Rightarrow> uart \<Rightarrow> irq \<Rightarrow> 'w clock \<Rightarrow> (uart \<times> irq \<times> 'w clock) c_res" where
  "altera_avalon_jtag_uart_init service callback ptr alarm irq_controller_id irqn s i c =
     (let s = set_irq_enable (\<lambda>e. RE_MSK) s
      in res_bind (alt_ic_isr_register irq_controller_id irqn (Some service) ptr i) (\<lambda>(rc, i).
         let s = with_sp (\<lambda>p. p\<lparr>host_inactive := 0\<rparr>) s;
             (rc, c) = alt_alarm_start (Some alarm) (alt_ticks_per_second c) callback ptr c;
             s = (if rc < 0 then with_sp (\<lambda>p. p\<lparr>timeout := UINT_INT_MAX\<rparr>) s else s)
         in Inr (s, i, c)))"

text \<open>\<open>ALTERA_AVALON_JTAG_UART_DEV_INSTANCE\<close> and then the initialiser.\<close>

definition jtag_boot :: uart where
  "jtag_boot = \<lparr>sp = jtag_uart_instance, hw = juart_reset\<rparr>"

lemma init_spec:
  assumes i: "length (alt_irq i) = ALT_NIRQ" and n: "unat irqn < ALT_NIRQ"
  shows "\<exists>s. altera_avalon_jtag_uart_init service callback ptr alarm ic irqn jtag_boot i c =
      Inr (s, registered (unat irqn) (Some service) ptr i, snd (alt_alarm_start (Some alarm) (alt_tick_rate c) callback ptr c)) \<and>
    uart_ok s \<and> rx_live s \<and> tx_live s \<and> rx_stream s = [] \<and> tx_stream s = [] \<and> typed (hw s) = [] \<and> shown (hw s) = [] \<and>
    host_inactive (sp s) = 0 \<and> timeout (sp s) = (if alt_tick_rate c = 0 then UINT_INT_MAX else 10) \<and>
    hw s = wr_control RE_MSK juart_reset"
  using enhanced_register [OF i, of ic irqn "Some service" ptr] n
  by (simp add: altera_avalon_jtag_uart_init_def Let_def alt_ticks_per_second_def alt_alarm_start_def
      alt_irq_disable_all_def jtag_boot_def jtag_uart_instance_def juart_reset_def uart_ok_def ring_ok_def
      rx_live_def tx_live_def rx_stream_def tx_stream_def rx_ring_def tx_ring_def ring_def ring_used_def)

end
