(* ===== verification/Jtag_System.thy ===== *)
theory Jtag_System
  imports Jtag_Driver
begin

text \<open>
  The JTAG UART as a whole: complete runs of the driver among interrupts and host actions, the
  polling variant of the driver, the device as the descriptor table sees it, and what all of
  this guarantees to the program and to the host.
\<close>

section \<open>Complete runs\<close>

text \<open>
  A history of the device from its initialisation on: events, and calls of the driver with
  any script of events inside them. The two lists are the bytes delivered to the program and
  the bytes the driver said it has accepted from it.
\<close>

inductive uart_run :: "uart \<Rightarrow> alt_u8 list \<Rightarrow> alt_u8 list \<Rightarrow> bool" where
  init: "length (alt_irq i) = ALT_NIRQ \<Longrightarrow> unat irqn < ALT_NIRQ \<Longrightarrow>
    altera_avalon_jtag_uart_init service callback ptr alarm ic irqn jtag_boot i (c :: uart clock) = Inr (s, i', c') \<Longrightarrow>
    uart_run s [] []"
| event: "uart_run s d w \<Longrightarrow> uart_run (uart_event e s) d w"
| received: "uart_run s d w \<Longrightarrow>
    altera_avalon_jtag_uart_read (run_events script) space flags k s = Some (rc, ptr, k', s') \<Longrightarrow> uart_run s' (d @ ptr) w"
| sent: "uart_run s d w \<Longrightarrow>
    altera_avalon_jtag_uart_write (run_events script) start flags k s = Some (rc, k', s') \<Longrightarrow>
    uart_run s' d (w @ take (nat rc) start)"
| ioctl: "uart_run s d w \<Longrightarrow> altera_avalon_jtag_uart_ioctl req arg s = (rc, arg', s') \<Longrightarrow> uart_run s' d w"
| close: "uart_run s d w \<Longrightarrow>
    altera_avalon_jtag_uart_close (run_events script) flags k s = Some (rc, k', s') \<Longrightarrow> uart_run s' d w"

text \<open>The invariant of a run: nothing lost, doubled or reordered, nothing stuck.\<close>

definition uart_inv :: "uart \<Rightarrow> alt_u8 list \<Rightarrow> alt_u8 list \<Rightarrow> bool" where
  "uart_inv s d w \<longleftrightarrow> uart_ok s \<and> rx_live s \<and> tx_live s \<and>
     typed (hw s) = d @ rx_stream s \<and> shown (hw s) @ tx_stream s = w"

lemma inv_env: "uart_inv s d w \<Longrightarrow> uart_env_step s s' \<Longrightarrow> uart_inv s' d w"
  by (simp add: uart_inv_def uart_env_step_def)

lemma ioctl_frame:
  assumes "altera_avalon_jtag_uart_ioctl req arg s = (rc, arg', s')"
  shows "\<exists>t. s' = with_sp (\<lambda>p. p\<lparr>timeout := t\<rparr>) s"
proof -
  have "with_sp (\<lambda>p. p\<lparr>timeout := timeout (sp s)\<rparr>) s = s" by (simp add: with_sp_def)
  then show ?thesis
    using assms by (auto simp: altera_avalon_jtag_uart_ioctl_def split: if_splits intro: exI [of _ "timeout (sp s)"])
qed

lemma uart_run_inv: "uart_run s d w \<Longrightarrow> uart_inv s d w"
proof (induction rule: uart_run.induct)
  case (init i irqn service callback ptr alarm ic c s i' c')
  from init_spec [OF init(1,2), of service callback ptr alarm ic c] init(3)
  have "uart_ok s \<and> rx_live s \<and> tx_live s \<and> rx_stream s = [] \<and> tx_stream s = [] \<and> typed (hw s) = [] \<and> shown (hw s) = []"
    by (elim exE) (simp add: juart_reset_def)
  then show ?case by (simp add: uart_inv_def)
next
  case (event s d w e)
  then have "uart_ok s" by (simp add: uart_inv_def)
  then show ?case by (rule inv_env [OF event(2) event_step])
next
  case (received s d w script space flags k rc ptr k' s')
  then have ok: "uart_ok s" by (simp add: uart_inv_def)
  show ?case using received world.read_spec [OF received(2) ok] by (simp add: uart_inv_def)
next
  case (sent s d w script start flags k rc k' s')
  then have ok: "uart_ok s" by (simp add: uart_inv_def)
  from world.write_spec [OF sent(2) ok] obtain n where
    n: "n \<le> length start" "uart_write_step (take n start) s s'" "tx_live s'"
      "rc = (if n \<noteq> 0 then int n else if flags AND O_NONBLOCK \<noteq> 0 then - EWOULDBLOCK else - EIO)" by blast
  then have "nat rc = n" by simp
  with n sent(3) show ?case by (auto simp: uart_inv_def uart_write_step_def)
next
  case (ioctl s d w req arg rc arg' s')
  then show ?case using ioctl_frame [OF ioctl(2)]
    by (auto simp: uart_inv_def uart_ok_def rx_live_def tx_live_def rx_stream_def tx_stream_def rx_ring_def tx_ring_def)
next
  case (close s d w script flags k rc k' s')
  then have ok: "uart_ok s" by (simp add: uart_inv_def)
  then have "uart_env_step s s'" using close_spec [OF close(2)] by simp
  then show ?case by (rule inv_env [OF close(3)])
qed

section \<open>The polling driver\<close>

text \<open>
  \<open>ALTERA_AVALON_JTAG_UART_SMALL\<close>: no buffers and no interrupts; the functions poll the
  registers while the host acts (\<open>env k\<close> before the \<open>k\<close>-th access).
\<close>

partial_function (option) small_read_loop ::
    "(nat \<Rightarrow> juart \<Rightarrow> juart) \<Rightarrow> int \<Rightarrow> alt_u32 \<Rightarrow> alt_u8 list \<Rightarrow> nat \<Rightarrow> juart \<Rightarrow> (alt_u8 list \<times> nat \<times> juart) option" where
  "small_read_loop env space flags ptr k h =
     (if int (length ptr) < space then
        (let (data, h) = rd_data (env k h)
         in if data AND RVALID_MSK \<noteq> 0 then small_read_loop env space flags (ptr @ [ucast (data AND DATA_MSK)]) (k + 1) h
            else if ptr \<noteq> [] then Some (ptr, k + 1, h)
            else if flags AND O_NONBLOCK \<noteq> 0 then Some (ptr, k + 1, h)
            else small_read_loop env space flags ptr (k + 1) h)
      else Some (ptr, k, h))"

definition small_uart_read ::
    "(nat \<Rightarrow> juart \<Rightarrow> juart) \<Rightarrow> int \<Rightarrow> alt_u32 \<Rightarrow> nat \<Rightarrow> juart \<Rightarrow> (int \<times> alt_u8 list \<times> nat \<times> juart) option" where
  "small_uart_read env space flags k h =
     Option.bind (small_read_loop env space flags [] k h) (\<lambda>(ptr, k, h).
       Some (if ptr \<noteq> [] then int (length ptr)
             else if flags AND O_NONBLOCK \<noteq> 0 then - EWOULDBLOCK else - EIO, ptr, k, h))"

partial_function (option) small_write_loop ::
    "(nat \<Rightarrow> juart \<Rightarrow> juart) \<Rightarrow> alt_u8 list \<Rightarrow> nat \<Rightarrow> juart \<Rightarrow> (nat \<times> juart) option" where
  "small_write_loop env ptr k h =
     (case ptr of [] \<Rightarrow> Some (k, h)
      | b # rest \<Rightarrow>
         (let h = env k h
          in if rd_control h AND WSPACE_MSK \<noteq> 0 then small_write_loop env rest (k + 1) (wr_data b h)
             else small_write_loop env ptr (k + 1) h))"

definition small_uart_write ::
    "(nat \<Rightarrow> juart \<Rightarrow> juart) \<Rightarrow> alt_u8 list \<Rightarrow> int \<Rightarrow> alt_u32 \<Rightarrow> nat \<Rightarrow> juart \<Rightarrow> (int \<times> nat \<times> juart) option" where
  "small_uart_write env ptr count flags k h =
     Option.bind (small_write_loop env (take (nat count) ptr) k h) (\<lambda>(k, h). Some (count, k, h))"

text \<open>What the polling driver and the host do to the bare device: take bytes from one stream, append to the other.\<close>

definition juart_step :: "alt_u8 list \<Rightarrow> alt_u8 list \<Rightarrow> juart \<Rightarrow> juart \<Rightarrow> bool" where
  "juart_step ins outs h h' \<longleftrightarrow> length (rfifo h') \<le> FIFO_LEN \<and> length (wfifo h') \<le> FIFO_LEN \<and>
     (\<forall>d. typed h = d @ rfifo h \<longrightarrow> typed h' = (d @ ins) @ rfifo h') \<and>
     shown h' @ wfifo h' = (shown h @ wfifo h) @ outs"

lemma juart_step_trans:
  "juart_step i o1 h h' \<Longrightarrow> juart_step j o2 h' h'' \<Longrightarrow> juart_step (i @ j) (o1 @ o2) h h''"
  by (simp add: juart_step_def)

lemma host_event_step:
  assumes "length (rfifo h) \<le> FIFO_LEN" "length (wfifo h) \<le> FIFO_LEN"
  shows "juart_step [] [] h (host_event e h)"
proof -
  have "take (Suc 0) w @ tl w = w" for w :: "alt_u8 list" by (cases w) simp_all
  then show ?thesis
    using assms by (cases e) (simp_all add: juart_step_def host_send_def host_take_def host_poll_def le_diff_conv)
qed

lemma host_env_step:
  assumes "length (rfifo h) \<le> FIFO_LEN" "length (wfifo h) \<le> FIFO_LEN"
  shows "juart_step [] [] h (host_env script k h)"
proof -
  have "juart_step [] [] h (fold host_event es h)" for es
    using assms
  proof (induction es arbitrary: h)
    case (Cons e es)
    note st = host_event_step [OF Cons.prems, of e]
    then have "juart_step [] [] (host_event e h) (fold host_event es (host_event e h))"
      by (intro Cons.IH) (simp_all add: juart_step_def)
    from juart_step_trans [OF st this] show ?case by simp
  qed (simp add: juart_step_def)
  then show ?thesis by (simp add: host_env_def)
qed

lemma juart_step_bounds: "juart_step i out h h' \<Longrightarrow> length (rfifo h') \<le> FIFO_LEN \<and> length (wfifo h') \<le> FIFO_LEN"
  by (simp add: juart_step_def)

lemma rd_data_step:
  assumes "length (rfifo h) \<le> FIFO_LEN" "length (wfifo h) \<le> FIFO_LEN"
  shows "juart_step (if fst (rd_data h) AND RVALID_MSK \<noteq> 0 then [ucast (fst (rd_data h) AND DATA_MSK)] else []) []
    h (snd (rd_data h))"
  using assms rd_data_facts(2) [OF assms(1)]
  by (cases "rfifo h") (simp_all add: rd_data_valid rd_data_snd juart_step_def)

lemma wr_data_step:
  assumes "length (rfifo h) \<le> FIFO_LEN" "length (wfifo h) < FIFO_LEN"
  shows "juart_step [] [b] h (wr_data b h)"
  using assms by (simp add: juart_step_def wr_data_def)

lemma small_read_loop_spec:
  assumes "small_read_loop (host_env script) space flags ptr k h = Some (ptr', k', h')"
    and "length (rfifo h) \<le> FIFO_LEN" "length (wfifo h) \<le> FIFO_LEN" "int (length ptr) \<le> max 0 space"
  shows "\<exists>bytes. ptr' = ptr @ bytes \<and> juart_step bytes [] h h' \<and> int (length ptr') \<le> max 0 space \<and>
    min (nat space) (length ptr + length (rfifo h)) \<le> length ptr' \<and>
    (int (length ptr') < space \<longrightarrow> rfifo h' = [] \<and> (ptr' = [] \<longrightarrow> flags AND O_NONBLOCK \<noteq> 0))"
proof -
  have "e = host_env script \<longrightarrow> length (rfifo h) \<le> FIFO_LEN \<longrightarrow> length (wfifo h) \<le> FIFO_LEN \<longrightarrow>
      int (length ptr) \<le> max 0 space \<longrightarrow>
      (\<exists>bytes. fst r = ptr @ bytes \<and> juart_step bytes [] h (snd (snd r)) \<and> int (length (fst r)) \<le> max 0 space \<and>
        min (nat space) (length ptr + length (rfifo h)) \<le> length (fst r) \<and>
        (int (length (fst r)) < space \<longrightarrow> rfifo (snd (snd r)) = [] \<and> (fst r = [] \<longrightarrow> flags AND O_NONBLOCK \<noteq> 0)))"
    if "small_read_loop e space flags ptr k h = Some r" for e space flags ptr k h r
  proof (rule small_read_loop.raw_induct [OF _ that], goal_cases)
    case (1 w e space flags ptr k h r)
    note IH = 1(1)
    show ?case
    proof (intro impI)
      assume e: "e = host_env script" and len: "length (rfifo h) \<le> FIFO_LEN" "length (wfifo h) \<le> FIFO_LEN"
        and le: "int (length ptr) \<le> max 0 space"
      define g where "g = host_env script k h"
      have hg: "juart_step [] [] h g" unfolding g_def by (rule host_env_step [OF len])
      have more: "length (rfifo h) \<le> length (rfifo g)" using host_env_acts [OF len(1), of script k] unfolding g_def host_acts_def by auto
      let ?d = "fst (rd_data g)" and ?g = "snd (rd_data g)"
      let ?b = "if ?d AND RVALID_MSK \<noteq> 0 then [ucast (?d AND DATA_MSK) :: alt_u8] else []"
      from juart_step_bounds [OF hg] have "juart_step ?b [] g ?g" by (intro rd_data_step) simp_all
      with juart_step_trans [OF hg] have st: "juart_step ?b [] h ?g" by force
      note bd = juart_step_bounds [OF st]
      have cnt: "length (rfifo g) = length ?b + length (rfifo ?g)"
        by (cases "rfifo g") (simp_all add: rd_data_valid rd_data_snd)
      show "\<exists>bytes. fst r = ptr @ bytes \<and> juart_step bytes [] h (snd (snd r)) \<and> int (length (fst r)) \<le> max 0 space \<and>
          min (nat space) (length ptr + length (rfifo h)) \<le> length (fst r) \<and>
          (int (length (fst r)) < space \<longrightarrow> rfifo (snd (snd r)) = [] \<and> (fst r = [] \<longrightarrow> flags AND O_NONBLOCK \<noteq> 0))"
      proof (cases "int (length ptr) < space")
        case False
        then have "r = (ptr, k, h)" using 1(2) by simp
        then show ?thesis using len le False by (intro exI [of _ "[]"]) (auto simp: juart_step_def)
      next
        case True
        have body: "(if ?d AND RVALID_MSK \<noteq> 0 then w e space flags (ptr @ [ucast (?d AND DATA_MSK)]) (k + 1) ?g
            else if ptr \<noteq> [] then Some (ptr, k + 1, ?g)
            else if flags AND O_NONBLOCK \<noteq> 0 then Some (ptr, k + 1, ?g)
            else w e space flags ptr (k + 1) ?g) = Some r"
          using 1(2) True unfolding e g_def by (simp add: case_prod_beta)
        consider (more) "w e space flags (ptr @ ?b) (k + 1) ?g = Some r" |
          (stop) "r = (ptr, k + 1, ?g) \<and> ?b = [] \<and> (ptr = [] \<longrightarrow> flags AND O_NONBLOCK \<noteq> 0)"
          using body by (auto split: if_splits)
        then show ?thesis
        proof cases
          case more
          have "int (length (ptr @ ?b)) \<le> max 0 space" using True by simp
          with IH [OF more] bd e obtain bytes where
            b: "fst r = (ptr @ ?b) @ bytes" "juart_step bytes [] ?g (snd (snd r))" "int (length (fst r)) \<le> max 0 space"
              "min (nat space) (length (ptr @ ?b) + length (rfifo ?g)) \<le> length (fst r)"
              "int (length (fst r)) < space \<longrightarrow> rfifo (snd (snd r)) = [] \<and> (fst r = [] \<longrightarrow> flags AND O_NONBLOCK \<noteq> 0)"
            by blast
          have "length ptr + length (rfifo h) \<le> length (ptr @ ?b) + length (rfifo ?g)" using \<open>length (rfifo h) \<le> length (rfifo g)\<close> cnt by simp
          then have "min (nat space) (length ptr + length (rfifo h)) \<le> length (fst r)" using b(4) by (meson min.mono order_refl order_trans)
          then show ?thesis using b juart_step_trans [OF st b(2)] by (intro exI [of _ "?b @ bytes"]) simp
        next
          case stop
          then have "rfifo ?g = []" by (cases "rfifo g") (simp_all add: rd_data_valid rd_data_snd)
          then have "length (rfifo h) = 0" using stop cnt \<open>length (rfifo h) \<le> length (rfifo g)\<close> by simp
          then show ?thesis using stop st le \<open>rfifo ?g = []\<close> by (intro exI [of _ "[]"]) simp
        qed
      qed
    qed
  qed
  from this [OF assms(1)] assms(2-4) show ?thesis by simp
qed

text \<open>
  When it returns: at once if it need not wait; otherwise when the host has sent a byte, and only
  then.
\<close>

lemma small_read_returns:
  "flags AND O_NONBLOCK \<noteq> 0 \<or> ptr \<noteq> [] \<or> space \<le> 0 \<Longrightarrow> small_read_loop env space flags ptr k h \<noteq> None"
proof (induction "nat (space - int (length ptr))" arbitrary: ptr k h rule: less_induct)
  case less
  show ?case
  proof (cases "int (length ptr) < space")
    case True
    obtain d g where r: "rd_data (env k h) = (d, g)" by force
    have "small_read_loop env space flags (ptr @ [ucast (d AND DATA_MSK)]) (k + 1) g \<noteq> None"
      using True by (intro less.hyps) simp_all
    then show ?thesis using less.prems True r by (auto simp: small_read_loop.simps [of env space flags ptr])
  qed (simp add: small_read_loop.simps)
qed

lemma host_sends:
  assumes "length (rfifo h) \<le> FIFO_LEN"
  shows "rfifo (host_env script k h) = [] \<longleftrightarrow> rfifo h = [] \<and> (\<forall>b. Send b \<notin> set (script k))"
proof -
  have "rfifo (fold host_event es h) = [] \<longleftrightarrow> rfifo h = [] \<and> (\<forall>b. Send b \<notin> set es)" for es
    using assms
  proof (induction es arbitrary: h)
    case (Cons e es)
    have "length (rfifo (host_event e h)) \<le> FIFO_LEN" using host_event_acts [OF Cons.prems] by (simp add: host_acts_def)
    from Cons.IH [OF this] show ?case by (cases e) (auto simp: host_send_def host_take_def host_poll_def)
  qed simp
  then show ?thesis by (simp add: host_env_def)
qed

lemma small_read_blocks:
  assumes len: "length (rfifo h) \<le> FIFO_LEN" and b: "flags AND O_NONBLOCK = 0" "0 < space"
  shows "small_read_loop (host_env script) space flags [] k h = None \<longleftrightarrow>
    rfifo h = [] \<and> (\<forall>j\<ge>k. \<forall>b. Send b \<notin> set (script j))"
proof
  have "e = host_env script \<longrightarrow> ptr = [] \<longrightarrow> 0 < space \<longrightarrow> flags AND O_NONBLOCK = 0 \<longrightarrow> rfifo h = [] \<longrightarrow>
      (\<forall>j\<ge>k. \<forall>b. Send b \<notin> set (script j)) \<longrightarrow> False"
    if "small_read_loop e space flags ptr k h = Some r" for e space flags ptr k h r
  proof (rule small_read_loop.raw_induct [OF _ that], goal_cases)
    case (1 w e space flags ptr k h r)
    show ?case
    proof (intro impI)
      assume e: "e = host_env script" "ptr = []" "0 < space" "flags AND O_NONBLOCK = 0" and h: "rfifo h = []"
        and q: "\<forall>j\<ge>k. \<forall>b. Send b \<notin> set (script j)"
      let ?g = "host_env script k h"
      have "rfifo ?g = []" using host_sends [of h] h q by simp
      then have "w e space flags [] (k + 1) (snd (rd_data ?g)) = Some r" "rfifo (snd (rd_data ?g)) = []"
        using 1(2) e by (simp_all add: case_prod_beta rd_data_valid rd_data_snd)
      from 1(1) [OF this(1)] this(2) e q show False by simp
    qed
  qed
  then show "small_read_loop (host_env script) space flags [] k h = None"
    if "rfifo h = [] \<and> (\<forall>j\<ge>k. \<forall>b. Send b \<notin> set (script j))"
    using that b by (cases "small_read_loop (host_env script) space flags [] k h") blast+
next
  have returns: "small_read_loop (host_env script) space flags [] k h \<noteq> None"
    if "rfifo (host_env script k h) \<noteq> []" for k h
  proof -
    obtain d g where r: "rd_data (host_env script k h) = (d, g)" by force
    have "d AND RVALID_MSK \<noteq> 0" using that rd_data_valid [of "host_env script k h"] r by simp
    moreover have "small_read_loop (host_env script) space flags [ucast (d AND DATA_MSK)] (k + 1) g \<noteq> None"
      by (rule small_read_returns) simp
    ultimately show ?thesis using b r by (simp add: small_read_loop.simps [of _ _ _ "[]" k])
  qed
  have sent: "small_read_loop (host_env script) space flags [] k h \<noteq> None"
    if "k \<le> j" "Send c \<in> set (script j)" "length (rfifo h) \<le> FIFO_LEN" for k j c h
    using that
  proof (induction "j - k" arbitrary: k h)
    case 0
    then have "rfifo (host_env script k h) \<noteq> []" using host_sends [of h script k] by auto
    then show ?case by (rule returns)
  next
    case (Suc d)
    show ?case
    proof (cases "rfifo (host_env script k h) = []")
      case True
      let ?g = "snd (rd_data (host_env script k h))"
      have "small_read_loop (host_env script) space flags [] (k + 1) ?g \<noteq> None"
        using Suc True by (intro Suc.hyps(1)) (simp_all add: rd_data_snd)
      then show ?thesis using b True
        by (simp add: small_read_loop.simps [of _ _ _ "[]" k] case_prod_beta rd_data_valid)
    qed (rule returns)
  qed
  assume none: "small_read_loop (host_env script) space flags [] k h = None"
  have "rfifo h = []" using returns [of k h] none host_sends [OF len] by blast
  moreover have "Send c \<notin> set (script j)" if "k \<le> j" for j c using sent [OF that _ len] none by blast
  ultimately show "rfifo h = [] \<and> (\<forall>j\<ge>k. \<forall>b. Send b \<notin> set (script j))" by blast
qed

lemma small_write_loop_spec:
  assumes "small_write_loop (host_env script) ptr k h = Some (k', h')"
    and "length (rfifo h) \<le> FIFO_LEN" "length (wfifo h) \<le> FIFO_LEN"
  shows "juart_step [] ptr h h'"
proof -
  have "e = host_env script \<longrightarrow> length (rfifo h) \<le> FIFO_LEN \<longrightarrow> length (wfifo h) \<le> FIFO_LEN \<longrightarrow>
      juart_step [] ptr h (snd r)"
    if "small_write_loop e ptr k h = Some r" for e ptr k h r
  proof (rule small_write_loop.raw_induct [OF _ that], goal_cases)
    case (1 w e ptr k h r)
    show ?case
    proof (intro impI)
      assume e: "e = host_env script" and len: "length (rfifo h) \<le> FIFO_LEN" "length (wfifo h) \<le> FIFO_LEN"
      define g where "g = host_env script k h"
      have hg: "juart_step [] [] h g" unfolding g_def by (rule host_env_step [OF len])
      note bd = juart_step_bounds [OF hg]
      show "juart_step [] ptr h (snd r)"
      proof (cases ptr)
        case Nil
        then show ?thesis using 1(2) len by (auto simp: juart_step_def)
      next
        case (Cons b rest)
        show ?thesis
        proof (cases "length (wfifo g) < FIFO_LEN")
          case True
          then have w: "w e rest (k + 1) (wr_data b g) = Some r"
            using 1(2) Cons unfolding e by (simp add: Let_def g_def control_bits flip: not_less)
          have st: "juart_step [] [b] g (wr_data b g)" using True bd by (intro wr_data_step) simp_all
          from 1(1) [OF w] e juart_step_bounds [OF st] have "juart_step [] rest (wr_data b g) (snd r)" by blast
          from juart_step_trans [OF juart_step_trans [OF hg st] this] show ?thesis using Cons by simp
        next
          case False
          then have w: "w e ptr (k + 1) g = Some r"
            using 1(2) Cons unfolding e by (simp add: Let_def g_def control_bits flip: not_less)
          from 1(1) [OF w] e bd have "juart_step [] ptr g (snd r)" by blast
          from juart_step_trans [OF hg this] show ?thesis by simp
        qed
      qed
    qed
  qed
  from this [OF assms(1)] assms(2,3) show ?thesis by simp
qed

text \<open>A write returns if its data fits the FIFO, or if the host keeps taking bytes.\<close>

lemma host_takes:
  assumes "length (rfifo h) \<le> FIFO_LEN"
  shows "length (wfifo (host_env script k h)) \<le> length (wfifo h)"
    and "Take \<in> set (script k) \<Longrightarrow> wfifo h \<noteq> [] \<Longrightarrow> length (wfifo (host_env script k h)) < length (wfifo h)"
proof -
  have le: "length (wfifo (host_event e g)) \<le> length (wfifo g)" for e g
    by (cases e) (simp_all add: host_send_def host_take_def host_poll_def)
  then have fold_le: "length (wfifo (fold host_event es g)) \<le> length (wfifo g)" for es g
    by (induction es arbitrary: g) (simp_all, meson le le_trans)
  then show "length (wfifo (host_env script k h)) \<le> length (wfifo h)" by (simp add: host_env_def)
  assume "Take \<in> set (script k)" and ne: "wfifo h \<noteq> []"
  then obtain xs ys where s: "script k = xs @ Take # ys" by (auto simp: in_set_conv_decomp)
  let ?g = "fold host_event xs h"
  have "length (wfifo (fold host_event ys (host_take ?g))) \<le> length (wfifo ?g) - 1" using fold_le [of ys "host_take ?g"] by (simp add: host_take_def)
  moreover have "length (wfifo ?g) \<le> length (wfifo h)" by (rule fold_le)
  ultimately show "length (wfifo (host_env script k h)) < length (wfifo h)" using ne by (simp add: host_env_def s) (cases "wfifo h", simp_all)
qed

lemma small_write_fits:
  "length (rfifo h) \<le> FIFO_LEN \<Longrightarrow> length ptr + length (wfifo h) \<le> FIFO_LEN \<Longrightarrow> small_write_loop (host_env script) ptr k h \<noteq> None"
proof (induction ptr arbitrary: k h)
  case (Cons b ptr)
  let ?g = "host_env script k h"
  have l: "length (wfifo ?g) \<le> length (wfifo h)" "length (rfifo ?g) \<le> FIFO_LEN"
    using host_takes(1) [OF Cons.prems(1)] host_env_acts [OF Cons.prems(1)] by (simp_all add: host_acts_def)
  then have "small_write_loop (host_env script) ptr (k + 1) (wr_data b ?g) \<noteq> None"
    using Cons.prems by (intro Cons.IH) (simp_all add: wr_data_def)
  moreover have "length (wfifo ?g) < FIFO_LEN" using l Cons.prems(2) by simp
  ultimately show ?case by (simp add: small_write_loop.simps [of _ "b # ptr"] Let_def control_bits flip: not_less)
qed (simp add: small_write_loop.simps)

lemma small_write_returns:
  assumes inf: "\<forall>n. \<exists>j\<ge>n. Take \<in> set (script j)"
  shows "length (rfifo h) \<le> FIFO_LEN \<Longrightarrow> length (wfifo h) \<le> FIFO_LEN \<Longrightarrow> small_write_loop (host_env script) ptr k h \<noteq> None"
proof (induction ptr arbitrary: k h)
  case (Cons b ptr)
  have "small_write_loop (host_env script) (b # ptr) k h \<noteq> None"
    if "k \<le> j" "Take \<in> set (script j)" "length (rfifo h) \<le> FIFO_LEN" "length (wfifo h) \<le> FIFO_LEN" for j k h
    using that
  proof (induction "j - k" arbitrary: k h)
    case 0
    let ?g = "host_env script k h"
    have j: "j = k" using 0 by simp
    have "length (wfifo ?g) < FIFO_LEN"
      using host_takes [OF 0(4), of script k] 0(3,5) unfolding j by (cases "wfifo h") auto
    moreover have "length (rfifo ?g) \<le> FIFO_LEN" using host_env_acts [OF 0(4)] by (simp add: host_acts_def)
    ultimately have "small_write_loop (host_env script) ptr (k + 1) (wr_data b ?g) \<noteq> None"
      by (intro Cons.IH) (simp_all add: wr_data_def)
    then show ?case using \<open>length (wfifo ?g) < FIFO_LEN\<close>
      by (simp add: small_write_loop.simps [of _ "b # ptr"] Let_def control_bits flip: not_less)
  next
    case (Suc d)
    let ?g = "host_env script k h"
    have g: "length (wfifo ?g) \<le> FIFO_LEN" "length (rfifo ?g) \<le> FIFO_LEN"
      using host_takes(1) [OF Suc.prems(3), of script k] Suc.prems(4) host_env_acts [OF Suc.prems(3)] by (simp_all add: host_acts_def)
    show ?case
    proof (cases "length (wfifo ?g) < FIFO_LEN")
      case True
      then have "small_write_loop (host_env script) ptr (k + 1) (wr_data b ?g) \<noteq> None"
        using g by (intro Cons.IH) (simp_all add: wr_data_def)
      then show ?thesis using True
        by (simp add: small_write_loop.simps [of _ "b # ptr"] Let_def control_bits flip: not_less)
    next
      case False
      have "small_write_loop (host_env script) (b # ptr) (k + 1) ?g \<noteq> None"
        using Suc g by (intro Suc.hyps(1)) simp_all
      then show ?thesis using False
        by (simp add: small_write_loop.simps [of _ "b # ptr" k] Let_def control_bits flip: not_less)
    qed
  qed
  then show ?case using inf Cons.prems by blast
qed (simp add: small_write_loop.simps)

section \<open>The device behind a descriptor\<close>

text \<open>
  The wrappers pass the flags of the descriptor on. The world they work on is the device, the
  script of what will happen around it and how much of the script has been used; a call that
  never returns leaves \<open>jw_hung\<close> set.
\<close>

record jtag_world =
  jw_uart :: uart
  jw_script :: "nat \<Rightarrow> uart_ev list"
  jw_time :: nat
  jw_hung :: bool

definition altera_avalon_jtag_uart_read_fd ::
    "alt_fd \<Rightarrow> int \<Rightarrow> jtag_world \<Rightarrow> int \<times> alt_u8 list \<times> alt_fd \<times> jtag_world" where
  "altera_avalon_jtag_uart_read_fd fd space w =
     (case altera_avalon_jtag_uart_read (run_events (jw_script w)) space (fd_flags fd) (jw_time w) (jw_uart w) of
        None \<Rightarrow> (0, [], fd, w\<lparr>jw_hung := True\<rparr>)
      | Some (rc, ptr, k, s) \<Rightarrow> (rc, ptr, fd, w\<lparr>jw_uart := s, jw_time := k\<rparr>))"

definition altera_avalon_jtag_uart_write_fd ::
    "alt_fd \<Rightarrow> alt_u8 list \<Rightarrow> int \<Rightarrow> jtag_world \<Rightarrow> int \<times> alt_fd \<times> jtag_world" where
  "altera_avalon_jtag_uart_write_fd fd buffer space w =
     (case altera_avalon_jtag_uart_write (run_events (jw_script w)) (take (nat space) buffer) (fd_flags fd) (jw_time w) (jw_uart w) of
        None \<Rightarrow> (0, fd, w\<lparr>jw_hung := True\<rparr>)
      | Some (rc, k, s) \<Rightarrow> (rc, fd, w\<lparr>jw_uart := s, jw_time := k\<rparr>))"

definition altera_avalon_jtag_uart_close_fd :: "alt_fd \<Rightarrow> jtag_world \<Rightarrow> int \<times> alt_fd \<times> jtag_world" where
  "altera_avalon_jtag_uart_close_fd fd w =
     (case altera_avalon_jtag_uart_close (run_events (jw_script w)) (fd_flags fd) (jw_time w) (jw_uart w) of
        None \<Rightarrow> (0, fd, w\<lparr>jw_hung := True\<rparr>)
      | Some (rc, k, s) \<Rightarrow> (rc, fd, w\<lparr>jw_uart := s, jw_time := k\<rparr>))"

definition altera_avalon_jtag_uart_ioctl_fd ::
    "alt_fd \<Rightarrow> int \<Rightarrow> int \<Rightarrow> jtag_world \<Rightarrow> int \<times> int \<times> alt_fd \<times> jtag_world" where
  "altera_avalon_jtag_uart_ioctl_fd fd req arg w =
     (let (rc, arg, s) = altera_avalon_jtag_uart_ioctl req arg (jw_uart w) in (rc, arg, fd, w\<lparr>jw_uart := s\<rparr>))"

definition jtag_uart_dev :: "jtag_world alt_dev" where
  "jtag_uart_dev = \<lparr>dev_name = Some ''/dev/jtag_uart_0'', dev_open = None,
     dev_close = Some altera_avalon_jtag_uart_close_fd,
     dev_read = Some altera_avalon_jtag_uart_read_fd,
     dev_write = Some altera_avalon_jtag_uart_write_fd,
     dev_lseek = None, dev_fstat = None,
     dev_ioctl = Some altera_avalon_jtag_uart_ioctl_fd\<rparr>"

text \<open>The device keeps the contract that the descriptor table relies on.\<close>

lemma jtag_driver_ok: "driver_ok jtag_uart_dev"
  by (auto simp: driver_ok_def jtag_uart_dev_def keeps_def altera_avalon_jtag_uart_read_fd_def
      altera_avalon_jtag_uart_write_fd_def altera_avalon_jtag_uart_close_fd_def altera_avalon_jtag_uart_ioctl_fd_def
      split: option.splits prod.splits)

section \<open>Silence\<close>

text \<open>A host that does nothing: each alarm counts one more silent second, up to a limit.\<close>

lemma alarm_silent:
  assumes "\<not> jac (hw s)"
  shows "uart_event Alarm s = (if host_inactive (sp s) < 0x7FFFFFFD
     then with_sp (\<lambda>p. p\<lparr>host_inactive := host_inactive p + 1\<rparr>) s else s)"
  using assms by (simp add: altera_avalon_jtag_uart_timeout_def Let_def control_bits)

definition silent_for :: "nat \<Rightarrow> uart \<Rightarrow> uart" where
  "silent_for n s = with_sp (\<lambda>p. p\<lparr>host_inactive := of_nat (min n 0x7FFFFFFD)\<rparr>) s"

lemma silent_for_step:
  assumes "\<not> jac (hw s)"
  shows "uart_event Alarm (silent_for n s) = silent_for (Suc n) s"
proof -
  have j: "\<not> jac (hw (silent_for n s))" using assms by (simp add: silent_for_def)
  have u: "unat (of_nat (min n 0x7FFFFFFD) :: alt_u32) = min n 0x7FFFFFFD"
    by (simp add: unat_of_nat take_bit_nat_eq_self_iff min_def)
  then have lt: "host_inactive (sp (silent_for n s)) < 0x7FFFFFFD \<longleftrightarrow> n < 0x7FFFFFFD"
    by (simp add: silent_for_def word_less_nat_alt min_def)
  show ?thesis
  proof (cases "n < 0x7FFFFFFD")
    case True
    then show ?thesis unfolding alarm_silent [OF j] lt by (simp add: silent_for_def with_sp_def min_def add.commute)
  next
    case False
    then show ?thesis unfolding alarm_silent [OF j] lt by (simp add: silent_for_def)
  qed
qed

lemma alarms_silent:
  assumes "\<not> jac (hw s)"
  shows "(uart_event Alarm ^^ n) (silent_for m s) = silent_for (m + n) s"
  using silent_for_step [OF assms] by (induction n) simp_all

lemma silent_sel [simp]:
  "rx_in (sp (silent_for n s)) = rx_in (sp s)" "rx_out (sp (silent_for n s)) = rx_out (sp s)"
  "timeout (sp (silent_for n s)) = timeout (sp s)" "hw (silent_for n s) = hw s"
  by (simp_all add: silent_for_def)

lemma silent_timed_out:
  "host_inactive (sp (silent_for n s)) < timeout (sp s) \<longleftrightarrow> min n 0x7FFFFFFD < unat (timeout (sp s))"
proof -
  have "unat (of_nat (min n 0x7FFFFFFD) :: alt_u32) = min n 0x7FFFFFFD"
    by (simp add: unat_of_nat take_bit_nat_eq_self_iff min_def)
  then show ?thesis by (simp add: silent_for_def word_less_nat_alt)
qed

lemma silent_start: "host_inactive (sp s) \<le> 0x7FFFFFFD \<Longrightarrow> s = silent_for (unat (host_inactive (sp s))) s"
proof -
  assume "host_inactive (sp s) \<le> 0x7FFFFFFD"
  then have "min (unat (host_inactive (sp s))) 0x7FFFFFFD = unat (host_inactive (sp s))"
    by (simp add: word_le_nat_alt)
  then have "of_nat (min (unat (host_inactive (sp s))) 0x7FFFFFFD) = host_inactive (sp s)"
    by (simp only: of_nat_unat ucast_id)
  then show ?thesis by (simp add: silent_for_def with_sp_def)
qed

text \<open>
  A script in which the host does nothing: alarms and interrupts only. Before any byte has come
  in, an interrupt changes nothing that a waiting reader looks at, and each alarm counts.
\<close>

definition silent_script :: "(nat \<Rightarrow> uart_ev list) \<Rightarrow> bool" where
  "silent_script script \<longleftrightarrow> (\<forall>k. \<forall>e\<in>set (script k). e = Alarm \<or> (\<exists>host. e = Interrupt host \<and> (\<forall>j. host j = [])))"

definition alarms_in :: "uart_ev list \<Rightarrow> nat" where
  "alarms_in es = length (filter (\<lambda>e. e = Alarm) es)"

text \<open>The count of silent seconds after the first \<open>n\<close> interruption points from the \<open>k\<close>-th on.\<close>

primrec inactive_after :: "(nat \<Rightarrow> uart_ev list) \<Rightarrow> nat \<Rightarrow> uart \<Rightarrow> nat \<Rightarrow> nat" where
  "inactive_after script k s 0 = unat (host_inactive (sp s))"
| "inactive_after script k s (Suc n) = min (inactive_after script k s n + alarms_in (script (k + n))) 0x7FFFFFFD"

definition silent_at :: "uart \<Rightarrow> nat \<Rightarrow> uart \<Rightarrow> bool" where
  "silent_at s n t \<longleftrightarrow> uart_ok t \<and> \<not> jac (hw t) \<and> rfifo (hw t) = [] \<and> rx_in (sp t) = rx_in (sp s) \<and> rx_out (sp t) = rx_out (sp s) \<and>
     timeout (sp t) = timeout (sp s) \<and> unat (host_inactive (sp t)) = n \<and> n \<le> 0x7FFFFFFD"

text \<open>What the handler leaves alone when no byte has come in and the host is quiet.\<close>

definition rx_frame :: "uart \<Rightarrow> uart \<Rightarrow> bool" where
  "rx_frame s t \<longleftrightarrow> rfifo (hw t) = rfifo (hw s) \<and> (jac (hw t) \<longrightarrow> jac (hw s)) \<and> rx_in (sp t) = rx_in (sp s) \<and>
     host_inactive (sp t) = host_inactive (sp s)"

lemma rx_frame_trans: "rx_frame s t \<Longrightarrow> rx_frame t u \<Longrightarrow> rx_frame s u"
  by (simp add: rx_frame_def)

lemma quiet_env: "\<forall>j. host j = [] \<Longrightarrow> host_env host k h = h"
  by (simp add: host_env_def)

lemma set_irq_enable_frame: "rx_frame s (set_irq_enable f s)"
  by (simp add: rx_frame_def wr_control_def)

lemma irq_tx_frame:
  assumes quiet: "\<forall>j. host j = []" and "irq_tx (host_env host) n k s = (r, k', t)"
  shows "rx_frame s t"
  using assms(2)
proof (induction n arbitrary: k s)
  case 0
  then show ?case by (simp add: rx_frame_def)
next
  case (Suc n)
  show ?case
  proof (cases "tx_out (sp s) = tx_in (sp s)")
    case True
    then show ?thesis using Suc.prems by (simp add: rx_frame_def)
  next
    case False
    let ?s = "with_sp (\<lambda>p. p\<lparr>tx_out := (tx_out p + 1) mod BUF_LEN\<rparr>)
      (with_hw (wr_data (tx_buf (sp s) ! tx_out (sp s))) (with_hw (host_env host k) s))"
    have "irq_tx (host_env host) n (k + 1) ?s = (r, k', t)" using Suc.prems False by (simp add: Let_def)
    from Suc.IH [OF this] show ?thesis using quiet_env [OF quiet]
      by (auto simp: rx_frame_def wr_data_def split: if_splits)
  qed
qed

lemma irq_rx_frame:
  assumes quiet: "\<forall>j. host j = []" and e: "rfifo (hw s) = []" and r: "irq_rx (host_env host) d k s = Some (d', k', t)"
  shows "rx_frame s t"
  using r e quiet_env [OF quiet] unfolding irq_rx.simps [of "host_env host" d k s]
  by (auto simp: Let_def rd_data_valid rx_frame_def rd_data_snd split: if_splits)

lemma irq_body_frame:
  assumes quiet: "\<forall>j. host j = []" and e: "rfifo (hw s) = []"
    and b: "irq_body (host_env host) c k s = Some (k', t)"
  shows "rx_frame s t"
proof -
  have id: "with_hw (host_env host k) u = u" for k u using quiet_env [OF quiet] by (simp add: with_hw_def)
  obtain k1 u where u: "(if c AND RI_MSK \<noteq> 0 then Option.bind (irq_rx (host_env host) 0x10000 k s) (\<lambda>(data, k, s).
            Some (if data AND RAVAIL_MSK \<noteq> 0 then (k + 1, set_irq_enable (\<lambda>e. e AND NOT RE_MSK) (with_hw (host_env host k) s)) else (k, s)))
        else Some (k, s)) = Some (k1, u)"
    and t: "(if c AND WI_MSK \<noteq> 0 then
           (let (space, k, s) = irq_tx (host_env host) (unat (drop_bit 16 (c AND WSPACE_MSK))) k1 u
            in if 0 < space then (k + 1, set_irq_enable (\<lambda>e. e AND NOT WE_MSK) (with_hw (host_env host k) s)) else (k, s))
         else (k1, u)) = (k', t)"
    using b unfolding irq_body_def bind_eq_Some_conv by auto
  have su: "rx_frame s u"
  proof (cases "c AND RI_MSK \<noteq> 0")
    case True
    then obtain d k2 v where v: "irq_rx (host_env host) 0x10000 k s = Some (d, k2, v)"
        "u = v \<or> u = set_irq_enable (\<lambda>e. e AND NOT RE_MSK) v"
      using u by (auto simp: bind_eq_Some_conv id split: if_splits)
    from irq_rx_frame [OF quiet e v(1)] v(2) set_irq_enable_frame rx_frame_trans show ?thesis by blast
  qed (use u in \<open>simp add: rx_frame_def\<close>)
  show ?thesis
  proof (cases "c AND WI_MSK \<noteq> 0")
    case True
    obtain r k2 v where v: "irq_tx (host_env host) (unat (drop_bit 16 (c AND WSPACE_MSK))) k1 u = (r, k2, v)" by (metis prod_cases3)
    then have "t = v \<or> t = set_irq_enable (\<lambda>e. e AND NOT WE_MSK) v" using t True by (auto simp: id split: if_splits)
    with rx_frame_trans [OF su irq_tx_frame [OF quiet v]] set_irq_enable_frame rx_frame_trans show ?thesis by blast
  qed (use t su in simp)
qed

lemma isr_silent:
  assumes t: "silent_at s n t" and quiet: "\<forall>j. host j = []"
  shows "silent_at s n (isr host t)"
proof (cases "av_irq (hw t)")
  case False
  then show ?thesis using t by (simp add: isr_def)
next
  case True
  have ok: "uart_ok t" and e: "rfifo (hw t) = []" using t by (simp_all add: silent_at_def)
  from irq_one_turn [OF ok True quiet, of 0] isr_returns [OF ok True, of host] obtain k where
    "irq_body (host_env host) (rd_control (hw t)) 1 t = Some (k, isr host t)" by auto
  from irq_body_frame [OF quiet e this] isr_step [OF ok, of host] t show ?thesis
    by (auto simp: silent_at_def rx_frame_def uart_env_step_def)
qed

lemma alarm_step:
  assumes t: "silent_at s n t"
  shows "silent_at s (min (Suc n) 0x7FFFFFFD) (uart_event Alarm t)"
proof -
  have j: "\<not> jac (hw t)" and n: "unat (host_inactive (sp t)) = n" "n \<le> 0x7FFFFFFD" using t by (simp_all add: silent_at_def)
  have ok: "uart_ok (uart_event Alarm t)" using event_step [of t Alarm] t by (simp add: silent_at_def uart_env_step_def)
  have lt: "host_inactive (sp t) < 0x7FFFFFFD \<longleftrightarrow> n < 0x7FFFFFFD" using n(1) by (simp add: word_less_nat_alt)
  show ?thesis
  proof (cases "n < 0x7FFFFFFD")
    case True
    then have "unat (host_inactive (sp t) + 1) = Suc n" using n(1) by (simp add: unat_word_ariths)
    then show ?thesis using True t ok unfolding alarm_silent [OF j] lt by (simp add: silent_at_def)
  next
    case False
    then show ?thesis using t n unfolding alarm_silent [OF j] lt by (simp add: silent_at_def)
  qed
qed

lemma silent_events:
  assumes "silent_at s n t" "\<forall>e\<in>set es. e = Alarm \<or> (\<exists>host. e = Interrupt host \<and> (\<forall>j. host j = []))"
  shows "silent_at s (min (n + alarms_in es) 0x7FFFFFFD) (fold uart_event es t)"
  using assms
proof (induction es arbitrary: n t)
  case Nil
  then show ?case by (simp add: alarms_in_def silent_at_def)
next
  case (Cons e es)
  consider "e = Alarm" | host where "e = Interrupt host" "\<forall>j. host j = []" using Cons.prems(2) by auto
  then show ?case
  proof cases
    case 1
    have "alarms_in (e # es) = Suc (alarms_in es)" using 1 by (simp add: alarms_in_def)
    then have a: "min (n + alarms_in (e # es)) 0x7FFFFFFD = min (min (Suc n) 0x7FFFFFFD + alarms_in es) 0x7FFFFFFD" by linarith
    have "silent_at s (min (min (Suc n) 0x7FFFFFFD + alarms_in es) 0x7FFFFFFD) (fold uart_event es (uart_event Alarm t))"
      by (rule Cons.IH [OF alarm_step [OF Cons.prems(1)]]) (use Cons.prems(2) in simp)
    then show ?thesis unfolding a using 1 by (simp del: uart_event.simps)
  next
    case 2
    have "silent_at s (min (n + alarms_in es) 0x7FFFFFFD) (fold uart_event es (isr host t))"
      by (rule Cons.IH [OF isr_silent [OF Cons.prems(1) 2(2)]]) (use Cons.prems(2) in simp)
    moreover have "alarms_in (e # es) = alarms_in es" using 2 by (simp add: alarms_in_def)
    ultimately show ?thesis using 2(1) by simp
  qed
qed

primrec silent_state :: "(nat \<Rightarrow> uart_ev list) \<Rightarrow> nat \<Rightarrow> uart \<Rightarrow> nat \<Rightarrow> uart" where
  "silent_state script k s 0 = s"
| "silent_state script k s (Suc n) = run_events script (k + n) (silent_state script k s n)"

lemma silent_state_at:
  assumes "silent_script script" "silent_at s (unat (host_inactive (sp s))) s"
  shows "silent_at s (inactive_after script k s n) (silent_state script k s n)"
proof (induction n)
  case (Suc n)
  then show ?case using silent_events [OF Suc, of "script (k + n)"] assms(1)
    by (simp add: silent_script_def run_events_def)
qed (simp add: assms(2))

lemma wait_unfold:
  assumes "silent_script script" "silent_at s (unat (host_inactive (sp s))) s"
  shows "read_wait (run_events script) (rx_in (sp s)) (k + n) (silent_state script k s n) =
    (if inactive_after script k s (Suc n) < unat (timeout (sp s))
     then read_wait (run_events script) (rx_in (sp s)) (k + Suc n) (silent_state script k s (Suc n))
     else Some (k + Suc n, silent_state script k s (Suc n)))"
  using silent_state_at [OF assms, of k "Suc n"]
  unfolding read_wait.simps [of _ _ "k + n"] Let_def by (simp add: silent_at_def word_less_nat_alt)

lemma wait_until:
  assumes s: "silent_script script" "silent_at s (unat (host_inactive (sp s))) s"
    and n: "n \<le> j" "unat (timeout (sp s)) \<le> inactive_after script k s (Suc j)"
      "\<And>i. n \<le> i \<Longrightarrow> i < j \<Longrightarrow> inactive_after script k s (Suc i) < unat (timeout (sp s))"
  shows "read_wait (run_events script) (rx_in (sp s)) (k + n) (silent_state script k s n) =
    Some (k + Suc j, silent_state script k s (Suc j))"
  using n
proof (induction "j - n" arbitrary: n)
  case 0
  then show ?case using wait_unfold [OF s, of k n] by (simp del: inactive_after.simps silent_state.simps)
next
  case (Suc d)
  then have "read_wait (run_events script) (rx_in (sp s)) (k + Suc n) (silent_state script k s (Suc n)) =
      Some (k + Suc j, silent_state script k s (Suc j))" by (intro Suc.hyps(1)) simp_all
  moreover have "inactive_after script k s (Suc n) < unat (timeout (sp s))" using Suc by (intro Suc.prems(3)) simp_all
  ultimately show ?case using wait_unfold [OF s, of k n] by (simp del: inactive_after.simps silent_state.simps)
qed

lemma wait_forever:
  assumes s: "silent_script script" "silent_at s (unat (host_inactive (sp s))) s"
    and n: "\<And>i. n \<le> i \<Longrightarrow> inactive_after script k s (Suc i) < unat (timeout (sp s))"
  shows "read_wait (run_events script) (rx_in (sp s)) (k + n) (silent_state script k s n) = None"
proof -
  have "\<forall>m\<ge>n. e = run_events script \<longrightarrow> inx = rx_in (sp s) \<longrightarrow> l = k + m \<longrightarrow> t = silent_state script k s m \<longrightarrow> False"
    if "read_wait e inx l t = Some r" for e inx l t r
  proof (rule read_wait.raw_induct [OF _ that], goal_cases)
    case (1 w e inx l t r)
    show ?case
    proof (intro allI impI)
      fix m assume m: "n \<le> m" and e: "e = run_events script" "inx = rx_in (sp s)" "l = k + m" "t = silent_state script k s m"
      have at: "silent_at s (inactive_after script k s (Suc m)) (silent_state script k s (Suc m))"
        by (rule silent_state_at [OF s])
      have "w e inx (l + 1) (silent_state script k s (Suc m)) = Some r"
        using 1(2) at n [OF m] unfolding e Let_def by (simp add: silent_at_def word_less_nat_alt)
      from 1(1) [OF this] e m show False by (auto dest: spec [of _ "Suc m"])
    qed
  qed
  from this [of "run_events script" "rx_in (sp s)" "k + n" "silent_state script k s n"] show ?thesis
    by (cases "read_wait (run_events script) (rx_in (sp s)) (k + n) (silent_state script k s n)") auto
qed

lemma drain_silent:
  assumes s: "silent_script script" "silent_at s (unat (host_inactive (sp s))) s" and e: "rx_in (sp s) = rx_out (sp s)"
  shows "read_drain (run_events script) space [] k s = ([], space, rx_in (sp s), k + 1, silent_state script k s 1)"
  using e silent_state_at [OF s, of k 1]
  by (simp add: read_drain.simps [of _ _ "[]"] read_chunk_def silent_at_def Let_def)

text \<open>Alarms that keep coming reach every time-out that the counter can reach.\<close>

lemma inactive_le: "unat (host_inactive (sp s)) \<le> 0x7FFFFFFD \<Longrightarrow> inactive_after script k s n \<le> 0x7FFFFFFD"
  by (cases n) simp_all

lemma inactive_mono:
  assumes "unat (host_inactive (sp s)) \<le> 0x7FFFFFFD"
  shows "n \<le> m \<Longrightarrow> inactive_after script k s n \<le> inactive_after script k s m"
proof (induction m)
  case (Suc m)
  then show ?case using inactive_le [OF assms, of script k m] by (cases "n = Suc m") auto
qed simp

lemma inactive_reaches:
  assumes s: "unat (host_inactive (sp s)) \<le> 0x7FFFFFFD" and inf: "\<forall>n. \<exists>m\<ge>n. Alarm \<in> set (script m)"
  shows "\<exists>n\<ge>m. min N 0x7FFFFFFD \<le> inactive_after script k s n"
proof (induction N)
  case 0
  then show ?case by (intro exI [of _ m]) simp
next
  case (Suc N)
  then obtain n where n: "m \<le> n" "min N 0x7FFFFFFD \<le> inactive_after script k s n" by blast
  obtain l where l: "k + n \<le> l" "Alarm \<in> set (script l)" using inf by blast
  define d where "d = l - k"
  have d: "n \<le> d" "l = k + d" using l(1) by (simp_all add: d_def)
  have "0 < alarms_in (script (k + d))" using l(2) d(2) by (auto simp: alarms_in_def filter_empty_conv)
  moreover have "min N 0x7FFFFFFD \<le> inactive_after script k s d" using n(2) inactive_mono [OF s d(1)] le_trans by blast
  ultimately have "min (Suc N) 0x7FFFFFFD \<le> inactive_after script k s (Suc d)" by auto
  then show ?case using n(1) d(1) by (intro exI [of _ "Suc d"]) simp
qed

section \<open>Properties\<close>

text \<open>
  C17. End to end. In every run from the initialisation of the driver, with any interleaving
  of host actions, alarms, interrupts and driver calls and any script of events inside the
  calls: the bytes the host typed are exactly those delivered to the program, then those in
  the receive ring, then those in the hardware FIFO; the bytes accepted from the program are
  exactly those the host got, then those in the hardware FIFO, then those in the transmit
  ring. The shadow register stays equal to the device's enable bits, and an interrupt is
  switched off only while its ring cannot use it (receive: full, transmit: empty).
\<close>

theorem uart_run_streams:
  assumes "uart_run s delivered accepted"
  shows "typed (hw s) = delivered @ rx_ring s @ rfifo (hw s) \<and>
    accepted = shown (hw s) @ wfifo (hw s) @ tx_ring s \<and>
    ien_AF (hw s) = bit (irq_enable (sp s)) 0 \<and> ien_AE (hw s) = bit (irq_enable (sp s)) 1 \<and>
    (ien_AF (hw s) \<or> length (rx_ring s) = BUF_LEN - 1) \<and> (ien_AE (hw s) \<or> tx_ring s = [])"
proof -
  have i: "uart_inv s delivered accepted" by (rule uart_run_inv [OF assms])
  then have ok: "uart_ok s" by (simp add: uart_inv_def)
  show ?thesis
    using i ring_full_iff [OF rings_ok(1) [OF ok]] ring_empty_iff [OF rings_ok(2) [OF ok]]
    by (auto simp: uart_inv_def uart_ok_def rx_live_def tx_live_def rx_stream_def tx_stream_def rx_ring_def tx_ring_def)
qed

definition demo_uart_clock :: "uart clock" where
  "demo_uart_clock = \<lparr>alt_tick_rate = 1000, alt_nticks = 0, alarm_links = alt_llist_head alt_alarm_list (\<lambda>_. \<lparr>ll_next = 0, ll_prev = 0\<rparr>),
     alarms = (\<lambda>_. \<lparr>al_time = 0, al_callback = 0, al_rollover = 0, al_context = 0\<rparr>),
     clock_cpu = \<lparr>cpu_status = 1, cpu_ienable = 0\<rparr>, alt_resettime = \<lparr>tv_sec = 0, tv_usec = 0\<rparr>,
     alt_timezone = \<lparr>tz_minuteswest = 0, tz_dsttime = 0\<rparr>, clock_errno = 0, clock_world = jtag_boot\<rparr>"

lemma demo_run: "\<exists>s. uart_run s [] [] \<and> hw s = juart_reset\<lparr>ien_AF := True\<rparr> \<and> timeout (sp s) = 10 \<and>
    host_inactive (sp s) = 0 \<and> rx_ring s = [] \<and> uart_ok s"
proof -
  have n: "length (alt_irq demo_irq) = 32" "unat (5 :: alt_u32) < 32" by (simp_all add: demo_irq_def)
  from init_spec [OF this, of 1 2 3 4 0 demo_uart_clock] obtain s i c where
    s: "altera_avalon_jtag_uart_init 1 2 3 4 0 5 jtag_boot demo_irq demo_uart_clock = Inr (s, i, c)"
      "timeout (sp s) = 10" "host_inactive (sp s) = 0" "rx_stream s = []" "uart_ok s"
      "hw s = wr_control RE_MSK juart_reset"
    by (auto simp: demo_uart_clock_def)
  then have "hw s = juart_reset\<lparr>ien_AF := True\<rparr>" by (simp add: wr_control_def juart_reset_def)
  with s uart_run.init [OF n s(1)] show ?thesis by (auto simp: rx_stream_def)
qed

theorem uart_run_streams_witness:
  "\<exists>s. uart_run s [] [] \<and> typed (hw s) = [65] \<and> rx_ring s @ rfifo (hw s) = [65]"
proof -
  obtain s where s: "uart_run s [] []" "hw s = juart_reset\<lparr>ien_AF := True\<rparr>" using demo_run by blast
  let ?t = "uart_event (Host_Send 65) s"
  have r: "uart_run ?t [] []" by (rule uart_run.event [OF s(1)])
  have "typed (hw ?t) = [65]" using s(2) by (simp add: host_send_def juart_reset_def)
  with r uart_run_streams [OF r] show ?thesis by auto
qed

text \<open>
  C28. Losing the host. With no traffic from the host, \<open>n\<close> alarms after a moment of silence
  \<open>TIOCGCONNECTED\<close> still says the host is connected exactly when \<open>n\<close> is below the time-out
  (the count stops at \<open>INT_MAX - 2\<close>, so a larger time-out never expires); an alarm after the
  host polled sets the count back. \<open>TIOCSTIMEOUT\<close> stores a value from 2 to \<open>INT_MAX - 1\<close>
  and replaces any other by \<open>INT_MAX - 1\<close>. Without a system clock (time-out \<open>INT_MAX\<close>) both
  requests fail with \<open>-ENOTTY\<close>, as does any other request.
\<close>

theorem host_timeout:
  assumes silent: "\<not> jac (hw s)" and start: "host_inactive (sp s) = 0" and clock: "timeout (sp s) \<noteq> UINT_INT_MAX"
  shows "fst (snd (altera_avalon_jtag_uart_ioctl TIOCGCONNECTED x ((uart_event Alarm ^^ n) s))) =
      (if min n 0x7FFFFFFD < unat (timeout (sp s)) then 1 else 0) \<and>
    host_inactive (sp (uart_event Alarm (uart_event Host_Poll s))) = 0 \<and>
    (let s' = snd (snd (altera_avalon_jtag_uart_ioctl TIOCSTIMEOUT t s))
     in int (unat (timeout (sp s'))) = (if 2 \<le> t \<and> t < INT_MAX then t else INT_MAX - 1)) \<and>
    altera_avalon_jtag_uart_ioctl req y (with_sp (\<lambda>p. p\<lparr>timeout := UINT_INT_MAX\<rparr>) s) =
      (- ENOTTY, y, with_sp (\<lambda>p. p\<lparr>timeout := UINT_INT_MAX\<rparr>) s)"
proof (intro conjI)
  have "s = silent_for 0 s" using silent_start [of s] start by simp
  then have n: "(uart_event Alarm ^^ n) s = silent_for n s"
    using alarms_silent [OF silent, of n 0] by simp
  show "fst (snd (altera_avalon_jtag_uart_ioctl TIOCGCONNECTED x ((uart_event Alarm ^^ n) s))) =
      (if min n 0x7FFFFFFD < unat (timeout (sp s)) then 1 else 0)"
    unfolding n using clock silent_timed_out [of n s] by (simp add: altera_avalon_jtag_uart_ioctl_def)
  show "host_inactive (sp (uart_event Alarm (uart_event Host_Poll s))) = 0"
    by (simp add: altera_avalon_jtag_uart_timeout_def Let_def control_bits host_poll_def)
  have "int (unat (word_of_int t :: alt_u32)) = t" if "2 \<le> t" "t < INT_MAX"
    using that by (simp add: unsigned_of_int take_bit_int_eq_self_iff)
  then show "let s' = snd (snd (altera_avalon_jtag_uart_ioctl TIOCSTIMEOUT t s))
     in int (unat (timeout (sp s'))) = (if 2 \<le> t \<and> t < INT_MAX then t else INT_MAX - 1)"
    using clock by (simp add: altera_avalon_jtag_uart_ioctl_def Let_def)
  show "altera_avalon_jtag_uart_ioctl req y (with_sp (\<lambda>p. p\<lparr>timeout := UINT_INT_MAX\<rparr>) s) =
      (- ENOTTY, y, with_sp (\<lambda>p. p\<lparr>timeout := UINT_INT_MAX\<rparr>) s)"
    by (simp add: altera_avalon_jtag_uart_ioctl_def)
qed

theorem host_timeout_witness:
  "fst (snd (altera_avalon_jtag_uart_ioctl TIOCGCONNECTED 7 ((uart_event Alarm ^^ 9) jtag_boot))) = 1 \<and>
   fst (snd (altera_avalon_jtag_uart_ioctl TIOCGCONNECTED 7 ((uart_event Alarm ^^ 10) jtag_boot))) = 0"
  using host_timeout [of jtag_boot 7 9 5 0 0] host_timeout [of jtag_boot 7 10 5 0 0]
  by (simp add: jtag_boot_def juart_reset_def jtag_uart_instance_def)

text \<open>
  C27. Giving up. Let nothing be there to read and the host stay silent, with any alarms and
  interrupts at any points meanwhile. A blocking read then looks once for data, waits until the
  first point at which the alarms have counted up to the time-out, looks once more and returns
  \<open>-EIO\<close>; it does not return as long as they have not. If alarms keep coming, it returns
  exactly when the counter can reach the time-out at all (at most \<open>INT_MAX - 2\<close>; a larger one
  is how the driver spells "no time-out").
\<close>

theorem read_gives_up:
  assumes script: "silent_script script" and ok: "uart_ok s"
    and silent: "\<not> jac (hw s)" "rfifo (hw s) = []" "rx_ring s = []" "host_inactive (sp s) \<le> 0x7FFFFFFD"
    and call: "0 < space" "flags AND O_NONBLOCK = 0"
  shows "(\<forall>j\<ge>1. unat (timeout (sp s)) \<le> inactive_after script k s (Suc j) \<longrightarrow>
      (\<forall>i\<ge>1. i < j \<longrightarrow> inactive_after script k s (Suc i) < unat (timeout (sp s))) \<longrightarrow>
      (\<exists>s'. altera_avalon_jtag_uart_read (run_events script) space flags k s = Some (- EIO, [], k + j + 3, s') \<and>
         unat (host_inactive (sp s')) = inactive_after script k s (j + 2))) \<and>
    ((\<forall>j\<ge>1. inactive_after script k s (Suc j) < unat (timeout (sp s))) \<longrightarrow>
      altera_avalon_jtag_uart_read (run_events script) space flags k s = None) \<and>
    ((\<forall>n. \<exists>m\<ge>n. Alarm \<in> set (script m)) \<longrightarrow>
      (altera_avalon_jtag_uart_read (run_events script) space flags k s \<noteq> None \<longleftrightarrow> unat (timeout (sp s)) \<le> 0x7FFFFFFD))"
proof -
  let ?T = "unat (timeout (sp s))" and ?read = "altera_avalon_jtag_uart_read (run_events script) space flags k s"
  have le: "unat (host_inactive (sp s)) \<le> 0x7FFFFFFD" using silent(4) by (simp add: word_le_nat_alt)
  have s: "silent_at s (unat (host_inactive (sp s))) s" using ok silent le by (simp add: silent_at_def)
  have e: "rx_in (sp s) = rx_out (sp s)" using ring_empty_iff [OF rings_ok(1) [OF ok]] silent(3) by (simp add: rx_ring_def)
  note drain = drain_silent [OF script s e, of space k]
  have gives_up: "\<exists>s'. ?read = Some (- EIO, [], k + j + 3, s') \<and> unat (host_inactive (sp s')) = inactive_after script k s (j + 2)"
    if j: "1 \<le> j" "?T \<le> inactive_after script k s (Suc j)"
      "\<And>i. 1 \<le> i \<Longrightarrow> i < j \<Longrightarrow> inactive_after script k s (Suc i) < ?T" for j
  proof -
    let ?s = "silent_state script k s (j + 2)"
    have at: "silent_at s (inactive_after script k s (j + 2)) ?s" by (rule silent_state_at [OF script s])
    have "read_wait (run_events script) (rx_in (sp s)) (k + 1) (silent_state script k s 1) =
        Some (k + Suc j, silent_state script k s (Suc j))" by (rule wait_until [OF script s j])
    then have "read_loop (run_events script) space flags k s = Some ([], k + Suc j + 1, ?s)"
      using drain call at by (simp add: read_loop.simps [of _ _ _ k] silent_at_def)
    then show ?thesis using call at by (simp add: altera_avalon_jtag_uart_read_def silent_at_def)
  qed
  have waits: "?read = None" if j: "\<And>j. 1 \<le> j \<Longrightarrow> inactive_after script k s (Suc j) < ?T"
  proof -
    have "read_wait (run_events script) (rx_in (sp s)) (k + 1) (silent_state script k s 1) = None"
      by (rule wait_forever [OF script s j])
    then have "read_loop (run_events script) space flags k s = None"
      using drain call by (simp add: read_loop.simps [of _ _ _ k])
    then show ?thesis by (simp add: altera_avalon_jtag_uart_read_def)
  qed
  have "?read \<noteq> None \<longleftrightarrow> ?T \<le> 0x7FFFFFFD" if inf: "\<forall>n. \<exists>m\<ge>n. Alarm \<in> set (script m)"
  proof (cases "?T \<le> 0x7FFFFFFD")
    case True
    from inactive_reaches [OF le inf, of 2 ?T k] obtain n where "2 \<le> n" "?T \<le> inactive_after script k s n"
      using True by auto
    then have ex: "1 \<le> n - 1 \<and> ?T \<le> inactive_after script k s (Suc (n - 1))" by (cases n) simp_all
    define j where "j = (LEAST j. 1 \<le> j \<and> ?T \<le> inactive_after script k s (Suc j))"
    have j: "1 \<le> j \<and> ?T \<le> inactive_after script k s (Suc j)" unfolding j_def
      using LeastI [of "\<lambda>j. 1 \<le> j \<and> ?T \<le> inactive_after script k s (Suc j)", OF ex] .
    moreover have "inactive_after script k s (Suc i) < ?T" if "1 \<le> i" "i < j" for i
      using not_less_Least [of i "\<lambda>j. 1 \<le> j \<and> ?T \<le> inactive_after script k s (Suc j)"] that unfolding j_def
      by (simp add: not_le del: inactive_after.simps)
    ultimately obtain s' where "?read = Some (- EIO, [], k + j + 3, s')" using gives_up [of j] by blast
    then show ?thesis using True by simp
  next
    case False
    have "?read = None"
    proof (rule waits)
      fix j show "inactive_after script k s (Suc j) < ?T" using False inactive_le [OF le, of script k "Suc j"] by simp
    qed
    then show ?thesis using False by simp
  qed
  with gives_up waits show ?thesis by blast
qed

theorem read_gives_up_witness:
  "(\<exists>s. altera_avalon_jtag_uart_read (run_events (\<lambda>k. [Interrupt (\<lambda>j. []), Alarm])) 4 0 0 jtag_boot = Some (- EIO, [], 12, s)) \<and>
   altera_avalon_jtag_uart_read (run_events (\<lambda>k. [])) 4 0 0 jtag_boot = None"
proof -
  have ok: "uart_ok jtag_boot" and e: "rx_ring jtag_boot = []"
    by (simp_all add: jtag_boot_def jtag_uart_instance_def juart_reset_def uart_ok_def ring_ok_def rx_ring_def ring_def ring_used_def)
  have h: "\<not> jac (hw jtag_boot)" "rfifo (hw jtag_boot) = []" "host_inactive (sp jtag_boot) = 0" "unat (timeout (sp jtag_boot)) = 10"
    by (simp_all add: jtag_boot_def juart_reset_def jtag_uart_instance_def)
  let ?sc = "\<lambda>k. [Interrupt (\<lambda>j. []), Alarm]"
  have s: "silent_script ?sc" "silent_script (\<lambda>k. [])" by (auto simp: silent_script_def)
  have n: "inactive_after ?sc 0 jtag_boot n = min n 0x7FFFFFFD" for n
    by (induction n) (simp_all add: h alarms_in_def)
  have z: "inactive_after (\<lambda>k. []) 0 jtag_boot n = 0" for n by (induction n) (simp_all add: h alarms_in_def)
  note up = read_gives_up [OF s(1) ok h(1,2) e, of 4 0 0, THEN conjunct1, rule_format, of 9]
  have "\<exists>s'. altera_avalon_jtag_uart_read (run_events ?sc) 4 0 0 jtag_boot = Some (- EIO, [], 0 + 9 + 3, s') \<and>
      unat (host_inactive (sp s')) = inactive_after ?sc 0 jtag_boot (9 + 2)"
    by (rule up) (simp_all add: n h alarms_in_def)
  moreover have "altera_avalon_jtag_uart_read (run_events (\<lambda>k. [])) 4 0 0 jtag_boot = None"
    by (rule read_gives_up [OF s(2) ok h(1,2) e, of 4 0 0, THEN conjunct2, THEN conjunct1, rule_format]) (simp_all add: z h alarms_in_def)
  ultimately show ?thesis by auto
qed

text \<open>
  C21. Reading, whatever interrupts and the host do meanwhile. The bytes returned are the next
  bytes of the incoming stream, in order and each once, although the interrupt handler may
  move the ring's head between the reading of the indices and the copying. The count is at
  most the space asked for and at least what the ring held at the start; with nothing read
  the ring is empty and the result is \<open>-EWOULDBLOCK\<close> or \<open>-EIO\<close> by the descriptor's mode. A
  non-blocking read, and a read with bytes at hand, always returns. (A read of no space at
  all returns an error, not 0.)
\<close>

theorem uart_read_spec:
  assumes ok: "uart_ok s" and stream: "typed (hw s) = d @ rx_stream s"
  shows "(flags AND O_NONBLOCK \<noteq> 0 \<or> rx_ring s \<noteq> [] \<or> space \<le> 0 \<longrightarrow>
      altera_avalon_jtag_uart_read (run_events script) space flags k s \<noteq> None) \<and>
    (\<forall>rc ptr k' s'. altera_avalon_jtag_uart_read (run_events script) space flags k s = Some (rc, ptr, k', s') \<longrightarrow>
      typed (hw s') = d @ ptr @ rx_stream s' \<and> shown (hw s') @ tx_stream s' = shown (hw s) @ tx_stream s \<and>
      min (nat space) (length (rx_ring s)) \<le> length ptr \<and> length ptr \<le> nat space \<and>
      (ptr = [] \<longrightarrow> 0 < space \<longrightarrow> rx_ring s' = []) \<and>
      rc = (if ptr \<noteq> [] then int (length ptr) else if flags AND O_NONBLOCK \<noteq> 0 then - EWOULDBLOCK else - EIO))"
proof (intro conjI impI allI)
  assume "flags AND O_NONBLOCK \<noteq> 0 \<or> rx_ring s \<noteq> [] \<or> space \<le> 0"
  then show "altera_avalon_jtag_uart_read (run_events script) space flags k s \<noteq> None"
    by (rule world.read_returns [OF ok])
next
  fix rc ptr k' s'
  assume "altera_avalon_jtag_uart_read (run_events script) space flags k s = Some (rc, ptr, k', s')"
  note r = world.read_spec [OF this ok]
  show "typed (hw s') = d @ ptr @ rx_stream s'" using r(2) [OF stream] by simp
  show "shown (hw s') @ tx_stream s' = shown (hw s) @ tx_stream s" by (rule r(3))
  show "min (nat space) (length (rx_ring s)) \<le> length ptr" by (rule r(6))
  show "length ptr \<le> nat space" by (rule r(5))
  show "rx_ring s' = []" if "ptr = []" "0 < space" by (rule r(7) [OF that])
  show "rc = (if ptr \<noteq> [] then int (length ptr) else if flags AND O_NONBLOCK \<noteq> 0 then - EWOULDBLOCK else - EIO)"
    by (rule r(4))
qed

theorem uart_read_spec_witness:
  "\<exists>s rc ptr k' s'. altera_avalon_jtag_uart_read (run_events (\<lambda>k. [Host_Send 66, Host_Poll, Interrupt (\<lambda>j. [Send 67])])) 1 O_NONBLOCK 0 s =
     Some (rc, ptr, k', s') \<and> typed (hw s') = ptr @ rx_stream s'"
proof -
  obtain s where s: "uart_run s [] []" "hw s = juart_reset\<lparr>ien_AF := True\<rparr>" "rx_ring s = []" "uart_ok s"
    using demo_run by blast
  then have t: "typed (hw s) = [] @ rx_stream s" by (simp add: juart_reset_def rx_stream_def)
  note r = uart_read_spec [OF s(4) t, of O_NONBLOCK 1 "\<lambda>k. [Host_Send 66, Host_Poll, Interrupt (\<lambda>j. [Send 67])]" 0]
  obtain x where "altera_avalon_jtag_uart_read (run_events (\<lambda>k. [Host_Send 66, Host_Poll, Interrupt (\<lambda>j. [Send 67])])) 1 O_NONBLOCK 0 s = Some x"
    using r by auto
  moreover obtain rc ptr k' s' where "x = (rc, ptr, k', s')" by (cases x)
  ultimately have e: "altera_avalon_jtag_uart_read (run_events (\<lambda>k. [Host_Send 66, Host_Poll, Interrupt (\<lambda>j. [Send 67])])) 1 O_NONBLOCK 0 s =
    Some (rc, ptr, k', s')" by simp
  with r have "typed (hw s') = [] @ ptr @ rx_stream s'" by blast
  then have "typed (hw s') = ptr @ rx_stream s'" by simp
  with e show ?thesis by blast
qed

text \<open>
  C23. Writing, whatever interrupts and the host do meanwhile. Some first part of the data is
  appended to the outgoing stream, without touching what is already under way; all of it that
  fits the ring at the start, at least. The result is the length of that part, or
  \<open>-EWOULDBLOCK\<close>/\<open>-EIO\<close> if it is empty. Less than everything is written only with
  \<open>O_NONBLOCK\<close>, or when the host was found silent for at least one alarm period. A
  non-blocking write, and one that fits, always returns.
\<close>

theorem uart_write_spec:
  assumes ok: "uart_ok s"
  shows "(flags AND O_NONBLOCK \<noteq> 0 \<or> length data + length (tx_ring s) < BUF_LEN \<longrightarrow>
      altera_avalon_jtag_uart_write (run_events script) data flags k s \<noteq> None) \<and>
    (\<forall>rc k' s'. altera_avalon_jtag_uart_write (run_events script) data flags k s = Some (rc, k', s') \<longrightarrow>
      (\<exists>n\<le>length data. shown (hw s') @ tx_stream s' = shown (hw s) @ tx_stream s @ take n data \<and>
        min (length data) (BUF_LEN - 1 - length (tx_ring s)) \<le> n \<and>
        (n < length data \<longrightarrow> flags AND O_NONBLOCK \<noteq> 0 \<or> host_inactive (sp s') \<noteq> 0) \<and>
        rc = (if n \<noteq> 0 then int n else if flags AND O_NONBLOCK \<noteq> 0 then - EWOULDBLOCK else - EIO)))"
proof (intro conjI impI allI)
  assume "flags AND O_NONBLOCK \<noteq> 0 \<or> length data + length (tx_ring s) < BUF_LEN"
  then show "altera_avalon_jtag_uart_write (run_events script) data flags k s \<noteq> None"
    by (rule world.write_returns [OF ok])
next
  fix rc k' s'
  assume "altera_avalon_jtag_uart_write (run_events script) data flags k s = Some (rc, k', s')"
  from world.write_spec [OF this ok] show "\<exists>n\<le>length data. shown (hw s') @ tx_stream s' = shown (hw s) @ tx_stream s @ take n data \<and>
        min (length data) (BUF_LEN - 1 - length (tx_ring s)) \<le> n \<and>
        (n < length data \<longrightarrow> flags AND O_NONBLOCK \<noteq> 0 \<or> host_inactive (sp s') \<noteq> 0) \<and>
        rc = (if n \<noteq> 0 then int n else if flags AND O_NONBLOCK \<noteq> 0 then - EWOULDBLOCK else - EIO)"
    unfolding uart_write_step_def by blast
qed

theorem uart_write_spec_witness:
  "\<exists>s k' s'. altera_avalon_jtag_uart_write (run_events (\<lambda>k. [Interrupt (\<lambda>j. [Poll]), Host_Take])) [72, 105] 0 0 s = Some (2, k', s') \<and>
     shown (hw s') @ tx_stream s' = [72, 105]"
proof -
  obtain s where s: "uart_run s [] []" "hw s = juart_reset\<lparr>ien_AF := True\<rparr>" "uart_ok s" using demo_run by blast
  have e: "tx_ring s = []" using uart_run_inv [OF s(1)] s(2) by (simp add: uart_inv_def tx_stream_def juart_reset_def)
  note r = uart_write_spec [OF s(3), of 0 "[72, 105]" "\<lambda>k. [Interrupt (\<lambda>j. [Poll]), Host_Take]" 0]
  obtain x where "altera_avalon_jtag_uart_write (run_events (\<lambda>k. [Interrupt (\<lambda>j. [Poll]), Host_Take])) [72, 105] 0 0 s = Some x"
    using r e by auto
  moreover obtain rc k' s' where "x = (rc, k', s')" by (cases x)
  moreover have "shown (hw s) @ tx_stream s = []" using s(2) e by (simp add: juart_reset_def tx_stream_def)
  ultimately show ?thesis using r e by (fastforce simp: min_def)
qed

lemma pending_line: "bit (uart_pending s) n \<Longrightarrow> n = JTAG_UART_0_IRQ"
  by (simp add: uart_pending_def bit_single del: push_bit_of_1 split: if_splits)

text \<open>
  C19. The interrupt, with the host at work before each of the handler's accesses to the device.
  The handler's endless loop always exits, and the dispatcher calls it once for the pending
  line and returns with the line quiet. Every byte the device held is then in the ring, or the
  ring is full; the transmit ring is empty, or the device has more than 8 bytes to send and will
  ask again. If the host is quiet meanwhile, the handler's loop takes one turn, which empties
  the device or fills the ring, and empties the ring or fills the device. With no request
  pending the dispatcher never returns.
\<close>

theorem uart_interrupt_served:
  assumes ok: "uart_ok s" and table: "length (alt_irq i) = ALT_NIRQ"
    and run: "run = (\<lambda>f ctx. isr host)" "t = registered JTAG_UART_0_IRQ (Some h) p i"
  shows "if av_irq (hw s) then \<exists>k s'.
      altera_avalon_jtag_uart_irq (host_env host) 0 s = Some (k, s') \<and>
      irq_trace uart_pending (irq_service run t) s [JTAG_UART_0_IRQ] s' \<and>
      alt_irq_handler run t uart_pending s = Some (Inr s') \<and> uart_ok s' \<and> uart_pending s' = 0 \<and>
      (ipen_AF (hw s) \<longrightarrow> min (BUF_LEN - 1) (length (rx_ring s) + length (rfifo (hw s))) \<le> length (rx_ring s')) \<and>
      (ipen_AE (hw s) \<longrightarrow> tx_ring s' = [] \<or> 8 < length (wfifo (hw s'))) \<and>
      ((\<forall>j. host j = []) \<longrightarrow> irq_body (host_env host) (rd_control (hw s)) 1 s = Some (k - 1, s') \<and>
         (ipen_AF (hw s) \<longrightarrow> rfifo (hw s') = [] \<or> length (rx_ring s') = BUF_LEN - 1) \<and>
         (ipen_AE (hw s) \<longrightarrow> tx_ring s' = [] \<or> length (wfifo (hw s')) = FIFO_LEN))
    else alt_irq_handler run t uart_pending s = None"
proof (cases "av_irq (hw s)")
  case False
  then show ?thesis
    by (simp add: alt_irq_handler_def uart_pending_def irq_dispatch.simps [of _ _ _ 0] scan_zero_diverges)
next
  case True
  let ?s = "isr host s"
  obtain k where k: "altera_avalon_jtag_uart_irq (host_env host) 0 s = Some (k, ?s)" using isr_returns [OF ok True] by blast
  have st: "uart_env_step s ?s" "\<not> av_irq (hw ?s)" "ipen_AF (hw s) \<longrightarrow> rx_taken s ?s" using isr_step [OF ok] by blast+
  have p: "uart_pending s = push_bit JTAG_UART_0_IRQ 1" "uart_pending ?s = 0"
    using True st(2) by (simp_all add: uart_pending_def del: push_bit_of_1)
  have serve: "irq_service run t JTAG_UART_0_IRQ s = ?s"
    using table by (simp add: run irq_service_def registered_def Let_def)
  have "irq_lines (uart_pending s) = [JTAG_UART_0_IRQ]"
    unfolding p(1) irq_lines_def bit_push_bit_iff by (simp add: upt_conv_Cons)
  then have trace: "irq_trace uart_pending (irq_service run t) s [JTAG_UART_0_IRQ] ?s"
    using irq_trace.quiet [of uart_pending ?s] p(2) by (intro irq_trace.serve) (simp_all add: serve)
  have "handler (alt_irq t ! n) \<noteq> None" if "bit (uart_pending w) n" for w n
    using pending_line [OF that] table by (simp add: run registered_def Let_def)
  moreover have "length (alt_irq t) = ALT_NIRQ" using table by (simp add: run registered_def Let_def)
  moreover have "uart_pending s \<noteq> 0" using p(1) by simp
  ultimately have d: "alt_irq_handler run t uart_pending s = Some (Inr ?s)"
    using dispatch_follows_trace [OF trace] by (simp add: alt_irq_handler_def)
  have ok': "uart_ok ?s" using st(1) by (simp add: uart_env_step_def)
  have tx: "tx_ring ?s = [] \<or> 8 < length (wfifo (hw ?s))" if "ipen_AE (hw s)"
  proof -
    have "tx_live s" using that ok by (simp add: tx_live_def ipen_AE_def uart_ok_def)
    then have "tx_live ?s" using st(1) by (simp add: uart_env_step_def)
    then show ?thesis using st(2) ok'
      by (auto simp: tx_live_def av_irq_def ipen_AE_def uart_ok_def tx_ring_def ring_def ring_used_def)
  qed
  have quiet: "irq_body (host_env host) (rd_control (hw s)) 1 s = Some (k - 1, ?s) \<and>
      (ipen_AF (hw s) \<longrightarrow> rfifo (hw ?s) = [] \<or> length (rx_ring ?s) = BUF_LEN - 1) \<and>
      (ipen_AE (hw s) \<longrightarrow> tx_ring ?s = [] \<or> length (wfifo (hw ?s)) = FIFO_LEN)" if "\<forall>j. host j = []"
    using irq_one_turn [OF ok True that, of 0] k by auto
  show ?thesis
    using True k trace d ok' p(2) st(3) tx quiet unfolding rx_taken_def by (simp del: One_nat_def)
qed

theorem uart_interrupt_served_witness:
  "\<exists>s s'. alt_irq_handler (\<lambda>f ctx. isr (\<lambda>j. [Take, Poll])) (registered JTAG_UART_0_IRQ (Some 7) 9 demo_irq) uart_pending s = Some (Inr s') \<and>
     length (rfifo (hw s)) = 1 \<and> 1 \<le> length (rx_ring s') \<and> uart_pending s' = 0"
proof -
  obtain s0 where s0: "uart_run s0 [] []" "hw s0 = juart_reset\<lparr>ien_AF := True\<rparr>" "uart_ok s0" using demo_run by blast
  define s where "s = uart_event Host_Poll (uart_event (Host_Send 65) s0)"
  have "uart_run s [] []" unfolding s_def by (intro uart_run.event s0(1))
  then have ok: "uart_ok s" using uart_run_inv by (simp add: uart_inv_def)
  have p: "ipen_AF (hw s)" "length (rfifo (hw s)) = 1"
    by (simp_all add: s_def s0(2) host_send_def host_poll_def juart_reset_def ipen_AF_def)
  have "length (alt_irq demo_irq) = ALT_NIRQ" by (simp add: demo_irq_def)
  note served = uart_interrupt_served [OF ok this refl refl, of "\<lambda>j. [Take, Poll]" 7 9]
  have "av_irq (hw s)" using p by (simp add: av_irq_def)
  with served obtain s' where
    "alt_irq_handler (\<lambda>f ctx. isr (\<lambda>j. [Take, Poll])) (registered JTAG_UART_0_IRQ (Some 7) 9 demo_irq) uart_pending s = Some (Inr s')"
    "uart_pending s' = 0" "min (BUF_LEN - 1) (length (rx_ring s) + length (rfifo (hw s))) \<le> length (rx_ring s')"
    using p(1) by auto
  then show ?thesis using p(2) by (intro exI [of _ s] exI [of _ s']) (simp add: min_def split: if_splits)
qed

text \<open>
  C30. The polling driver, whatever the host does before each of its register accesses. A read
  returns the next bytes of the device's FIFO, each once and in order: at least what was there at
  the call, at most what was asked for, and less only when it has found the FIFO empty; nothing at
  all only from a non-blocking descriptor (or for no space). It returns at once if it may, and a
  blocking one returns exactly when there is a byte or the host ever sends one. A write that
  returns has appended all its data, even on a non-blocking descriptor, and says so; it returns
  if the data fits the FIFO, or if the host keeps taking bytes.
\<close>

theorem small_driver_streams:
  assumes len: "length (rfifo h) \<le> FIFO_LEN" "length (wfifo h) \<le> FIFO_LEN" and stream: "typed h = d @ rfifo h"
  shows "(\<forall>rc ptr k' h'. small_uart_read (host_env script) space flags k h = Some (rc, ptr, k', h') \<longrightarrow>
      typed h' = d @ ptr @ rfifo h' \<and> shown h' @ wfifo h' = shown h @ wfifo h \<and>
      min (nat space) (length (rfifo h)) \<le> length ptr \<and> length ptr \<le> nat space \<and>
      (length ptr < nat space \<longrightarrow> rfifo h' = [] \<and> (ptr = [] \<longrightarrow> flags AND O_NONBLOCK \<noteq> 0)) \<and>
      rc = (if ptr \<noteq> [] then int (length ptr) else if flags AND O_NONBLOCK \<noteq> 0 then - EWOULDBLOCK else - EIO)) \<and>
    (small_uart_read (host_env script) space flags k h = None \<longleftrightarrow>
      flags AND O_NONBLOCK = 0 \<and> 0 < space \<and> rfifo h = [] \<and> (\<forall>j\<ge>k. \<forall>b. Send b \<notin> set (script j))) \<and>
    (\<forall>rc k' h'. small_uart_write (host_env script) data (int (length data)) flags k h = Some (rc, k', h') \<longrightarrow>
      rc = int (length data) \<and> shown h' @ wfifo h' = shown h @ wfifo h @ data \<and> typed h' = d @ rfifo h') \<and>
    (length data + length (wfifo h) \<le> FIFO_LEN \<or> (\<forall>n. \<exists>j\<ge>n. Take \<in> set (script j)) \<longrightarrow>
      small_uart_write (host_env script) data (int (length data)) flags k h \<noteq> None)"
proof (intro conjI allI impI)
  fix rc ptr k' h'
  assume "small_uart_read (host_env script) space flags k h = Some (rc, ptr, k', h')"
  then have l: "small_read_loop (host_env script) space flags [] k h = Some (ptr, k', h')"
    and rc: "rc = (if ptr \<noteq> [] then int (length ptr) else if flags AND O_NONBLOCK \<noteq> 0 then - EWOULDBLOCK else - EIO)"
    by (auto simp: small_uart_read_def bind_eq_Some_conv)
  from small_read_loop_spec [OF l len] have st: "juart_step ptr [] h h'" "int (length ptr) \<le> max 0 space"
    "min (nat space) (length (rfifo h)) \<le> length ptr"
    "int (length ptr) < space \<longrightarrow> rfifo h' = [] \<and> (ptr = [] \<longrightarrow> flags AND O_NONBLOCK \<noteq> 0)" by auto
  show "typed h' = d @ ptr @ rfifo h'" "shown h' @ wfifo h' = shown h @ wfifo h"
    using st(1) stream by (simp_all add: juart_step_def)
  show "min (nat space) (length (rfifo h)) \<le> length ptr" by (rule st(3))
  show "length ptr \<le> nat space" using st(2) by simp
  show "flags AND O_NONBLOCK \<noteq> 0" if "length ptr < nat space" "ptr = []" using st(4) that by auto
  show "rfifo h' = []" if "length ptr < nat space" using st(4) that by auto
  show "rc = (if ptr \<noteq> [] then int (length ptr) else if flags AND O_NONBLOCK \<noteq> 0 then - EWOULDBLOCK else - EIO)"
    by (rule rc)
next
  have "small_uart_read (host_env script) space flags k h = None \<longleftrightarrow> small_read_loop (host_env script) space flags [] k h = None"
    by (cases "small_read_loop (host_env script) space flags [] k h") (auto simp: small_uart_read_def)
  moreover have "small_read_loop (host_env script) space flags [] k h \<noteq> None" if "flags AND O_NONBLOCK \<noteq> 0 \<or> \<not> 0 < space"
    using that by (intro small_read_returns) auto
  ultimately show "small_uart_read (host_env script) space flags k h = None \<longleftrightarrow>
      flags AND O_NONBLOCK = 0 \<and> 0 < space \<and> rfifo h = [] \<and> (\<forall>j\<ge>k. \<forall>b. Send b \<notin> set (script j))"
    using small_read_blocks [OF len(1), of flags space script k]
    by (cases "flags AND O_NONBLOCK = 0 \<and> 0 < space") auto
next
  fix rc k' h'
  assume "small_uart_write (host_env script) data (int (length data)) flags k h = Some (rc, k', h')"
  then have l: "small_write_loop (host_env script) data k h = Some (k', h')" and rc: "rc = int (length data)"
    by (auto simp: small_uart_write_def bind_eq_Some_conv)
  from small_write_loop_spec [OF l len] have st: "juart_step [] data h h'" .
  show "rc = int (length data)" by (rule rc)
  show "shown h' @ wfifo h' = shown h @ wfifo h @ data" "typed h' = d @ rfifo h'"
    using st stream by (simp_all add: juart_step_def)
next
  assume "length data + length (wfifo h) \<le> FIFO_LEN \<or> (\<forall>n. \<exists>j\<ge>n. Take \<in> set (script j))"
  then have "small_write_loop (host_env script) data k h \<noteq> None"
    using small_write_fits [OF len(1)] small_write_returns [of script h data k] len by blast
  then show "small_uart_write (host_env script) data (int (length data)) flags k h \<noteq> None"
    by (auto simp: small_uart_write_def)
qed

theorem small_driver_streams_witness:
  "(\<exists>rc ptr k h. small_uart_read (host_env (\<lambda>k. if k = 3 then [Send 66] else [])) 1 0 0 juart_reset = Some (rc, ptr, k, h) \<and>
      rc = 1 \<and> typed h = ptr @ rfifo h) \<and>
   small_uart_read (host_env (\<lambda>k. [Poll])) 1 0 0 juart_reset = None"
proof -
  have b: "length (rfifo juart_reset) \<le> FIFO_LEN" "length (wfifo juart_reset) \<le> FIFO_LEN"
    "typed juart_reset = [] @ rfifo juart_reset" by (simp_all add: juart_reset_def)
  let ?sc = "\<lambda>k :: nat. if k = 3 then [Send 66] else []"
  have sends: "\<exists>j\<ge>0. \<exists>c. Send c \<in> set (?sc j)" by (intro exI [of _ 3]) auto
  note spec = small_driver_streams [OF b, of ?sc 1 0 0 "[]"]
  obtain x where "small_uart_read (host_env ?sc) 1 0 0 juart_reset = Some x"
    using spec [THEN conjunct2, THEN conjunct1] sends by (cases "small_uart_read (host_env ?sc) 1 0 0 juart_reset") auto
  moreover obtain rc ptr k h where "x = (rc, ptr, k, h)" by (cases x)
  ultimately have r: "small_uart_read (host_env ?sc) 1 0 0 juart_reset = Some (rc, ptr, k, h)" by simp
  note t = spec [THEN conjunct1, rule_format, OF r]
  have "ptr \<noteq> []" using t by auto
  then have "length ptr = 1" using t by (cases ptr) auto
  then have "rc = 1" "typed h = ptr @ rfifo h" using t \<open>ptr \<noteq> []\<close> by simp_all
  moreover have "small_uart_read (host_env (\<lambda>k. [Poll])) 1 0 0 juart_reset = None"
    using small_driver_streams [OF b, of "\<lambda>k. [Poll]" 1 0 0 "[]", THEN conjunct2, THEN conjunct1] by (simp add: juart_reset_def)
  ultimately show ?thesis using r by blast
qed

text \<open>
  C25. Standard output reaches the host. On any descriptor on the JTAG UART that is open for
  writing, a \<open>write\<close> that fits the transmit ring or may not block returns; the bytes it reports
  are in the stream to the host after everything written before, and if it could take none it
  returns -1 with \<open>errno\<close> set to \<open>EWOULDBLOCK\<close> or \<open>EIO\<close> by the descriptor's mode.
\<close>

theorem stdout_reaches_host:
  assumes f: "fd_at i s = Inr f" "fd_dev f = Some d" "alt_devs s d = jtag_uart_dev" "fd_flags f AND O_ACCMODE \<noteq> O_RDONLY"
    and ok: "uart_ok (jw_uart (world s))" "\<not> jw_hung (world s)"
    and now: "fd_flags f AND O_NONBLOCK \<noteq> 0 \<or> length data + length (tx_ring (jw_uart (world s))) < BUF_LEN"
  shows "\<exists>rc s' n. alt_write i data (int (length data)) s = Inr (rc, s') \<and> \<not> jw_hung (world s') \<and> n \<le> length data \<and>
    shown (hw (jw_uart (world s'))) @ tx_stream (jw_uart (world s')) =
      shown (hw (jw_uart (world s))) @ tx_stream (jw_uart (world s)) @ take n data \<and>
    (if n \<noteq> 0 then rc = int n
     else rc = - 1 \<and> alt_errno s' = (if fd_flags f AND O_NONBLOCK \<noteq> 0 then EWOULDBLOCK else EIO))"
proof -
  let ?w = "world s"
  obtain rc k u where w: "altera_avalon_jtag_uart_write (run_events (jw_script ?w)) data (fd_flags f) (jw_time ?w) (jw_uart ?w) = Some (rc, k, u)"
    using world.write_returns [OF ok(1) now] by fastforce
  from world.write_spec [OF w ok(1)] obtain n where
    n: "n \<le> length data" "uart_write_step (take n data) (jw_uart ?w) u"
      "rc = (if n \<noteq> 0 then int n else if fd_flags f AND O_NONBLOCK \<noteq> 0 then - EWOULDBLOCK else - EIO)" by blast
  have "\<not> i < 0" using f(1) by (auto simp: fd_at_def split: if_splits)
  then have "alt_write i data (int (length data)) s = (let t = fd_put i f (s\<lparr>world := ?w\<lparr>jw_uart := u, jw_time := k\<rparr>\<rparr>)
      in Inr (if rc < 0 then (- 1, t\<lparr>alt_errno := - rc\<rparr>) else (rc, t)))"
    using f w by (simp add: alt_write_def fd_device_def driven_def jtag_uart_dev_def altera_avalon_jtag_uart_write_fd_def Let_def)
  then show ?thesis
    using n ok(2) by (intro exI [of _ "if rc < 0 then - 1 else rc"] exI [of _ n]) (auto simp: uart_write_step_def Let_def fd_put_def)
qed

definition demo_jtag_hal :: "jtag_world hal" where
  "demo_jtag_hal = (hal_init (\<lambda>_. jtag_uart_dev)
      \<lparr>jw_uart = jtag_boot, jw_script = (\<lambda>k. [Interrupt (\<lambda>j. [Poll]), Host_Take]), jw_time = 0, jw_hung = False\<rparr>)
    \<lparr>alt_fd_list := replicate 32 \<lparr>fd_dev = Some 3, fd_priv = 0, fd_flags = 1\<rparr>\<rparr>"

theorem stdout_reaches_host_witness:
  "\<exists>rc s' n. alt_write 1 [72, 105] 2 demo_jtag_hal = Inr (rc, s') \<and>
     shown (hw (jw_uart (world s'))) @ tx_stream (jw_uart (world s')) = take n [72, 105]"
proof -
  have ok: "uart_ok jtag_boot" and e: "tx_ring jtag_boot = []" "tx_stream jtag_boot = []" "shown (hw jtag_boot) = []"
    by (simp_all add: jtag_boot_def jtag_uart_instance_def juart_reset_def uart_ok_def ring_ok_def tx_stream_def
        tx_ring_def ring_def ring_used_def)
  have f: "fd_at 1 demo_jtag_hal = Inr \<lparr>fd_dev = Some 3, fd_priv = 0, fd_flags = 1\<rparr>"
    by (simp add: fd_at_def demo_jtag_hal_def)
  have w: "world demo_jtag_hal = \<lparr>jw_uart = jtag_boot, jw_script = (\<lambda>k. [Interrupt (\<lambda>j. [Poll]), Host_Take]), jw_time = 0, jw_hung = False\<rparr>"
    and d: "alt_devs demo_jtag_hal 3 = jtag_uart_dev" by (simp_all add: demo_jtag_hal_def hal_init_def)
  show ?thesis using stdout_reaches_host [OF f, of 3 "[72, 105]"] ok e by (simp add: w d) blast
qed

end
