(* ===== verification/Boot.thy ===== *)
theory Boot
  imports Jtag_System
begin

text \<open>
  From reset to the end of the program: \<open>alt_main.c\<close>, \<open>alt_sys_init.c\<close>, \<open>alt_do_ctors.c\<close>,
  \<open>alt_do_dtors.c\<close>, \<open>alt_exit.c\<close> and \<open>sys/alt_sim.h\<close>. Start-up puts the interrupt controller, the
  JTAG UART, the device registry and the descriptor table together and establishes what the
  theorems about each of them ask for; at the end the processor stays in an endless loop.
\<close>

section \<open>The system\<close>

text \<open>The descriptors with their device, the interrupt tables, and the clock.\<close>

record system =
  sys_hal :: "jtag_world hal"
  sys_irq :: irq
  sys_clock :: "uart clock"

text \<open>
  Addresses the linker chooses: the device \<open>jtag_uart_0\<close>, its state and its alarm, and the
  driver's two functions that are passed as pointers.
\<close>

record linkage =
  l_dev :: nat
  l_state :: nat
  l_alarm :: nat
  l_isr :: nat
  l_timeout :: nat

definition with_hal :: "(jtag_world hal \<Rightarrow> (int \<times> jtag_world hal) c_res) \<Rightarrow> system \<Rightarrow> (int \<times> system) c_res" where
  "with_hal f s = res_bind (f (sys_hal s)) (\<lambda>(rc, t). Inr (rc, s\<lparr>sys_hal := t\<rparr>))"

section \<open>Start-up\<close>

text \<open>
  \<open>alt_sys_init\<close>: the UART's initialiser on interrupt 5 of controller 0, then its entry in the
  list of devices. (The system identifier has no initialisation.)
\<close>

definition alt_sys_init :: "linkage \<Rightarrow> system \<Rightarrow> system c_res" where
  "alt_sys_init lk s =
     res_bind (altera_avalon_jtag_uart_init (l_isr lk) (l_timeout lk) (l_state lk) (l_alarm lk) 0 5
         (jw_uart (world (sys_hal s))) (sys_irq s) (sys_clock s)) (\<lambda>(u, i, c).
       let h = (sys_hal s)\<lparr>world := (world (sys_hal s))\<lparr>jw_uart := u\<rparr>\<rparr>;
           (rc, h) = alt_dev_reg (Some (l_dev lk)) h
       in Inr \<lparr>sys_hal = h, sys_irq = i, sys_clock = c\<rparr>)"

text \<open>The part of \<open>alt_main\<close> up to the constructors; \<open>ALT_STDOUT\<close> and its like are the UART.\<close>

definition alt_main_init :: "linkage \<Rightarrow> system \<Rightarrow> system c_res" where
  "alt_main_init lk s =
     (let s = s\<lparr>sys_irq := (sys_irq s)\<lparr>irq_cpu := alt_irq_init (irq_cpu (sys_irq s))\<rparr>\<rparr>
      in res_bind (alt_sys_init lk s) (\<lambda>s.
         res_bind (alt_io_redirect ''/dev/jtag_uart_0'' ''/dev/jtag_uart_0'' ''/dev/jtag_uart_0'' (sys_hal s)) (\<lambda>h.
         Inr (s\<lparr>sys_hal := h\<rparr>))))"

text \<open>
  The loops over the tables of constructors and destructors start at the last entry. The
  functions in the tables are the compiler's and the application's.
\<close>

primrec table_loop :: "('s \<Rightarrow> 's) list \<Rightarrow> nat \<Rightarrow> 's \<Rightarrow> 's" where
  "table_loop tab 0 s = s"
| "table_loop tab (Suc n) s = table_loop tab n ((tab ! n) s)"

definition do_ctors :: "('s \<Rightarrow> 's) list \<Rightarrow> 's \<Rightarrow> 's" where
  "do_ctors CTOR_LIST s = table_loop CTOR_LIST (length CTOR_LIST) s"

definition do_dtors :: "('s \<Rightarrow> 's) list \<Rightarrow> 's \<Rightarrow> 's" where
  "do_dtors DTOR_LIST s = table_loop DTOR_LIST (length DTOR_LIST) s"

lemma table_loop_rev: "n \<le> length tab \<Longrightarrow> table_loop tab n s = fold (\<lambda>f. f) (rev (take n tab)) s"
  by (induction n arbitrary: s) (simp_all add: take_Suc_conv_app_nth)

lemma ctors_last_first: "do_ctors tab s = fold (\<lambda>f. f) (rev tab) s" "do_dtors tab s = fold (\<lambda>f. f) (rev tab) s"
  by (simp_all add: do_ctors_def do_dtors_def table_loop_rev)

section \<open>The end of the program\<close>

text \<open>
  \<open>ALT_EXIT\<close> tells a simulator whether the program passed and then spins for ever, so what it
  yields is the state in which it spins.
\<close>

record halted =
  exit_code :: int
  sim_pass :: bool
  halt_system :: system

definition alt_sim_halt :: "int \<Rightarrow> bool" where
  "alt_sim_halt r2 = (if r2 \<noteq> 0 then False else True)"

definition ALT_EXIT :: "int \<Rightarrow> system \<Rightarrow> halted" where
  "ALT_EXIT code s = \<lparr>exit_code = code, sim_pass = alt_sim_halt code, halt_system = s\<rparr>"

text \<open>
  The C library's \<open>exit\<close> calls what was registered with \<open>atexit\<close>, latest first, writes out the
  buffers of its streams (\<open>flush\<close>) and calls \<open>_exit\<close>.
\<close>

definition c_exit :: "(system \<Rightarrow> system) list \<Rightarrow> (system \<Rightarrow> system) \<Rightarrow> int \<Rightarrow> system \<Rightarrow> halted" where
  "c_exit at_exit flush result s = ALT_EXIT result (flush (fold (\<lambda>f. f) (rev at_exit) s))"

text \<open>
  \<open>alt_main\<close> never returns. Its value is the state in which the processor spins at the end;
  \<open>None\<close>: the application, or the closing of its standard output, does not come back.
\<close>

definition alt_main ::
    "linkage \<Rightarrow> (system \<Rightarrow> system) list \<Rightarrow> (system \<Rightarrow> system) list \<Rightarrow> (system \<Rightarrow> system) \<Rightarrow>
     (system \<Rightarrow> (int \<times> system) c_res option) \<Rightarrow> system \<Rightarrow> halted c_res option" where
  "alt_main lk ctors dtors flush main s =
     (case alt_main_init lk s of
        Inl e \<Rightarrow> Some (Inl e)
      | Inr s \<Rightarrow>
         (case main (do_ctors ctors s) of
            None \<Rightarrow> None
          | Some (Inl e) \<Rightarrow> Some (Inl e)
          | Some (Inr (result, s)) \<Rightarrow>
             (case with_hal (alt_close 1) s of
                Inl e \<Rightarrow> Some (Inl e)
              | Inr (rc, s) \<Rightarrow>
                  if jw_hung (world (sys_hal s)) then None
                  else Some (Inr (c_exit [do_dtors dtors] flush result s)))))"

text \<open>The endless loop: \<open>n\<close> more points at which interrupts are taken and the host acts.\<close>

primrec spin :: "(nat \<Rightarrow> uart_ev list) \<Rightarrow> nat \<Rightarrow> nat \<Rightarrow> uart \<Rightarrow> uart" where
  "spin script k 0 s = s"
| "spin script k (Suc n) s = run_events script (k + n) (spin script k n s)"

definition spinning :: "nat \<Rightarrow> halted \<Rightarrow> uart" where
  "spinning n h = (let w = world (sys_hal (halt_system h)) in spin (jw_script w) (jw_time w) n (jw_uart w))"

section \<open>The state after start-up\<close>

text \<open>The system at reset: static data as initialised, the device in its reset state.\<close>

definition sys_reset :: "(nat \<Rightarrow> jtag_world alt_dev) \<Rightarrow> (nat \<Rightarrow> uart_ev list) \<Rightarrow> nat \<Rightarrow> irq \<Rightarrow> uart clock \<Rightarrow> system" where
  "sys_reset ds script k i c = \<lparr>sys_hal = hal_init ds \<lparr>jw_uart = jtag_boot, jw_script = script, jw_time = k, jw_hung = False\<rparr>,
     sys_irq = i, sys_clock = c\<rparr>"

lemma initial_table: "alt_fd_list s = alt_fd_list_init \<Longrightarrow> lowest_free s = Some 3"
  "alt_fd_list s = alt_fd_list_init \<Longrightarrow> \<not> locked d s"
  "alt_fd_list s = alt_fd_list_init \<Longrightarrow> in_use j s \<Longrightarrow> j < ALT_MAX_FD \<Longrightarrow> j < 3"
proof -
  have "\<forall>f\<in>set alt_fd_list_init. fd_flags f = 0" "length alt_fd_list_init = 32"
    by (simp_all add: alt_fd_list_init_def)
  then have "i < 32 \<Longrightarrow> fd_flags (alt_fd_list_init ! i) = 0" for i by (metis nth_mem)
  then show "alt_fd_list s = alt_fd_list_init \<Longrightarrow> \<not> locked d s" by (auto simp: locked_def)
  show "alt_fd_list s = alt_fd_list_init \<Longrightarrow> lowest_free s = Some 3"
    by (auto simp: lowest_free_Some alt_fd_list_init_def less_Suc_eq numeral_nat)
  show "alt_fd_list s = alt_fd_list_init \<Longrightarrow> in_use j s \<Longrightarrow> j < 32 \<Longrightarrow> j < 3"
    by (auto simp: alt_fd_list_init_def nth_append nth_Cons' split: if_splits)
qed

lemma sys_init_spec:
  assumes ds: "ds (l_dev lk) = jtag_uart_dev" "alt_dev_null < l_dev lk" and i: "length (alt_irq i) = ALT_NIRQ"
  shows "\<exists>u c' h. alt_sys_init lk (sys_reset ds script k i c) =
      Inr \<lparr>sys_hal = h, sys_irq = registered 5 (Some (l_isr lk)) (l_state lk) i, sys_clock = c'\<rparr> \<and>
    c' = snd (alt_alarm_start (Some (l_alarm lk)) (alt_tick_rate c) (l_timeout lk) (l_state lk) c) \<and>
    registered_as h [l_dev lk, alt_dev_null] [] \<and> alt_devs h = ds(alt_dev_null := alt_dev_null_dev) \<and>
    alt_fd_list h = alt_fd_list_init \<and> alt_max_fd h = - 1 \<and>
    world h = \<lparr>jw_uart = u, jw_script = script, jw_time = k, jw_hung = False\<rparr> \<and>
    uart_run u [] [] \<and> hw u = wr_control RE_MSK juart_reset \<and>
    timeout (sp u) = (if alt_tick_rate c = 0 then UINT_INT_MAX else 10)"
proof -
  have n: "unat (5 :: alt_u32) < ALT_NIRQ" by simp
  from init_spec [OF i this, of "l_isr lk" "l_timeout lk" "l_state lk" "l_alarm lk" 0 c] obtain u where
    u: "altera_avalon_jtag_uart_init (l_isr lk) (l_timeout lk) (l_state lk) (l_alarm lk) 0 5 jtag_boot i c =
      Inr (u, registered 5 (Some (l_isr lk)) (l_state lk) i,
        snd (alt_alarm_start (Some (l_alarm lk)) (alt_tick_rate c) (l_timeout lk) (l_state lk) c))"
      "hw u = wr_control RE_MSK juart_reset" "timeout (sp u) = (if alt_tick_rate c = 0 then UINT_INT_MAX else 10)"
    by auto
  have run: "uart_run u [] []" by (rule uart_run.init [OF i n u(1)])
  let ?w = "\<lparr>jw_uart = u, jw_script = script, jw_time = k, jw_hung = False\<rparr>"
  have "hal_init ds w\<lparr>world := ?w\<rparr> = hal_init ds ?w" for w by (simp add: hal_init_def)
  moreover from alt_dev_reg_ok [OF hal_init_registered [of ds ?w], of "l_dev lk" "''/dev/jtag_uart_0''"] ds
  obtain h where h: "alt_dev_reg (Some (l_dev lk)) (hal_init ds ?w) = (0, h)"
    "registered_as h [l_dev lk, alt_dev_null] []" "alt_devs h = ds(alt_dev_null := alt_dev_null_dev)"
    "alt_fd_list h = alt_fd_list_init"
    by (auto simp: hal_init_def jtag_uart_dev_def c_string_def)
  moreover from h(1) have "alt_max_fd h = - 1" "world h = ?w"
    by (auto simp: alt_dev_reg_def alt_dev_llist_insert_def hal_init_def split: if_splits)
  ultimately show ?thesis using u run by (simp add: alt_sys_init_def sys_reset_def hal_init_def)
qed

section \<open>Properties\<close>

lemma null_driver_ok: "driver_ok (alt_dev_null_dev :: jtag_world alt_dev)"
  by (simp add: driver_ok_def alt_dev_null_dev_def alt_dev_null_write_def keeps_def)

lemma cpu_after_init: "alt_irq_init c = c\<lparr>cpu_status := 1, cpu_ienable := 0\<rparr>"
  by (simp add: alt_irq_init_def alt_irq_cpu_enable_interrupts_def altera_nios2_qsys_irq_init_def)

lemma main_init_spec:
  assumes ds: "ds (l_dev lk) = jtag_uart_dev" "alt_dev_null < l_dev lk" and i: "length (alt_irq i) = ALT_NIRQ"
  shows "\<exists>t u c'. alt_main_init lk (sys_reset ds script k i c) =
      Inr \<lparr>sys_hal = t, sys_irq = registered 5 (Some (l_isr lk)) (l_state lk) (i\<lparr>irq_cpu := alt_irq_init (irq_cpu i)\<rparr>),
        sys_clock = c'\<rparr> \<and>
    fds_ok t \<and> registered_as t [l_dev lk, alt_dev_null] [] \<and> alt_devs t = ds(alt_dev_null := alt_dev_null_dev) \<and>
    map fd_dev (take 3 (alt_fd_list t)) = [Some (l_dev lk), Some (l_dev lk), Some (l_dev lk)] \<and>
    map fd_flags (take 3 (alt_fd_list t)) = [ALT_FD_DEV, O_WRONLY OR ALT_FD_DEV, O_WRONLY OR ALT_FD_DEV] \<and>
    (\<forall>n. 2 < n \<and> n < ALT_MAX_FD \<longrightarrow> \<not> in_use n t) \<and>
    world t = \<lparr>jw_uart = u, jw_script = script, jw_time = k, jw_hung = False\<rparr> \<and>
    uart_run u [] [] \<and> hw u = wr_control RE_MSK juart_reset \<and>
    timeout (sp u) = (if alt_tick_rate c = 0 then UINT_INT_MAX else 10)"
proof -
  define i' where "i' = i\<lparr>irq_cpu := alt_irq_init (irq_cpu i)\<rparr>"
  have len: "length (alt_irq i') = ALT_NIRQ" using i by (simp add: i'_def)
  obtain u c' h where
    b: "alt_sys_init lk (sys_reset ds script k i' c) =
      Inr \<lparr>sys_hal = h, sys_irq = registered 5 (Some (l_isr lk)) (l_state lk) i', sys_clock = c'\<rparr>"
    and h: "registered_as h [l_dev lk, alt_dev_null] []" "alt_devs h = ds(alt_dev_null := alt_dev_null_dev)"
      "alt_fd_list h = alt_fd_list_init" "alt_max_fd h = - 1"
      "world h = \<lparr>jw_uart = u, jw_script = script, jw_time = k, jw_hung = False\<rparr>"
    and u: "uart_run u [] []" "hw u = wr_control RE_MSK juart_reset"
      "timeout (sp u) = (if alt_tick_rate c = 0 then UINT_INT_MAX else 10)"
    using sys_init_spec [where ds = ds and lk = lk, OF ds(1,2) len, of script k c] by blast
  have ok: "fds_ok h" using hal_init_fds [of ds undefined] h(3,4) by (simp add: fds_ok_def hal_init_def)
  have look: "lookup h [l_dev lk, alt_dev_null] [] ''/dev/jtag_uart_0'' = Inr (Some (l_dev lk), False)"
    and op: "dev_open (alt_devs h (l_dev lk)) = None" and cs: "c_string ''/dev/jtag_uart_0''"
    using ds(1,2) by (simp_all add: lookup_def h(2) jtag_uart_dev_def c_string_def)
  note dev = cs look op initial_table(2) [OF h(3)]
  from io_redirect_spec [OF ok h(1) initial_table(1) [OF h(3)] dev dev dev] obtain t where
    t: "alt_io_redirect ''/dev/jtag_uart_0'' ''/dev/jtag_uart_0'' ''/dev/jtag_uart_0'' h = Inr t" "fds_ok t"
      "map fd_dev (take 3 (alt_fd_list t)) = [Some (l_dev lk), Some (l_dev lk), Some (l_dev lk)]"
      "map fd_flags (take 3 (alt_fd_list t)) = [ALT_FD_DEV, O_WRONLY OR ALT_FD_DEV, O_WRONLY OR ALT_FD_DEV]"
      "lowest_free t = Some 3" "alt_devs t = alt_devs h" "alt_links t = alt_links h" "world t = world h"
      "\<forall>n<32. 2 < n \<longrightarrow> n \<noteq> 3 \<longrightarrow> alt_fd_list t ! n = alt_fd_list h ! n"
    by (elim exE conjE) (rule that)
  have run: "alt_main_init lk (sys_reset ds script k i c) =
      Inr \<lparr>sys_hal = t, sys_irq = registered 5 (Some (l_isr lk)) (l_state lk) i', sys_clock = c'\<rparr>"
    using b t(1) by (simp add: alt_main_init_def sys_reset_def i'_def)
  have free: "\<not> in_use n t" if n: "2 < n" "n < 32" for n
  proof (cases "n = 3")
    case True
    then show ?thesis using t(5) by (simp add: lowest_free_Some)
  next
    case False
    then have "in_use n h \<longleftrightarrow> in_use n t" using t(9) n by simp
    then show ?thesis using initial_table(3) [OF h(3), of n] n by auto
  qed
  have reg: "registered_as t [l_dev lk, alt_dev_null] []" using h(1) by (simp add: registered_as_def t(6,7))
  show ?thesis
    using run t(2-4,6,8) reg free u h(2,5) unfolding i'_def
    by (intro exI [of _ t] exI [of _ u] exI [of _ c']) simp
qed

text \<open>
  C24. Start-up. From reset \<open>alt_main\<close> reaches the constructors in a state that has every
  invariant the rest relies on: the descriptor table is sound, with the three standard streams,
  and nothing else, on the JTAG UART in their access modes; the UART stands before the null
  device in the list of devices, and all drivers keep their contract; the UART's run starts with
  nothing sent or received, its receive interrupt on, and a time-out that is finite exactly when
  there is a system clock; line 5 is enabled with its handler and the processor takes interrupts.
\<close>

theorem boot_ready:
  assumes ds: "ds (l_dev lk) = jtag_uart_dev" "alt_dev_null < l_dev lk" "\<And>d. driver_ok (ds d)" and i: "irq_boot i"
  shows "\<exists>s. alt_main_init lk (sys_reset ds script k i c) = Inr s \<and>
    fds_ok (sys_hal s) \<and> drivers_ok (sys_hal s) \<and> registered_as (sys_hal s) [l_dev lk, alt_dev_null] [] \<and>
    map fd_dev (take 3 (alt_fd_list (sys_hal s))) = replicate 3 (Some (l_dev lk)) \<and>
    map fd_flags (take 3 (alt_fd_list (sys_hal s))) = [ALT_FD_DEV, O_WRONLY OR ALT_FD_DEV, O_WRONLY OR ALT_FD_DEV] \<and>
    (\<forall>n. 2 < n \<and> n < ALT_MAX_FD \<longrightarrow> \<not> in_use n (sys_hal s)) \<and>
    (let w = world (sys_hal s); u = jw_uart w
     in \<not> jw_hung w \<and> jw_script w = script \<and> uart_run u [] [] \<and> ien_AF (hw u) \<and>
        timeout (sp u) = (if alt_tick_rate c = 0 then UINT_INT_MAX else 10)) \<and>
    irq_reach (sys_irq s) \<and> irq_ok (sys_irq s) \<and> alt_irq (sys_irq s) ! 5 = \<lparr>handler = Some (l_isr lk), context_arg = l_state lk\<rparr> \<and>
    irq_cpu (sys_irq s) = \<lparr>cpu_status = 1, cpu_ienable = push_bit 5 1\<rparr>"
proof -
  let ?i = "registered 5 (Some (l_isr lk)) (l_state lk) (i\<lparr>irq_cpu := alt_irq_init (irq_cpu i)\<rparr>)"
  have len: "length (alt_irq i) = ALT_NIRQ" using i by (simp add: irq_boot_def)
  obtain t u c' where
    run: "alt_main_init lk (sys_reset ds script k i c) = Inr \<lparr>sys_hal = t, sys_irq = ?i, sys_clock = c'\<rparr>"
    and t: "fds_ok t" "registered_as t [l_dev lk, alt_dev_null] []" "alt_devs t = ds(alt_dev_null := alt_dev_null_dev)"
      "map fd_dev (take 3 (alt_fd_list t)) = [Some (l_dev lk), Some (l_dev lk), Some (l_dev lk)]"
      "map fd_flags (take 3 (alt_fd_list t)) = [ALT_FD_DEV, O_WRONLY OR ALT_FD_DEV, O_WRONLY OR ALT_FD_DEV]"
      "\<forall>n. 2 < n \<and> n < ALT_MAX_FD \<longrightarrow> \<not> in_use n t"
      "world t = \<lparr>jw_uart = u, jw_script = script, jw_time = k, jw_hung = False\<rparr>"
    and u: "uart_run u [] []" "hw u = wr_control RE_MSK juart_reset"
      "timeout (sp u) = (if alt_tick_rate c = 0 then UINT_INT_MAX else 10)"
    using main_init_spec [where ds = ds and lk = lk, OF ds(1,2) len, of script k c] by (elim exE conjE) (rule that)
  have drv: "drivers_ok t" using ds(3) null_driver_ok by (simp add: drivers_ok_def t(3))
  have "irq_run [Register_IC 0 5 (Some (l_isr lk)) (l_state lk)] (i\<lparr>irq_cpu := alt_irq_init (irq_cpu i)\<rparr>) = Inr ?i"
    using enhanced_register [of "i\<lparr>irq_cpu := alt_irq_init (irq_cpu i)\<rparr>" 0 5] len by simp
  then have irq: "irq_reach ?i" "irq_ok ?i"
    using i irq_boot_ok [of "i\<lparr>irq_cpu := alt_irq_init (irq_cpu i)\<rparr>"]
    unfolding irq_reach_def by (blast, intro registered_ok) (simp_all add: irq_boot_def alt_irq_init_def alt_irq_cpu_enable_interrupts_def altera_nios2_qsys_irq_init_def)
  show ?thesis
    using run t drv irq u i
    by (intro exI [of _ "\<lparr>sys_hal = t, sys_irq = ?i, sys_clock = c'\<rparr>"])
      (simp add: numeral_3_eq_3 registered_def Let_def irq_boot_def cpu_after_init del: push_bit_of_1)
qed

definition demo_linkage :: linkage where
  "demo_linkage = \<lparr>l_dev = 3, l_state = 4, l_alarm = 5, l_isr = 6, l_timeout = 7\<rparr>"

definition demo_reset :: system where
  "demo_reset = sys_reset (\<lambda>_. jtag_uart_dev) (\<lambda>k. [Interrupt (\<lambda>j. [Poll]), Host_Take]) 0 demo_irq demo_uart_clock"

lemma demo_irq_boot: "irq_boot demo_irq"
  by (simp add: irq_boot_def demo_irq_def)

theorem boot_ready_witness:
  "\<exists>s. alt_main_init demo_linkage demo_reset = Inr s \<and> fds_ok (sys_hal s) \<and>
     map fd_dev (take 3 (alt_fd_list (sys_hal s))) = [Some 3, Some 3, Some 3] \<and> irq_reach (sys_irq s)"
  using boot_ready [where ds = "\<lambda>_. jtag_uart_dev" and lk = demo_linkage, OF _ _ jtag_driver_ok demo_irq_boot]
  by (fastforce simp: demo_linkage_def demo_reset_def numeral_3_eq_3)

end
