(* ===== verification/Program.thy ===== *)
theory Program
  imports Boot
begin

text \<open>
  The whole life of a program: the application's system calls among the events at the UART,
  between start-up and the endless loop of \<open>_exit\<close>, and what of its output reaches the host.
\<close>

section \<open>Interrupts and the host drain the output\<close>

lemma spin_add: "spin script k (n + m) s = spin script (k + n) m (spin script k n s)"
  by (induction m) (simp_all add: add.assoc)

lemma spin_front: "spin script k (Suc n) s = spin script (Suc k) n (run_events script k s)"
  using spin_add [of script k 1 n s] by simp

text \<open>
  The work left until the host has everything: two units per byte, and one more while the
  bytes wait in the ring for the interrupt.
\<close>

definition backlog :: "uart \<Rightarrow> nat" where
  "backlog s = 2 * length (tx_stream s) + of_bool (wfifo (hw s) = [] \<and> tx_ring s \<noteq> [])"

text \<open>The events that bring the work down: an interrupt, whatever the host does meanwhile, or the host's taking a byte.\<close>

definition helpful :: "uart \<Rightarrow> uart_ev \<Rightarrow> bool" where
  "helpful s e \<longleftrightarrow> (if odd (backlog s) then \<exists>host. e = Interrupt host else e = Host_Take)"

lemma backlog_odd: "odd (backlog s) \<longleftrightarrow> wfifo (hw s) = [] \<and> tx_ring s \<noteq> []"
  by (simp add: backlog_def)

lemma backlog_0: "backlog s = 0 \<longleftrightarrow> tx_stream s = []"
  by (auto simp: backlog_def tx_stream_def)

text \<open>Only the host takes bytes away; everything else at most moves some from the ring to the FIFO.\<close>

lemma env_backlog:
  assumes st: "uart_env_step s t"
  shows "backlog t \<le> backlog s"
proof -
  obtain g where g: "shown (hw t) = shown (hw s) @ g" using st by (auto simp: uart_env_step_def)
  obtain d where d: "tx_ring s = d @ tx_ring t" using st by (auto simp: uart_env_step_def)
  have "shown (hw t) @ tx_stream t = shown (hw s) @ tx_stream s" using st by (simp add: uart_env_step_def)
  then have ts: "tx_stream s = g @ tx_stream t" using g by simp
  show ?thesis
  proof (cases "g = []")
    case True
    then have "wfifo (hw t) = wfifo (hw s) @ d" using ts d by (simp add: tx_stream_def)
    then show ?thesis using ts True d by (auto simp: backlog_def)
  next
    case False
    then have "length (tx_stream t) < length (tx_stream s)" using ts by simp
    then show ?thesis by (simp add: backlog_def)
  qed
qed

lemma take_backlog: "backlog (uart_event Host_Take s) + of_bool (wfifo (hw s) \<noteq> []) \<le> backlog s"
  by (cases "wfifo (hw s)") (simp_all add: backlog_def tx_stream_def host_take_def tx_ring_def)

lemma interrupt_backlog:
  assumes ok: "uart_ok s" and live: "tx_live s" and w: "wfifo (hw s) = []" "tx_ring s \<noteq> []"
  shows "backlog (uart_event (Interrupt host) s) < backlog s"
proof -
  let ?t = "isr host s"
  have st: "uart_env_step s ?t" "\<not> av_irq (hw ?t)" using isr_step [OF ok] by blast+
  then have "tx_live ?t" "uart_ok ?t" using live by (simp_all add: uart_env_step_def)
  then have "tx_ring ?t = [] \<or> wfifo (hw ?t) \<noteq> []"
    using st(2) by (auto simp: tx_live_def av_irq_def ipen_AE_def uart_ok_def tx_ring_def ring_def ring_used_def)
  then have "even (backlog ?t)" using backlog_odd [of ?t] by auto
  moreover have "odd (backlog s)" using w by (simp add: backlog_odd)
  moreover have "backlog ?t \<le> backlog s" by (rule env_backlog [OF st(1)])
  ultimately show ?thesis by (metis le_neq_implies_less uart_event.simps(3))
qed

lemma event_backlog: "uart_ok s \<Longrightarrow> backlog (uart_event e s) \<le> backlog s"
  by (rule env_backlog [OF event_step])

lemma helpful_works:
  assumes "uart_ok s" "tx_live s" "0 < backlog s" "helpful s e"
  shows "backlog (uart_event e s) < backlog s"
proof (cases "odd (backlog s)")
  case True
  then obtain host where "e = Interrupt host" "wfifo (hw s) = []" "tx_ring s \<noteq> []"
    using assms(4) by (auto simp: helpful_def backlog_odd)
  with interrupt_backlog [OF assms(1,2)] show ?thesis by metis
next
  case False
  moreover from this assms(3) have "wfifo (hw s) \<noteq> []" by (auto simp: backlog_def tx_stream_def split: if_splits)
  ultimately show ?thesis using take_backlog [of s] assms(4) by (simp add: helpful_def del: uart_event.simps)
qed

lemma event_keeps: "uart_ok s \<Longrightarrow> uart_ok (uart_event e s) \<and> (tx_live s \<longrightarrow> tx_live (uart_event e s))"
  using event_step by (auto simp: uart_env_step_def)

lemma events_keep: "uart_ok s \<Longrightarrow> uart_ok (fold uart_event es s) \<and> (tx_live s \<longrightarrow> tx_live (fold uart_event es s))"
  using fold_events by (auto simp: uart_env_step_def)

lemma events_backlog: "uart_ok s \<Longrightarrow> backlog (fold uart_event es s) \<le> backlog s"
proof (induction es arbitrary: s)
  case (Cons e es)
  then show ?case using event_backlog [OF Cons.prems, of e] event_keeps [OF Cons.prems, of e] by fastforce
qed simp

lemma events_work:
  assumes ok: "uart_ok s" "tx_live s" "0 < backlog s" and e: "e \<in> set es" "helpful s e"
  shows "backlog (fold uart_event es s) < backlog s"
proof -
  from e(1) obtain xs ys where es: "es = xs @ e # ys" by (auto simp: in_set_conv_decomp)
  define t where "t = fold uart_event xs s"
  define u where "u = uart_event e t"
  have t: "uart_ok t" "tx_live t" "backlog t \<le> backlog s"
    using events_keep [OF ok(1), of xs] events_backlog [OF ok(1), of xs] ok(2) by (simp_all add: t_def)
  have u: "backlog u < backlog s"
  proof (cases "backlog t = backlog s")
    case True
    then have "helpful t e" using e(2) by (simp add: helpful_def)
    then show ?thesis using helpful_works [OF t(1,2)] True ok(3) by (simp add: u_def)
  next
    case False
    then show ?thesis using t event_backlog [OF t(1), of e] by (simp add: u_def)
  qed
  have "uart_ok u" using event_keeps [OF t(1)] by (simp add: u_def)
  moreover have "fold uart_event es s = fold uart_event ys u" by (simp add: es u_def t_def)
  ultimately show ?thesis using events_backlog [of u ys] u by simp
qed

text \<open>
  A world in which interrupts are taken and the host collects again and again, at whatever
  points and among whatever else.
\<close>

definition served :: "(nat \<Rightarrow> uart_ev list) \<Rightarrow> bool" where
  "served script \<longleftrightarrow> (\<forall>k. \<exists>j\<ge>k. \<exists>host. Interrupt host \<in> set (script j)) \<and> (\<forall>k. \<exists>j\<ge>k. Host_Take \<in> set (script j))"

lemma spin_keeps: "uart_ok s \<Longrightarrow> uart_ok (spin script k n s) \<and> (tx_live s \<longrightarrow> tx_live (spin script k n s))"
  by (induction n) (auto simp: run_events_def events_keep)

lemma spin_backlog: "uart_ok s \<Longrightarrow> backlog (spin script k n s) \<le> backlog s"
proof (induction n)
  case (Suc n)
  then show ?case using events_backlog [of "spin script k n s" "script (k + n)"] spin_keeps [of s script k n]
    by (simp add: run_events_def)
qed simp

lemma spin_works:
  assumes ok: "uart_ok s" "tx_live s" "0 < backlog s" and script: "served script"
  shows "\<exists>n. backlog (spin script k n s) < backlog s"
proof -
  obtain j e where j: "k \<le> j" "e \<in> set (script j)" "helpful s e"
    using script unfolding served_def helpful_def by (cases "odd (backlog s)") (simp_all, blast+)
  define t where "t = spin script k (j - k) s"
  have t: "uart_ok t" "tx_live t" "backlog t \<le> backlog s"
    using spin_keeps [OF ok(1)] spin_backlog [OF ok(1)] ok(2) by (simp_all add: t_def)
  show ?thesis
  proof (cases "backlog t = backlog s")
    case True
    then have "helpful t e" using j(3) by (simp add: helpful_def)
    with True ok(3) events_work [OF t(1,2) _ j(2)] have "backlog (run_events script j t) < backlog s"
      by (simp add: run_events_def)
    then show ?thesis using j(1) by (intro exI [of _ "Suc (j - k)"]) (simp add: t_def)
  next
    case False
    then show ?thesis using t(3) by (intro exI [of _ "j - k"]) (simp add: t_def)
  qed
qed

lemma spin_drains:
  assumes "uart_ok s" "tx_live s" and script: "served script"
  shows "\<exists>n. backlog (spin script k n s) = 0"
  using assms(1,2)
proof (induction "backlog s" arbitrary: k s rule: less_induct)
  case less
  show ?case
  proof (cases "backlog s = 0")
    case True
    then show ?thesis by (intro exI [of _ 0]) simp
  next
    case False
    with spin_works [OF less.prems _ script, of k] obtain n where n: "backlog (spin script k n s) < backlog s" by auto
    from less.hyps [OF n, of "k + n"] spin_keeps [OF less.prems(1)] less.prems(2)
    obtain m where "backlog (spin script (k + n) m (spin script k n s)) = 0" by blast
    then show ?thesis by (metis spin_add)
  qed
qed

lemma spin_stays_drained:
  assumes "uart_ok s" "backlog (spin script k n s) = 0" "n \<le> m"
  shows "backlog (spin script k m s) = 0"
proof -
  obtain l where m: "m = n + l" using assms(3) le_Suc_ex by blast
  have "uart_ok (spin script k n s)" using spin_keeps [OF assms(1)] by blast
  then show ?thesis using spin_backlog [of "spin script k n s" script "k + n" l] assms(2) by (simp add: m spin_add)
qed

lemma spin_run: "uart_run s d w \<Longrightarrow> uart_run (spin script k n s) d w"
proof (induction n)
  case (Suc n)
  have "uart_run (fold uart_event es t) d w" if "uart_run t d w" for es t
    using that by (induction es arbitrary: t) (simp_all add: uart_run.event)
  with Suc show ?case by (simp add: run_events_def)
qed simp

lemma run_drained: "uart_run s d w \<Longrightarrow> backlog s = 0 \<Longrightarrow> shown (hw s) = w \<and> tx_ring s = [] \<and> wfifo (hw s) = []"
  using uart_run_inv by (fastforce simp: uart_inv_def backlog_0 tx_stream_def)

text \<open>Closing waits for the ring only, so in such a world it comes back.\<close>

lemma close_returns:
  "uart_ok s \<Longrightarrow> backlog (spin script k n s) = 0 \<Longrightarrow> altera_avalon_jtag_uart_close (run_events script) flags k s \<noteq> None"
proof (induction n arbitrary: k s)
  case (Suc n)
  let ?t = "run_events script k s"
  have "uart_ok ?t" using events_keep [OF Suc.prems(1)] by (simp add: run_events_def)
  then have "altera_avalon_jtag_uart_close (run_events script) flags (k + 1) ?t \<noteq> None"
    using Suc.prems(2) unfolding spin_front by (intro Suc.IH) simp_all
  then show ?case
    by (simp add: altera_avalon_jtag_uart_close.simps [of _ _ k] Let_def)
next
  case 0
  let ?t = "run_events script k s"
  have t: "uart_ok ?t" "backlog ?t = 0"
    using events_keep [OF 0(1)] events_backlog [OF 0(1), of "script k"] 0(2) by (simp_all add: run_events_def)
  then have "tx_out (sp ?t) = tx_in (sp ?t)"
    using ring_empty_iff [OF rings_ok(2) [OF t(1)]] by (auto simp: backlog_0 tx_stream_def tx_ring_def)
  then show ?case by (simp add: altera_avalon_jtag_uart_close.simps [of _ _ k] Let_def)
qed

section \<open>The application between start-up and exit\<close>

text \<open>
  A state of the descriptors in which the standard streams, and only the UART and the null
  device, are in use.
\<close>

definition attached :: "nat \<Rightarrow> jtag_world hal \<Rightarrow> bool" where
  "attached dev s \<longleftrightarrow> length (alt_fd_list s) = ALT_MAX_FD \<and>
     (\<forall>i<ALT_MAX_FD. fd_dev (alt_fd_list s ! i) \<in> {None, Some dev, Some alt_dev_null}) \<and>
     (\<forall>i<3. fd_dev (alt_fd_list s ! i) = Some dev) \<and>
     alt_devs s dev = jtag_uart_dev \<and> alt_devs s alt_dev_null = alt_dev_null_dev"

text \<open>What a call does to the UART: one more stretch of its run, in which it
  delivers \<open>ins\<close> and accepts \<open>out\<close>.\<close>

definition uart_takes :: "alt_u8 list \<Rightarrow> alt_u8 list \<Rightarrow> jtag_world \<Rightarrow> jtag_world \<Rightarrow> bool" where
  "uart_takes ins out w w' \<longleftrightarrow> jw_script w' = jw_script w \<and> (jw_hung w \<longrightarrow> jw_hung w') \<and>
     (\<forall>del acc. uart_run (jw_uart w) del acc \<longrightarrow> \<not> jw_hung w' \<longrightarrow> uart_run (jw_uart w') (del @ ins) (acc @ out))"

definition app_step :: "nat \<Rightarrow> jtag_world hal \<Rightarrow> alt_u8 list \<Rightarrow> alt_u8 list \<Rightarrow> jtag_world hal \<Rightarrow> bool" where
  "app_step dev s ins out t \<longleftrightarrow> attached dev t \<and> uart_takes ins out (world s) (world t)"

lemma takes_refl: "uart_takes [] [] w w"
  by (auto simp: uart_takes_def)

lemma app_step_errno [simp]: "app_step dev s ins out (t\<lparr>alt_errno := e\<rparr>) = app_step dev s ins out t"
  by (simp add: app_step_def attached_def)

lemma step_refl: "attached dev s \<Longrightarrow> app_step dev s [] [] s"
  by (simp add: app_step_def takes_refl)

lemma attached_put:
  "attached dev s \<Longrightarrow> fd_at i s = Inr f \<Longrightarrow> fd_dev g = fd_dev f \<Longrightarrow> attached dev (fd_put i g (s\<lparr>world := w\<rparr>))"
  by (auto simp: attached_def fd_at_def nth_list_update split: if_splits)

lemma step_put:
  "attached dev s \<Longrightarrow> fd_at i s = Inr f \<Longrightarrow> fd_dev g = fd_dev f \<Longrightarrow> uart_takes ins out (world s) w \<Longrightarrow>
   app_step dev s ins out (fd_put i g (s\<lparr>world := w\<rparr>))"
  using attached_put by (simp add: app_step_def)

lemma step_put_same: "attached dev s \<Longrightarrow> fd_at i s = Inr f \<Longrightarrow> fd_dev g = fd_dev f \<Longrightarrow> app_step dev s [] [] (fd_put i g s)"
  using step_put [of dev s i f g "[]" "[]" "world s"] takes_refl by simp

lemma step_release:
  "app_step dev s ins out t \<Longrightarrow> alt_release_fd i t = Inr t' \<Longrightarrow> app_step dev s ins out t'"
  by (auto simp: alt_release_fd_def fd_at_def app_step_def attached_def res_bind_eq_Inr nth_list_update split: if_splits)

lemma attached_device:
  "attached dev s \<Longrightarrow> fd_at i s = Inr f \<Longrightarrow> fd_dev f = Some d \<Longrightarrow>
   d = dev \<and> alt_devs s d = jtag_uart_dev \<or> d = alt_dev_null \<and> alt_devs s d = alt_dev_null_dev"
  by (fastforce simp: attached_def fd_at_def split: if_splits)

text \<open>The functions of the two drivers.\<close>

lemma jtag_read_takes:
  "altera_avalon_jtag_uart_read_fd f len w = (rc, bs, g, w') \<Longrightarrow> g = f \<and> uart_takes bs [] w w'"
  by (auto simp: altera_avalon_jtag_uart_read_fd_def uart_takes_def split: option.splits)
    (blast intro: uart_run.received)

lemma jtag_write_takes:
  "altera_avalon_jtag_uart_write_fd f ptr len w = (rc, g, w') \<Longrightarrow> g = f \<and> uart_takes [] (take (nat rc) (take (nat len) ptr)) w w'"
  by (auto simp: altera_avalon_jtag_uart_write_fd_def uart_takes_def split: option.splits simp del: take_take)
    (blast intro: uart_run.sent)

lemma jtag_close_takes:
  "altera_avalon_jtag_uart_close_fd f w = (rc, g, w') \<Longrightarrow> g = f \<and> uart_takes [] [] w w'"
  by (auto simp: altera_avalon_jtag_uart_close_fd_def uart_takes_def split: option.splits)
    (blast intro: uart_run.close)

lemma jtag_ioctl_takes:
  "altera_avalon_jtag_uart_ioctl_fd f req arg w = (rc, a, g, w') \<Longrightarrow> g = f \<and> uart_takes [] [] w w'"
  by (auto simp: altera_avalon_jtag_uart_ioctl_fd_def uart_takes_def split: prod.splits)
    (blast intro: uart_run.ioctl)

lemmas jtag_takes = jtag_read_takes jtag_write_takes jtag_close_takes jtag_ioctl_takes

text \<open>The bytes a call of \<open>write\<close> gives to the UART.\<close>

definition to_uart :: "nat \<Rightarrow> int \<Rightarrow> int \<Rightarrow> alt_u8 list \<Rightarrow> int \<Rightarrow> 'w hal \<Rightarrow> alt_u8 list" where
  "to_uart dev fd rc ptr len s = (case fd_at fd s of
     Inr f \<Rightarrow> if 0 \<le> fd \<and> fd_dev f = Some dev then take (nat rc) (take (nat len) ptr) else []
   | Inl e \<Rightarrow> [])"

lemma close_app:
  assumes "attached dev s" "alt_close i s = Inr (rc, t)"
  shows "app_step dev s [] [] t"
proof (cases "i < 0")
  case True
  then show ?thesis using assms by (auto simp: alt_close_def step_refl)
next
  case False
  with assms obtain f d where f: "fd_at i s = Inr f" "fd_dev f = Some d"
    by (auto simp: alt_close_def fd_device_def res_bind_eq_Inr split: option.splits)
  define r where "r = closed i f (alt_devs s d) s"
  have "app_step dev s [] [] (snd r)"
    using attached_device [OF assms(1) f]
  proof
    assume d: "d = dev \<and> alt_devs s d = jtag_uart_dev"
    obtain rv g w where c: "altera_avalon_jtag_uart_close_fd f (world s) = (rv, g, w)" by (metis prod_cases3)
    then have "r = (rv, fd_put i g (s\<lparr>world := w\<rparr>))" using d by (auto simp: r_def closed_def jtag_uart_dev_def driven_def)
    then show ?thesis using step_put [OF assms(1) f(1)] jtag_close_takes [OF c] by simp
  next
    assume "d = alt_dev_null \<and> alt_devs s d = alt_dev_null_dev"
    then have "alt_devs s d = alt_dev_null_dev" by (rule conjunct2)
    then show ?thesis using step_refl [OF assms(1)] by (simp add: r_def closed_def alt_dev_null_dev_def)
  qed
  moreover obtain t' where "alt_release_fd i (snd r) = Inr t'" "t = t' \<or> (\<exists>e. t = t'\<lparr>alt_errno := e\<rparr>)"
    using False assms(2) alt_close_eq [OF _ f] unfolding r_def by (auto simp: res_bind_eq_Inr Let_def split: if_splits)
  ultimately show ?thesis using step_release by fastforce
qed

lemma write_app:
  assumes "attached dev s" "alt_write i ptr len s = Inr (rc, t)"
  shows "app_step dev s [] (to_uart dev i rc ptr len s) t"
proof -
  consider (fail) "rc = - 1" "t = s \<or> (\<exists>e. t = s\<lparr>alt_errno := e\<rparr>)"
    | (go) f d wr where "0 \<le> i" "fd_at i s = Inr f" "fd_dev f = Some d" "dev_write (alt_devs s d) = Some wr"
      "(case wr f ptr len (world s) of (rv, g, w) \<Rightarrow> let u = fd_put i g (s\<lparr>world := w\<rparr>)
        in if rv < 0 then (- 1, u\<lparr>alt_errno := - rv\<rparr>) else (rv, u)) = (rc, t)"
    using assms(2) by (auto simp: alt_write_def fd_device_def driven_def res_bind_eq_Inr Let_def case_prod_unfold
        split: if_splits option.splits)
  then show ?thesis
  proof cases
    case fail
    then have "to_uart dev i rc ptr len s = []" by (simp add: to_uart_def split: sum.split)
    then show ?thesis using fail(2) step_refl [OF assms(1)] by auto
  next
    case go
    from attached_device [OF assms(1) go(2,3)] show ?thesis
    proof
      assume d: "d = dev \<and> alt_devs s d = jtag_uart_dev"
      obtain rv g w where c: "altera_avalon_jtag_uart_write_fd f ptr len (world s) = (rv, g, w)" by (metis prod_cases3)
      have "rc = (if rv < 0 then - 1 else rv)" "t = fd_put i g (s\<lparr>world := w\<rparr>) \<or> (\<exists>e. t = (fd_put i g (s\<lparr>world := w\<rparr>))\<lparr>alt_errno := e\<rparr>)"
        using go(4,5) d c by (auto simp: jtag_uart_dev_def Let_def split: if_splits)
      moreover from this go d have "to_uart dev i rc ptr len s = take (nat rv) (take (nat len) ptr)"
        by (simp add: to_uart_def)
      ultimately show ?thesis using step_put [OF assms(1) go(2)] jtag_write_takes [OF c] by auto
    next
      assume d: "d = alt_dev_null \<and> alt_devs s d = alt_dev_null_dev"
      then have "dev \<noteq> d" using assms(1) by (auto simp: attached_def jtag_uart_dev_def alt_dev_null_dev_def)
      then have "to_uart dev i rc ptr len s = []" using go by (simp add: to_uart_def)
      moreover have "t = fd_put i f s \<or> (\<exists>e. t = (fd_put i f s)\<lparr>alt_errno := e\<rparr>)"
        using go(4,5) d by (auto simp: alt_dev_null_dev_def alt_dev_null_write_def Let_def split: if_splits)
      ultimately show ?thesis using step_put_same [OF assms(1) go(2)] by auto
    qed
  qed
qed

lemma read_app:
  assumes "attached dev s" "alt_read i len s = Inr (rc, bs, t)"
  shows "app_step dev s bs [] t"
proof -
  consider (fail) "bs = []" "t = s \<or> (\<exists>e. t = s\<lparr>alt_errno := e\<rparr>)"
    | (go) f d rd where "fd_at i s = Inr f" "fd_dev f = Some d" "dev_read (alt_devs s d) = Some rd"
      "(case rd f len (world s) of (rv, bytes, g, w) \<Rightarrow> let u = fd_put i g (s\<lparr>world := w\<rparr>)
        in if rv < 0 then (- 1, bytes, u\<lparr>alt_errno := - rv\<rparr>) else (rv, bytes, u)) = (rc, bs, t)"
    using assms(2) by (auto simp: alt_read_def fd_device_def res_bind_eq_Inr Let_def case_prod_unfold
        split: if_splits option.splits)
  then show ?thesis
  proof cases
    case fail
    then show ?thesis using step_refl [OF assms(1)] by auto
  next
    case go
    have "alt_devs s d = jtag_uart_dev"
      using attached_device [OF assms(1) go(1,2)] go(3) by (auto simp: alt_dev_null_dev_def)
    moreover obtain rv bytes g w where c: "altera_avalon_jtag_uart_read_fd f len (world s) = (rv, bytes, g, w)"
      by (metis prod_cases4)
    ultimately have "bs = bytes" "t = fd_put i g (s\<lparr>world := w\<rparr>) \<or> (\<exists>e. t = (fd_put i g (s\<lparr>world := w\<rparr>))\<lparr>alt_errno := e\<rparr>)"
      using go(3,4) by (auto simp: jtag_uart_dev_def Let_def split: if_splits)
    then show ?thesis using step_put [OF assms(1) go(1)] jtag_read_takes [OF c] by auto
  qed
qed

text \<open>Neither driver has a position or a status of its own.\<close>

lemma attached_plain:
  assumes "attached dev s" "fd_device i s = Inr (f, d)"
  shows "dev_lseek d = None" "dev_fstat d = None" "dev_open d = None"
  using assms attached_device [OF assms(1)]
  by (fastforce simp: fd_device_def res_bind_eq_Inr jtag_uart_dev_def alt_dev_null_dev_def split: option.splits)+

lemma lseek_app: "attached dev s \<Longrightarrow> alt_lseek i p w s = Inr (rc, t) \<Longrightarrow> app_step dev s [] [] t"
  using attached_plain(1) step_refl
  by (fastforce simp: alt_lseek_def res_bind_eq_Inr split: if_splits option.splits)

lemma fstat_app: "attached dev s \<Longrightarrow> alt_fstat i s = Inr (rc, m, t) \<Longrightarrow> app_step dev s [] [] t"
  using attached_plain(2) step_refl
  by (fastforce simp: alt_fstat_def res_bind_eq_Inr split: if_splits option.splits)

lemma isatty_app: "attached dev s \<Longrightarrow> alt_isatty junk i s = Inr (rc, t) \<Longrightarrow> app_step dev s [] [] t"
  using attached_plain(2) step_refl
  by (fastforce simp: alt_isatty_def res_bind_eq_Inr split: if_splits)

lemma fcntl_app: "attached dev s \<Longrightarrow> alt_fcntl i cmd fl s = Inr (rc, t) \<Longrightarrow> app_step dev s [] [] t"
  using step_refl step_put_same
  by (fastforce simp: alt_fcntl_def res_bind_eq_Inr Let_def split: if_splits)

lemma lock_app: "attached dev s \<Longrightarrow> alt_fd_lock i s = Inr (rc, t) \<Longrightarrow> app_step dev s [] [] t"
  using step_refl step_put_same
  by (fastforce simp: alt_fd_lock_def res_bind_eq_Inr Let_def split: if_splits)

lemma unlock_app: "attached dev s \<Longrightarrow> alt_fd_unlock i s = Inr (rc, t) \<Longrightarrow> app_step dev s [] [] t"
  using step_refl step_put_same
  by (fastforce simp: alt_fd_unlock_def res_bind_eq_Inr Let_def split: if_splits)

lemma ioctl_app:
  assumes at: "attached dev s" and c: "alt_ioctl i req arg s = Inr (rc, a, t)"
  shows "app_step dev s [] [] t"
proof -
  have err: "app_step dev s [] [] t" if "app_step dev s [] [] u" "t = (if r < 0 then u\<lparr>alt_errno := - r\<rparr> else u)" for u r
    using that by (cases "r < 0") simp_all
  show ?thesis
  proof (cases "i < 0")
    case True
    then have "t = s\<lparr>alt_errno := EBADFD\<rparr>" using c by (simp add: alt_ioctl_def)
    then show ?thesis using step_refl [OF at] by simp
  next
    case False
    then obtain f where f: "fd_at i s = Inr f" using c by (auto simp: alt_ioctl_def res_bind_eq_Inr)
    consider (lock) "fd_flags f AND ALT_FD_DEV \<noteq> 0 \<and> req = TIOCEXCL"
      | (unlock) "\<not> (fd_flags f AND ALT_FD_DEV \<noteq> 0 \<and> req = TIOCEXCL)" "fd_flags f AND ALT_FD_DEV \<noteq> 0 \<and> req = TIOCNXCL"
      | (io) "\<not> (fd_flags f AND ALT_FD_DEV \<noteq> 0 \<and> req = TIOCEXCL)" "\<not> (fd_flags f AND ALT_FD_DEV \<noteq> 0 \<and> req = TIOCNXCL)"
      by blast
    then show ?thesis
    proof cases
      case lock
      then obtain r u where "alt_fd_lock i s = Inr (r, u)" "t = (if r < 0 then u\<lparr>alt_errno := - r\<rparr> else u)"
        using c False f by (auto simp: alt_ioctl_def res_bind_eq_Inr)
      then show ?thesis using err lock_app [OF at] by blast
    next
      case unlock
      then obtain r u where "alt_fd_unlock i s = Inr (r, u)" "t = (if r < 0 then u\<lparr>alt_errno := - r\<rparr> else u)"
        using c False f by (auto simp: alt_ioctl_def res_bind_eq_Inr)
      then show ?thesis using err unlock_app [OF at] by blast
    next
      case io
      define body :: "alt_fd \<times> jtag_world alt_dev \<Rightarrow> (int \<times> int \<times> jtag_world hal) c_res" where
          "body = (\<lambda>(g, d :: jtag_world alt_dev). case dev_ioctl d of None \<Rightarrow> Inr (- ENOTTY, arg, s)
          | Some io \<Rightarrow> (let (rc, arg, f, w) = io g req arg (world s) in Inr (rc, arg, fd_put i f (s\<lparr>world := w\<rparr>))))"
      have "alt_ioctl i req arg s = res_bind (res_bind (fd_device i s) body)
          (\<lambda>(rc, arg, u). Inr (rc, arg, if rc < 0 then u\<lparr>alt_errno := - rc\<rparr> else u))"
        using False f io by (auto simp: alt_ioctl_def body_def case_prod_unfold)
      with c have "res_bind (res_bind (fd_device i s) body)
          (\<lambda>(rc, arg, u). Inr (rc, arg, if rc < 0 then u\<lparr>alt_errno := - rc\<rparr> else u)) = Inr (rc, a, t)" by (simp only:)
      then obtain r b u where u: "res_bind (fd_device i s) body = Inr (r, b, u)" "t = (if r < 0 then u\<lparr>alt_errno := - r\<rparr> else u)"
        unfolding res_bind_eq_Inr [of "res_bind (fd_device i s) body"] by auto
      then obtain d where d: "fd_dev f = Some d" "body (f, alt_devs s d) = Inr (r, b, u)"
        using f by (auto simp: res_bind_eq_Inr fd_device_def split: option.splits)
      obtain r' b' g w where j: "altera_avalon_jtag_uart_ioctl_fd f req arg (world s) = (r', b', g, w)" by (metis prod_cases4)
      have "u = s \<or> u = fd_put i g (s\<lparr>world := w\<rparr>)"
        using attached_device [OF at f d(1)] d(2) j unfolding body_def
        by (elim disjE conjE) (simp_all add: jtag_uart_dev_def alt_dev_null_dev_def)
      then have "app_step dev s [] [] u" using step_refl [OF at] step_put [OF at f] jtag_ioctl_takes [OF j] by auto
      then show ?thesis using err u(2) by blast
    qed
  qed
qed

lemma attached_mono:
  assumes at: "attached dev s" and t: "length (alt_fd_list t) = ALT_MAX_FD" "alt_devs t = alt_devs s"
    and each: "\<And>i. i < ALT_MAX_FD \<Longrightarrow> alt_fd_list t ! i = alt_fd_list s ! i \<or>
      2 < i \<and> fd_dev (alt_fd_list t ! i) \<in> {None, Some dev, Some alt_dev_null}"
  shows "attached dev t"
proof -
  have "fd_dev (alt_fd_list t ! i) = Some dev" if "i < 3" for i
    using each [of i] at that by (simp add: attached_def)
  moreover have "fd_dev (alt_fd_list t ! i) \<in> {None, Some dev, Some alt_dev_null}" if "i < 32" for i
    using each [OF that] at that unfolding attached_def by metis
  ultimately show ?thesis using at t by (simp add: attached_def)
qed

lemma open_app:
  assumes at: "attached dev s" and ok: "fds_ok s" "drivers_ok s" "registered_as s [dev, alt_dev_null] []" "c_string name"
    and o: "alt_open name flags mode s = Inr (rc, t)"
  shows "app_step dev s [] [] t"
proof -
  obtain d isafs where look: "lookup s [dev, alt_dev_null] [] name = Inr (d, isafs)"
    and c: "(case d of None \<Rightarrow> (- 1, s\<lparr>alt_errno := ENODEV\<rparr>) | Some d \<Rightarrow> open_spec name flags mode d isafs s) = (rc, t)"
    using o alt_open_eq [OF ok(1,3,4)] by (auto simp: res_bind_eq_Inr split: option.splits)
  show ?thesis
  proof (cases d)
    case None
    then show ?thesis using c step_refl [OF at] by auto
  next
    case (Some e)
    then have e: "e \<in> {dev, alt_dev_null}"
      using look by (auto simp: lookup_def res_bind_eq_Inr split: option.splits if_splits)
    have sp: "open_spec name flags mode e isafs s = (rc, t)" using c Some by simp
    note t = open_spec_table [OF ok(1) drivers_okD [OF ok(2)] sp]
    have "dev_open (alt_devs s e) = None" using at e by (auto simp: attached_def jtag_uart_dev_def alt_dev_null_dev_def)
    then have w: "world t = world s"
      using sp by (auto simp: open_spec_def fd_free_def fd_alloc_def Let_def split: option.splits if_splits)
    have "alt_fd_list t ! i = alt_fd_list s ! i \<or> 2 < i \<and> fd_dev (alt_fd_list t ! i) \<in> {None, Some dev, Some alt_dev_null}"
      if i: "i < 32" for i
    proof (cases "rc < 0")
      case True
      then have "if in_use i s then alt_fd_list t ! i = alt_fd_list s ! i else \<not> in_use i t" using t(4) i by blast
      moreover have "2 < i" if "\<not> in_use i s" using ok(1) that by (cases "i < 3") (auto simp: fds_ok_def)
      ultimately show ?thesis by (cases "in_use i s") auto
    next
      case False
      then obtain j where j: "lowest_free s = Some j" "fd_dev (alt_fd_list t ! j) = Some e"
        "\<forall>i<ALT_MAX_FD. i \<noteq> j \<longrightarrow> alt_fd_list t ! i = alt_fd_list s ! i" using t(5) by auto
      then show ?thesis using lowest_free_gt2 [OF ok(1) j(1)] e i by (cases "i = j") auto
    qed
    then have "attached dev t" using t(1,2) by (intro attached_mono [OF at]) (simp_all add: fds_ok_def)
    then show ?thesis by (simp add: app_step_def w takes_refl)
  qed
qed

text \<open>
  A run of the application from \<open>s\<close>: any system calls with any results, and between them any
  events at the UART. The lists are the bytes its calls of \<open>read\<close> got, and what its calls of
  \<open>write\<close> gave to the UART, by their results.
\<close>

inductive app_run :: "nat \<Rightarrow> jtag_world hal \<Rightarrow> alt_u8 list \<Rightarrow> alt_u8 list \<Rightarrow> jtag_world hal \<Rightarrow> bool" for dev s where
  start: "app_run dev s [] [] s"
| elapse: "app_run dev s ins out t \<Longrightarrow>
    app_run dev s ins out (t\<lparr>world := (world t)\<lparr>jw_uart := uart_event e (jw_uart (world t))\<rparr>\<rparr>)"
| writes: "app_run dev s ins out t \<Longrightarrow> alt_write fd ptr len t = Inr (rc, t') \<Longrightarrow>
    app_run dev s ins (out @ to_uart dev fd rc ptr len t) t'"
| reads: "app_run dev s ins out t \<Longrightarrow> alt_read fd len t = Inr (rc, bs, t') \<Longrightarrow> app_run dev s (ins @ bs) out t'"
| opens: "app_run dev s ins out t \<Longrightarrow> c_string name \<Longrightarrow> alt_open name flags mode t = Inr (rc, t') \<Longrightarrow> app_run dev s ins out t'"
| closes: "app_run dev s ins out t \<Longrightarrow> alt_close fd t = Inr (rc, t') \<Longrightarrow> app_run dev s ins out t'"
| seeks: "app_run dev s ins out t \<Longrightarrow> alt_lseek fd off dir t = Inr (rc, t') \<Longrightarrow> app_run dev s ins out t'"
| stats: "app_run dev s ins out t \<Longrightarrow> alt_fstat fd t = Inr (rc, m, t') \<Longrightarrow> app_run dev s ins out t'"
| controls: "app_run dev s ins out t \<Longrightarrow> alt_ioctl fd req arg t = Inr (rc, arg', t') \<Longrightarrow> app_run dev s ins out t'"
| fcntls: "app_run dev s ins out t \<Longrightarrow> alt_fcntl fd cmd fl t = Inr (rc, t') \<Longrightarrow> app_run dev s ins out t'"
| isattys: "app_run dev s ins out t \<Longrightarrow> alt_isatty junk fd t = Inr (rc, t') \<Longrightarrow> app_run dev s ins out t'"

definition app_inv :: "nat \<Rightarrow> jtag_world hal \<Rightarrow> alt_u8 list \<Rightarrow> alt_u8 list \<Rightarrow> jtag_world hal \<Rightarrow> bool" where
  "app_inv dev s ins out t \<longleftrightarrow> same_sys s t \<and> attached dev t \<and> uart_takes ins out (world s) (world t)"

lemma takes_trans: "uart_takes a x w w' \<Longrightarrow> uart_takes b y w' w'' \<Longrightarrow> uart_takes (a @ b) (x @ y) w w''"
  by (simp add: uart_takes_def) (metis append.assoc)

lemma app_invD: "app_inv dev s ins out t \<Longrightarrow> same_sys s t" "app_inv dev s ins out t \<Longrightarrow> attached dev t"
  by (simp_all add: app_inv_def)

lemma app_call:
  assumes inv: "app_inv dev s ins out t" and "drivers_ok s"
    and sys: "fds_ok t \<Longrightarrow> drivers_ok t \<Longrightarrow> res_post (\<lambda>x. same_sys t (p x)) r" and r: "r = Inr x"
    and step: "attached dev t \<Longrightarrow> app_step dev t a b (p x)"
  shows "app_inv dev s (ins @ a) (out @ b) (p x)"
proof -
  have t: "fds_ok t" "drivers_ok t" using app_invD(1) [OF inv] assms(2) by (simp_all add: same_sys_def drivers_ok_def)
  from res_postD [OF sys [OF t] r] have "same_sys s (p x)" by (rule same_sys_trans [OF app_invD(1) [OF inv]])
  with step [OF app_invD(2) [OF inv]] show ?thesis
    using inv takes_trans by (auto simp: app_inv_def app_step_def)
qed

lemmas app_calls =
  app_call [OF _ _ write_sys, where x = "(rc, t')" and a = "[]" for rc t', simplified]
  app_call [OF _ _ read_sys, where x = "(rc, bs, t')" and b = "[]" for rc bs t', simplified]
  app_call [OF _ _ close_sys, where x = "(rc, t')" and a = "[]" and b = "[]" for rc t', simplified]
  app_call [OF _ _ lseek_sys, where x = "(rc, t')" and a = "[]" and b = "[]" for rc t', simplified]
  app_call [OF _ _ fstat_sys, where x = "(rc, m, t')" and a = "[]" and b = "[]" for rc m t', simplified]
  app_call [OF _ _ ioctl_sys, where x = "(rc, v, t')" and a = "[]" and b = "[]" for rc v t', simplified]
  app_call [OF _ _ fcntl_sys, where x = "(rc, t')" and a = "[]" and b = "[]" for rc t', simplified]
  app_call [OF _ _ isatty_sys, where x = "(rc, t')" and a = "[]" and b = "[]" for rc t', simplified]

lemma app_run_inv:
  assumes "app_run dev s ins out t" and ok: "fds_ok s" "drivers_ok s" "registered_as s [dev, alt_dev_null] []" "attached dev s"
  shows "app_inv dev s ins out t"
  using assms(1)
proof (induction rule: app_run.induct)
  case start
  then show ?case using ok by (simp add: app_inv_def same_sysI takes_refl)
next
  case (elapse ins out t e)
  let ?w = "(world t)\<lparr>jw_uart := uart_event e (jw_uart (world t))\<rparr>"
  have "uart_takes [] [] (world t) ?w" by (simp add: uart_takes_def) (blast intro: uart_run.event)
  from takes_trans [OF _ this, of ins out "world s"] show ?case
    using elapse.IH by (auto simp: app_inv_def same_sys_def attached_def)
next
  case (opens ins out t name flags mode rc t')
  have t: "registered_as t [dev, alt_dev_null] []" "drivers_ok t" "fds_ok t"
    using same_sys_setting [OF app_invD(1) [OF opens.IH] ok(3,2)] app_invD(1) [OF opens.IH] by (simp_all add: same_sys_def)
  have "app_inv dev s (ins @ []) (out @ []) (snd (rc, t'))"
    by (rule app_call [OF opens.IH ok(2) open_sys [OF _ _ t(1) opens.hyps(2)] opens.hyps(3)])
      (use open_app [OF _ t(3,2,1) opens.hyps(2,3)] in simp_all)
  then show ?case by simp
next
  case (writes ins out t fd ptr len rc t')
  then show ?case using app_calls(1) [OF writes.IH ok(2)] write_app by blast
next
  case (reads ins out t fd len rc bs t')
  then show ?case using app_calls(2) [OF reads.IH ok(2)] read_app by blast
next
  case (closes ins out t fd rc t')
  then show ?case using app_calls(3) [OF closes.IH ok(2)] close_app by blast
next
  case (seeks ins out t fd off dir rc t')
  then show ?case using app_calls(4) [OF seeks.IH ok(2)] lseek_app by blast
next
  case (stats ins out t fd rc m t')
  then show ?case using app_calls(5) [OF stats.IH ok(2)] fstat_app by blast
next
  case (controls ins out t fd req arg rc arg' t')
  then show ?case using app_calls(6) [OF controls.IH ok(2)] ioctl_app by blast
next
  case (fcntls ins out t fd cmd fl rc t')
  then show ?case using app_calls(7) [OF fcntls.IH ok(2)] fcntl_app by blast
next
  case (isattys ins out t junk fd rc t')
  then show ?case using app_calls(8) [OF isattys.IH ok(2)] isatty_app by blast
qed

section \<open>The output of the program\<close>

lemma close_stdout:
  assumes fd: "fd_at 1 h = Inr f" "fd_dev f = Some d" "alt_devs h d = jtag_uart_dev"
    and run: "uart_run (jw_uart (world h)) del acc" "\<not> jw_hung (world h)"
    and script: "served (jw_script (world h))"
  shows "\<exists>rc t. alt_close 1 h = Inr (rc, t) \<and> \<not> jw_hung (world t) \<and> jw_script (world t) = jw_script (world h) \<and>
    uart_run (jw_uart (world t)) del acc \<and> alt_fd_list t = alt_fd_list h"
proof -
  let ?w = "world h"
  have inv: "uart_ok (jw_uart ?w)" "tx_live (jw_uart ?w)" using uart_run_inv [OF run(1)] by (simp_all add: uart_inv_def)
  obtain n where "backlog (spin (jw_script ?w) (jw_time ?w) n (jw_uart ?w)) = 0" using spin_drains [OF inv script] by blast
  from close_returns [OF inv(1) this, of "fd_flags f"] obtain rc k u where
    c: "altera_avalon_jtag_uart_close (run_events (jw_script ?w)) (fd_flags f) (jw_time ?w) (jw_uart ?w) = Some (rc, k, u)"
    by auto
  define t where "t = fd_put 1 f (h\<lparr>world := ?w\<lparr>jw_uart := u, jw_time := k\<rparr>\<rparr>)"
  have "alt_close 1 h = Inr (if rc < 0 then (- 1, t\<lparr>alt_errno := - rc\<rparr>) else (0, t))"
    using fd c by (simp add: alt_close_def fd_device_def driven_def jtag_uart_dev_def altera_avalon_jtag_uart_close_fd_def
        alt_release_fd_def t_def Let_def)
  moreover have "alt_fd_list t = alt_fd_list h"
    using fd(1) by (auto simp: t_def fd_at_def list_update_same_conv split: if_splits)
  ultimately show ?thesis using uart_run.close [OF run(1) c] run(2) by (auto simp: t_def)
qed

lemma output_drains:
  assumes run: "uart_run s del acc" and script: "served script"
  shows "\<exists>n. \<forall>m\<ge>n. shown (hw (spin script k m s)) = acc \<and> tx_ring (spin script k m s) = [] \<and> wfifo (hw (spin script k m s)) = [] \<and>
    take (length del) (typed (hw (spin script k m s))) = del"
proof -
  have inv: "uart_ok s" "tx_live s" using uart_run_inv [OF run] by (simp_all add: uart_inv_def)
  obtain n where n: "backlog (spin script k n s) = 0" using spin_drains [OF inv script] by blast
  have "typed (hw (spin script k m s)) = del @ rx_stream (spin script k m s)" for m
    using uart_run_inv [OF spin_run [OF run, of script k m]] by (simp add: uart_inv_def)
  then have "take (length del) (typed (hw (spin script k m s))) = del" for m by simp
  then show ?thesis
    using run_drained [OF spin_run [OF run]] spin_stays_drained [OF inv(1) n] by blast
qed

lemma attached_boot:
  assumes "fds_ok t" "map fd_dev (take 3 (alt_fd_list t)) = [Some dev, Some dev, Some dev]"
    "\<forall>n. 2 < n \<and> n < ALT_MAX_FD \<longrightarrow> \<not> in_use n t" "alt_devs t dev = jtag_uart_dev" "alt_devs t alt_dev_null = alt_dev_null_dev"
  shows "attached dev t"
proof -
  have len: "length (alt_fd_list t) = 32" using assms(1) by (simp add: fds_ok_def)
  have std: "fd_dev (alt_fd_list t ! i) = Some dev" if "i < 3" for i
  proof -
    have "map fd_dev (take 3 (alt_fd_list t)) ! i = fd_dev (alt_fd_list t ! i)" using that len by simp
    moreover have "[Some dev, Some dev, Some dev] ! i = Some dev" using that by (auto simp: less_Suc_eq numeral_3_eq_3)
    ultimately show ?thesis using assms(2) by simp
  qed
  have "fd_dev (alt_fd_list t ! i) \<in> {None, Some dev, Some alt_dev_null}" if "i < 32" for i
    using assms(3) std that by (cases "i < 3") auto
  with len std assms(4,5) show ?thesis by (simp add: attached_def)
qed

lemma app_run_trans:
  assumes "app_run dev t ins' out' u" "app_run dev s ins out t"
  shows "app_run dev s (ins @ ins') (out @ out') u"
  using assms
proof (induction rule: app_run.induct)
  case (writes ins' out' t' fd ptr len rc u)
  then show ?case using app_run.writes by (metis append.assoc)
next
  case (reads ins' out' t' fd len rc bs u)
  then show ?case using app_run.reads by (metis append.assoc)
qed (auto intro: app_run.intros)

text \<open>
  C7. From reset to the last byte. Let the application make any system calls with any results,
  with any events at the UART in between, and return; let interrupts be taken and the host
  collect again and again, at whatever points and among whatever else it does. Then closing the
  standard output comes back, the program stops with its exit code, reported to a simulator as
  passed exactly when it is 0, and after finitely many steps of the endless loop the host has got
  every byte that a \<open>write\<close> to the UART has reported as written, in order and once, and both
  buffers are empty for good. That includes what the C library writes when it flushes its
  streams, although \<open>alt_main\<close> has closed the standard output before. The bytes the program has
  read are the first ones the host typed. (Constructors and destructors leave the descriptors
  alone; \<open>late\<close> is what the flushing gives to the UART.)
\<close>

theorem program_output:
  assumes ds: "ds (l_dev lk) = jtag_uart_dev" "alt_dev_null < l_dev lk" "\<And>d. driver_ok (ds d)" and i: "irq_boot i"
    and script: "served script"
    and quiet: "\<And>g t. g \<in> set (ctors @ dtors) \<Longrightarrow> sys_hal (g t) = sys_hal t"
    and main: "\<And>s0. alt_main_init lk (sys_reset ds script k i c) = Inr s0 \<Longrightarrow>
      \<exists>s1. main (do_ctors ctors s0) = Some (Inr (result, s1)) \<and> app_run (l_dev lk) (sys_hal s0) got written (sys_hal s1) \<and>
        \<not> jw_hung (world (sys_hal s1))"
    and flush: "\<And>u. attached (l_dev lk) (sys_hal u) \<Longrightarrow> jw_script (world (sys_hal u)) = script \<Longrightarrow>
      uart_run (jw_uart (world (sys_hal u))) got written \<Longrightarrow> \<not> jw_hung (world (sys_hal u)) \<Longrightarrow>
      app_run (l_dev lk) (sys_hal u) [] late (sys_hal (flush u)) \<and> \<not> jw_hung (world (sys_hal (flush u)))"
  shows "\<exists>h n. alt_main lk ctors dtors flush main (sys_reset ds script k i c) = Some (Inr h) \<and>
    exit_code h = result \<and> (sim_pass h \<longleftrightarrow> result = 0) \<and>
    (\<forall>m\<ge>n. shown (hw (spinning m h)) = written @ late \<and> tx_ring (spinning m h) = [] \<and> wfifo (hw (spinning m h)) = [] \<and>
       take (length got) (typed (hw (spinning m h))) = got)"
proof -
  have len: "length (alt_irq i) = ALT_NIRQ" using i by (simp add: irq_boot_def)
  obtain t0 u0 s0 where
    start: "alt_main_init lk (sys_reset ds script k i c) = Inr s0" "sys_hal s0 = t0"
    and t0: "fds_ok t0" "registered_as t0 [l_dev lk, alt_dev_null] []" "alt_devs t0 = ds(alt_dev_null := alt_dev_null_dev)"
      "map fd_dev (take 3 (alt_fd_list t0)) = [Some (l_dev lk), Some (l_dev lk), Some (l_dev lk)]"
      "\<forall>n. 2 < n \<and> n < ALT_MAX_FD \<longrightarrow> \<not> in_use n t0"
      "world t0 = \<lparr>jw_uart = u0, jw_script = script, jw_time = k, jw_hung = False\<rparr>"
    and u0: "uart_run u0 [] []"
    using main_init_spec [where ds = ds and lk = lk, OF ds(1,2) len, of script k c]
    by (elim exE conjE) (rule that, assumption, simp_all)
  obtain s1 where main1: "main (do_ctors ctors s0) = Some (Inr (result, s1))"
    and app: "app_run (l_dev lk) t0 got written (sys_hal s1)" and live: "\<not> jw_hung (world (sys_hal s1))"
    using main [OF start(1)] start(2) by blast
  have "drivers_ok t0" using ds(3) null_driver_ok by (simp add: drivers_ok_def t0(3))
  moreover have "attached (l_dev lk) t0" using ds(1,2) by (intro attached_boot [OF t0(1,4,5)]) (simp_all add: t0(3))
  ultimately have inv: "app_inv (l_dev lk) t0 ins out t" if "app_run (l_dev lk) t0 ins out t" for ins out t
    using app_run_inv [OF that] t0(1,2) by simp
  have after: "attached (l_dev lk) t \<and> jw_script (world t) = script \<and> uart_run (jw_uart (world t)) ins out"
    if "app_run (l_dev lk) t0 ins out t" "\<not> jw_hung (world t)" for ins out t
    using inv [OF that(1)] that(2) u0 t0(6) by (fastforce simp: app_inv_def uart_takes_def)
  note one = after [OF app live]
  then obtain f where fd: "fd_at 1 (sys_hal s1) = Inr f" "fd_dev f = Some (l_dev lk)"
    "alt_devs (sys_hal s1) (l_dev lk) = jtag_uart_dev" by (auto simp: attached_def fd_at_def)
  obtain rc t where t: "alt_close 1 (sys_hal s1) = Inr (rc, t)" "\<not> jw_hung (world t)"
    using close_stdout [OF fd _ live, of got written] one script by auto
  let ?u = "do_dtors dtors (s1\<lparr>sys_hal := t\<rparr>)"
  have "sys_hal (fold (\<lambda>f. f) fs u) = sys_hal u" if "set fs \<subseteq> set dtors" for fs u
    using that quiet by (induction fs arbitrary: u) auto
  then have u: "sys_hal ?u = t" by (simp add: ctors_last_first)
  have two: "app_run (l_dev lk) t0 got written t" by (rule app_run.closes [OF app t(1)])
  let ?v = "sys_hal (flush ?u)"
  have fl: "app_run (l_dev lk) t [] late ?v" "\<not> jw_hung (world ?v)"
    using flush [of ?u] after [OF two t(2)] t(2) u by auto
  have run: "uart_run (jw_uart (world ?v)) got (written @ late)" "jw_script (world ?v) = script"
    using after [OF app_run_trans [OF fl(1) two] fl(2)] by simp_all
  let ?h = "c_exit [do_dtors dtors] flush result (s1\<lparr>sys_hal := t\<rparr>)"
  have halt: "alt_main lk ctors dtors flush main (sys_reset ds script k i c) = Some (Inr ?h)"
    using start(1) main1 t by (simp add: alt_main_def with_hal_def)
  have w: "world (sys_hal (halt_system ?h)) = world ?v" by (simp add: c_exit_def ALT_EXIT_def)
  have "\<exists>n. \<forall>m\<ge>n. shown (hw (spinning m ?h)) = written @ late \<and> tx_ring (spinning m ?h) = [] \<and>
      wfifo (hw (spinning m ?h)) = [] \<and> take (length got) (typed (hw (spinning m ?h))) = got"
    using output_drains [OF run(1), of script "jw_time (world ?v)"] script by (simp add: spinning_def w run(2) Let_def)
  with halt show ?thesis by (auto simp: c_exit_def ALT_EXIT_def alt_sim_halt_def)
qed

lemma write_stdout:
  assumes fd: "fd_at 1 h = Inr f" "fd_dev f = Some d" "alt_devs h d = jtag_uart_dev" "fd_flags f AND O_ACCMODE \<noteq> O_RDONLY"
    and run: "uart_run (jw_uart (world h)) del acc"
    and fits: "data \<noteq> []" "length data + length (tx_ring (jw_uart (world h))) < BUF_LEN"
  shows "\<exists>t. alt_write 1 data (int (length data)) h = Inr (int (length data), t) \<and> jw_hung (world t) = jw_hung (world h) \<and>
    jw_script (world t) = jw_script (world h) \<and> alt_devs t = alt_devs h \<and> fd_at 1 t = Inr f \<and>
    uart_run (jw_uart (world t)) del (acc @ data)"
proof -
  let ?w = "world h"
  have ok: "uart_ok (jw_uart ?w)" using uart_run_inv [OF run] by (simp add: uart_inv_def)
  obtain rc k u where w: "altera_avalon_jtag_uart_write (run_events (jw_script ?w)) data (fd_flags f) (jw_time ?w) (jw_uart ?w) =
      Some (rc, k, u)"
    using world.write_returns [OF ok] fits(2) by fastforce
  from world.write_spec [OF w ok] fits have rc: "rc = int (length data)" by (auto split: if_splits)
  define t where "t = fd_put 1 f (h\<lparr>world := ?w\<lparr>jw_uart := u, jw_time := k\<rparr>\<rparr>)"
  have "alt_write 1 data (int (length data)) h = Inr (int (length data), t)"
    using fd w rc by (simp add: alt_write_def fd_device_def driven_def jtag_uart_dev_def
        altera_avalon_jtag_uart_write_fd_def Let_def t_def)
  moreover have "fd_at 1 t = Inr f" using fd(1) by (simp add: t_def fd_at_def split: if_splits)
  ultimately show ?thesis using uart_run.sent [OF run w] rc by (auto simp: t_def)
qed

definition demo_main :: "system \<Rightarrow> (int \<times> system) c_res option" where
  "demo_main s = Some (res_bind (with_hal (alt_write 1 [72, 105] 2) s) (\<lambda>(_, s). Inr (0, s)))"

theorem program_output_witness:
  "\<exists>h n. alt_main demo_linkage [] [] (\<lambda>s. s) demo_main demo_reset = Some (Inr h) \<and> sim_pass h \<and>
     shown (hw (spinning n h)) = [72, 105]"
proof -
  have len: "length (alt_irq demo_irq) = ALT_NIRQ" and dev: "l_dev demo_linkage = 3"
    by (simp_all add: demo_irq_def demo_linkage_def)
  have main: "\<exists>s1. demo_main (do_ctors [] s0) = Some (Inr (0, s1)) \<and> app_run (l_dev demo_linkage) (sys_hal s0) [] [72, 105] (sys_hal s1) \<and>
      \<not> jw_hung (world (sys_hal s1))"
    if s0: "alt_main_init demo_linkage demo_reset = Inr s0" for s0
  proof -
    obtain t u where
      t: "sys_hal s0 = t" "fds_ok t" "alt_devs t = (\<lambda>_. jtag_uart_dev)(alt_dev_null := alt_dev_null_dev)"
        "map fd_dev (take 3 (alt_fd_list t)) = [Some 3, Some 3, Some 3]"
        "map fd_flags (take 3 (alt_fd_list t)) = [ALT_FD_DEV, O_WRONLY OR ALT_FD_DEV, O_WRONLY OR ALT_FD_DEV]"
        "world t = \<lparr>jw_uart = u, jw_script = (\<lambda>k. [Interrupt (\<lambda>j. [Poll]), Host_Take]), jw_time = 0, jw_hung = False\<rparr>"
      and u: "uart_run u [] []"
      using main_init_spec [where ds = "\<lambda>_. jtag_uart_dev" and lk = demo_linkage, OF refl _ len,
          of "\<lambda>k. [Interrupt (\<lambda>j. [Poll]), Host_Take]" 0 demo_uart_clock] s0
      unfolding demo_reset_def [symmetric] dev
      by (elim meta_impE exE conjE) (simp, rule that, auto)
    obtain f where f: "fd_at 1 t = Inr f" "fd_dev f = Some 3" "fd_flags f = O_WRONLY OR ALT_FD_DEV"
      using t(2,4,5) by (auto simp: fd_at_def fds_ok_def numeral_3_eq_3 take_Suc_conv_app_nth)
    have e: "tx_ring u = []" using uart_run_inv [OF u] by (simp add: uart_inv_def tx_stream_def)
    have acc: "fd_flags f AND O_ACCMODE \<noteq> O_RDONLY" by (simp add: f(3))
    obtain t' where t': "alt_write 1 [72, 105] 2 t = Inr (2, t')" "\<not> jw_hung (world t')"
      using write_stdout [OF f(1,2) _ acc, of "[]" "[]" "[72, 105]"] u e t(3,6) by auto
    have "to_uart 3 1 2 [72, 105] 2 t = [72, 105]" using f by (simp add: to_uart_def)
    with app_run.writes [OF app_run.start t'(1), of 3] have "app_run 3 t [] [72, 105] t'" by simp
    then show ?thesis using t(1) t' by (simp add: demo_main_def with_hal_def do_ctors_def dev)
  qed
  show ?thesis
    using program_output [where ds = "\<lambda>_. jtag_uart_dev" and lk = demo_linkage and ctors = "[]" and dtors = "[]" and flush = "\<lambda>s. s"
        and late = "[]",
        OF refl _ jtag_driver_ok demo_irq_boot, of "\<lambda>k. [Interrupt (\<lambda>j. [Poll]), Host_Take]" 0 demo_uart_clock demo_main 0 "[]" "[72, 105]"] main
    unfolding demo_reset_def [symmetric] dev by (auto simp: served_def app_run.start)
qed

end
