(* ===== verification/Printing.thy ===== *)
theory Printing
  imports Fd_Table "HOL-Library.Char_ord"
begin

text \<open>
  The small \<open>printf\<close> of the support package (\<open>alt_printf.c\<close>, with \<open>alt_putchar.c\<close> and
  \<open>alt_putstr.c\<close>): the characters a call hands to standard output, as a list. A format is a C
  string, without its terminating zero, so no zero character is in it; variable arguments are a list of typed values, and
  fetching one that is not there or of the other kind is undefined.
\<close>

section \<open>Arguments and characters\<close>

datatype va_arg = Va_Int alt_u32 | Va_Str string

definition va_int :: "va_arg list \<Rightarrow> (alt_u32 \<times> va_arg list) c_res" where
  "va_int args = (case args of Va_Int v # rest \<Rightarrow> Inr (v, rest) | _ \<Rightarrow> Inl OutOfBounds)"

definition va_str :: "va_arg list \<Rightarrow> (string \<times> va_arg list) c_res" where
  "va_str args = (case args of Va_Str s # rest \<Rightarrow> Inr (s, rest) | _ \<Rightarrow> Inl OutOfBounds)"

text \<open>\<open>putchar\<close> converts to an \<open>unsigned char\<close>.\<close>

definition alt_putchar :: "alt_u32 \<Rightarrow> string" where
  "alt_putchar c = [char_of (unat c)]"

definition alt_putstr :: "string \<Rightarrow> string" where
  "alt_putstr str = str"

text \<open>\<open>emit\<close>: characters printed before the rest of a computation prints its own.\<close>

definition emit :: "string \<Rightarrow> string c_res \<Rightarrow> string c_res" where
  "emit out r = res_bind r (\<lambda>rest. Inr (out @ rest))"

lemma emit_Inr [simp]: "emit out (Inr s) = Inr (out @ s)"
  by (simp add: emit_def)

section \<open>Hexadecimal numbers\<close>

text \<open>
  The digit at place \<open>n\<close> (shift \<open>4 * n\<close>), and the search for the first place whose digit is
  not zero; going below place 0 would be a negative shift.
\<close>

definition hex_digit :: "alt_u32 \<Rightarrow> nat \<Rightarrow> alt_u32" where
  "hex_digit v n = drop_bit (4 * n) (v AND push_bit (4 * n) 0xF)"

primrec hex_start :: "alt_u32 \<Rightarrow> nat \<Rightarrow> nat c_res" where
  "hex_start v 0 = (if v AND 0xF \<noteq> 0 then Inr 0 else Inl BadShift)"
| "hex_start v (Suc n) = (if v AND push_bit (4 * Suc n) 0xF \<noteq> 0 then Inr (Suc n) else hex_start v n)"

definition hex_char :: "alt_u32 \<Rightarrow> char" where
  "hex_char digit = char_of (if digit \<le> 9 then unat (0x30 + digit) else unat (0x61 + digit - 10))"

primrec hex_from :: "alt_u32 \<Rightarrow> nat \<Rightarrow> string" where
  "hex_from v 0 = [hex_char (hex_digit v 0)]"
| "hex_from v (Suc n) = hex_char (hex_digit v (Suc n)) # hex_from v n"

definition print_hex :: "alt_u32 \<Rightarrow> string c_res" where
  "print_hex v = (if v = 0 then Inr ''0'' else res_bind (hex_start v 7) (\<lambda>n. Inr (hex_from v n)))"

section \<open>The formatter\<close>

fun alt_printf :: "string \<Rightarrow> va_arg list \<Rightarrow> string c_res" where
  "alt_printf [] args = Inr []"
| "alt_printf [c] args = (if c \<noteq> CHR ''%'' then Inr [c] else Inr [])"
| "alt_printf (c # f # w) args =
     (if c \<noteq> CHR ''%'' then emit [c] (alt_printf (f # w) args)
      else if f = CHR ''%'' then emit [f] (alt_printf w args)
      else if f = CHR ''c'' then res_bind (va_int args) (\<lambda>(v, args). emit (alt_putchar v) (alt_printf w args))
      else if f = CHR ''x'' then
        res_bind (va_int args) (\<lambda>(v, args). res_bind (print_hex v) (\<lambda>out. emit out (alt_printf w args)))
      else if f = CHR ''s'' then res_bind (va_str args) (\<lambda>(s, args). emit s (alt_printf w args))
      else alt_printf w args)"

section \<open>Reading numbers back\<close>

text \<open>
  The sixteen digits in either case, and the numeral of a number in a base: its digits, the
  leading one not zero unless the number is. A digit character's value; 16 stands for a
  character that is no digit.
\<close>

definition digit_chars :: "bool \<Rightarrow> string" where
  "digit_chars upper = (if upper then ''0123456789ABCDEF'' else ''0123456789abcdef'')"

function numeral_in :: "nat \<Rightarrow> bool \<Rightarrow> nat \<Rightarrow> string" where
  "numeral_in b upper n =
     (if b < 2 \<or> n < b then [digit_chars upper ! n] else numeral_in b upper (n div b) @ [digit_chars upper ! (n mod b)])"
  by pat_completeness auto
termination
  by (relation "measure (\<lambda>(b, upper, n). n)") (auto intro: div_less_dividend)

declare numeral_in.simps [simp del]

definition digit_val :: "char \<Rightarrow> nat" where
  "digit_val c = (if CHR ''0'' \<le> c \<and> c \<le> CHR ''9'' then of_char c - 48
     else if CHR ''A'' \<le> c \<and> c \<le> CHR ''F'' then of_char c - 55
     else if CHR ''a'' \<le> c \<and> c \<le> CHR ''f'' then of_char c - 87 else 16)"

definition digits_val :: "nat \<Rightarrow> string \<Rightarrow> nat" where
  "digits_val b s = foldl (\<lambda>a c. a * b + digit_val c) 0 s"

lemma digits_val_Cons: "digits_val b (c # s) = digit_val c * b ^ length s + digits_val b s"
proof -
  have "foldl (\<lambda>a c. a * b + digit_val c) x s = x * b ^ length s + foldl (\<lambda>a c. a * b + digit_val c) 0 s" for x s
  proof (induction s arbitrary: x)
    case (Cons d s)
    show ?case using Cons [of "x * b + digit_val d"] Cons [of "digit_val d"] by (simp add: algebra_simps)
  qed simp
  from this [of "digit_val c" s] show ?thesis by (simp add: digits_val_def)
qed

lemma digits_val_Nil [simp]: "digits_val b [] = 0"
  by (simp add: digits_val_def)

lemma digits_val_snoc: "digits_val b (s @ [c]) = digits_val b s * b + digit_val c"
  by (simp add: digits_val_def)

lemma length_digit_chars [simp]: "length (digit_chars upper) = 16"
  by (simp add: digit_chars_def)

lemma digit_chars_val: "n < 16 \<Longrightarrow> digit_val (digit_chars upper ! n) = n"
proof -
  assume "n < 16"
  then have "n \<in> set [0..<16]" by simp
  then show ?thesis
    by (cases upper) (auto simp: upt_conv_Cons digit_chars_def digit_val_def less_eq_char_def)
qed

lemma digit_chars_zero: "n < 16 \<Longrightarrow> digit_chars upper ! n = CHR ''0'' \<longleftrightarrow> n = 0"
  using digit_chars_val [of n upper] digit_chars_val [of 0 upper] by (force simp: digit_chars_def)

text \<open>
  A numeral has only digits below its base, no leading zero, and reads back as its number;
  and it is the only such text.
\<close>

lemma numeral_in_spec:
  "2 \<le> b \<Longrightarrow> b \<le> 16 \<Longrightarrow> digits_val b (numeral_in b upper n) = n \<and>
     set (numeral_in b upper n) \<subseteq> set (take b (digit_chars upper)) \<and> numeral_in b upper n \<noteq> [] \<and>
     (n \<noteq> 0 \<longrightarrow> hd (numeral_in b upper n) \<noteq> CHR ''0'')"
proof (induction b upper n rule: numeral_in.induct)
  case (1 b upper n)
  have mem: "digit_chars upper ! k \<in> set (take b (digit_chars upper))" if "k < b" for k
    using that 1(3) by (auto simp: in_set_conv_nth intro!: exI [of _ k])
  show ?case
  proof (cases "n < b")
    case True
    then show ?thesis using 1(2,3) mem [of n] digit_chars_val [of n upper] digit_chars_zero [of n upper]
      by (auto simp: numeral_in.simps [of b upper n] digits_val_Cons)
  next
    case False
    then have "n div b \<noteq> 0" using 1(2) by (simp add: div_eq_0_iff)
    moreover have "n mod b < b" using 1(2) by simp
    moreover from this have "digit_val (digit_chars upper ! (n mod b)) = n mod b"
      using 1(3) by (intro digit_chars_val) simp
    ultimately show ?thesis using False 1 mem [of "n mod b"]
      by (auto simp: numeral_in.simps [of b upper n] digits_val_snoc)
  qed
qed

lemma numeral_in_unique:
  assumes b: "2 \<le> b" "b \<le> 16"
  shows "set ds \<subseteq> set (take b (digit_chars upper)) \<Longrightarrow> ds \<noteq> [] \<Longrightarrow> hd ds \<noteq> CHR ''0'' \<or> length ds = 1 \<Longrightarrow>
    ds = numeral_in b upper (digits_val b ds)"
proof (induction ds rule: rev_induct)
  case (snoc c ds)
  from snoc.prems(1) b obtain k where k: "k < b" "c = digit_chars upper ! k" by (auto simp: in_set_conv_nth)
  have v: "digit_val c = k" using k b by (simp add: digit_chars_val)
  show ?case
  proof (cases "ds = []")
    case True
    then show ?thesis using k v by (simp add: digits_val_Cons numeral_in.simps [of b upper k])
  next
    case False
    then have h: "hd ds \<noteq> CHR ''0''" using snoc.prems(3) by auto
    have "hd ds \<in> set (take b (digit_chars upper))" using snoc.prems(1) False by auto
    then obtain j where j: "j < b" "hd ds = digit_chars upper ! j" using b by (auto simp: in_set_conv_nth)
    then have "digit_val (hd ds) \<noteq> 0" using h b by (simp add: digit_chars_val digit_chars_zero)
    then have "0 < digits_val b ds" using False b by (cases ds) (auto simp: digits_val_Cons)
    then have "b \<le> digits_val b ds * b" by (cases "digits_val b ds") simp_all
    then have "\<not> digits_val b (ds @ [c]) < b" unfolding digits_val_snoc by linarith
    moreover have "digits_val b (ds @ [c]) div b = digits_val b ds" "digits_val b (ds @ [c]) mod b = k"
      using k v by (simp_all add: digits_val_snoc)
    moreover have "numeral_in b upper (digits_val b ds) = ds" using snoc False h by simp
    ultimately show ?thesis unfolding numeral_in.simps [of b upper "digits_val b (ds @ [c])"] using b k by simp
  qed
qed simp

text \<open>Hexadecimal digits of a word.\<close>

lemma hex_digit_nat: "unat (hex_digit v n) = unat v div 16 ^ n mod 16"
proof -
  have m: "(0xF :: alt_u32) = mask 4" by (simp add: mask_eq_exp_minus_1)
  have "hex_digit v n = take_bit 4 (drop_bit (4 * n) v)"
    unfolding hex_digit_def m by (rule bit_word_eqI) (auto simp: bit_simps dest: bit_imp_le_length)
  then have "unat (hex_digit v n) = take_bit 4 (drop_bit (4 * n) (unat v))"
    by (simp only: unsigned_take_bit_eq unat_drop_bit_eq)
  then show ?thesis
    by (simp add: take_bit_eq_mod drop_bit_eq_div power_mult)
qed

lemma hex_digit_zero: "v AND push_bit (4 * n) 0xF = 0 \<longleftrightarrow> hex_digit v n = 0" if "n < 8"
proof -
  have m: "(0xF :: alt_u32) = mask 4" by (simp add: mask_eq_exp_minus_1)
  show ?thesis
  proof
    assume "hex_digit v n = 0"
    then have d: "\<not> bit (hex_digit v n) k" for k by simp
    have "\<not> bit (v AND push_bit (4 * n) 0xF) k" for k
      using d [of "k - 4 * n"] unfolding hex_digit_def m by (auto simp: bit_simps)
    then show "v AND push_bit (4 * n) 0xF = 0" by (simp add: bit_eq_iff)
  qed (simp add: hex_digit_def)
qed

lemma hex_char_nat: "unat d < 16 \<Longrightarrow> hex_char d = char_of (if unat d < 10 then 48 + unat d else 87 + unat d)"
proof -
  assume d: "unat d < 16"
  have "d \<le> 9 \<longleftrightarrow> unat d < 10" by (auto simp: word_le_nat_alt)
  moreover have "unat (0x30 + d) = 48 + unat d" using d by (simp add: unat_plus32)
  moreover have "unat (0x61 + d - 10) = 87 + unat d"
  proof -
    have "0x61 + d - 10 = 87 + d" by (simp add: algebra_simps)
    moreover have "unat (87 :: alt_u32) = 87" by simp
    ultimately show ?thesis using d unat_plus32 [of 87 d] by simp
  qed
  ultimately show ?thesis by (simp add: hex_char_def)
qed

lemma hex_char_digit: "hex_char (hex_digit v n) = digit_chars False ! (unat v div 16 ^ n mod 16)"
proof -
  define d where "d = unat v div 16 ^ n mod 16"
  have u: "unat (hex_digit v n) = d" and "d < 16" by (simp_all add: d_def hex_digit_nat)
  then have "d \<in> set [0..<16]" by simp
  moreover have "hex_char (hex_digit v n) = char_of (if d < 10 then 48 + d else 87 + d)"
    using hex_char_nat [of "hex_digit v n"] u \<open>d < 16\<close> by simp
  ultimately show ?thesis unfolding d_def [symmetric] by (auto simp: upt_conv_Cons digit_chars_def char_of_def bit_Suc_0_iff)
qed

lemma hex_char_val: "digit_val (hex_char (hex_digit v n)) = unat v div 16 ^ n mod 16"
  by (simp add: hex_char_digit digit_chars_val)

lemma hex_from_set: "set (hex_from v n) \<subseteq> set (digit_chars False)"
proof -
  have "hex_char (hex_digit v n) \<in> set (digit_chars False)" for n
    unfolding hex_char_digit by (rule nth_mem) simp
  then show ?thesis by (induction n) auto
qed

lemma length_hex_from [simp]: "length (hex_from v n) = Suc n"
  by (induction n) simp_all

lemma hex_from_val: "digits_val 16 (hex_from v n) = unat v mod 16 ^ Suc n"
proof (induction n)
  case 0
  show ?case by (simp add: digits_val_Cons hex_char_val del: hex_from.simps(2)) 
next
  case (Suc n)
  have "digits_val 16 (hex_from v (Suc n)) = (unat v div 16 ^ Suc n mod 16) * 16 ^ Suc n + unat v mod 16 ^ Suc n"
    using Suc by (simp add: digits_val_Cons hex_char_val)
  also have "\<dots> = unat v mod (16 ^ Suc n * 16)"
    using mod_mult2_eq [of "unat v" "16 ^ Suc n" 16] by (simp only: mult.commute)
  finally show ?case by (simp add: mult.commute)
qed

text \<open>The search finds the place of the leading digit.\<close>

lemma hex_start_spec:
  assumes "n < 8" "unat v < 16 ^ Suc n" "v \<noteq> 0"
  shows "\<exists>k\<le>n. hex_start v n = Inr k \<and> unat v < 16 ^ Suc k \<and> hex_digit v k \<noteq> 0"
  using assms
proof (induction n)
  case 0
  have "v AND push_bit (4 * 0) 0xF = 0 \<longleftrightarrow> hex_digit v 0 = 0" by (rule hex_digit_zero) simp
  moreover have "unat (hex_digit v 0) = unat v" using 0 by (simp add: hex_digit_nat)
  moreover have "unat v \<noteq> 0" using 0 by (simp add: unat_eq_0)
  ultimately show ?case using 0 by (auto simp: unat_eq_0)
next
  case (Suc n)
  show ?case
  proof (cases "hex_digit v (Suc n) = 0")
    case True
    then have "unat v div 16 ^ Suc n mod 16 = 0" using hex_digit_nat [of v "Suc n"] by simp
    moreover have "unat v div 16 ^ Suc n < 16" using Suc.prems(2) by (simp add: less_mult_imp_div_less mult.commute)
    ultimately have "unat v < 16 ^ Suc n" by (simp add: div_eq_0_iff)
    with Suc True show ?thesis using hex_digit_zero [of "Suc n" v] by (auto intro: le_SucI)
  qed (use Suc hex_digit_zero [of "Suc n" v] in auto)
qed

text \<open>The hexadecimal printer prints the numeral of the value.\<close>

lemma print_hex_numeral: "print_hex v = Inr (numeral_in 16 False (unat v))"
proof (cases "v = 0")
  case True
  then show ?thesis by (simp add: print_hex_def numeral_in.simps [of 16 False 0] digit_chars_def)
next
  case False
  have "unat v < 16 ^ Suc 7" using unat32_lt [of v] by simp
  then obtain k where k: "hex_start v 7 = Inr k" "unat v < 16 ^ Suc k" "hex_digit v k \<noteq> 0"
    using hex_start_spec [of 7 v] False by auto
  have "hd (hex_from v k) = hex_char (hex_digit v k)" by (cases k) simp_all
  moreover have "unat v div 16 ^ k mod 16 \<noteq> 0" using k(3) by (simp add: unat_eq_0 flip: hex_digit_nat)
  ultimately have "hd (hex_from v k) \<noteq> CHR ''0''"
    using digit_chars_zero [of "unat v div 16 ^ k mod 16" False] by (simp add: hex_char_digit)
  moreover have "digits_val 16 (hex_from v k) = unat v" using hex_from_val [of v k] k(2) by simp
  moreover have "hex_from v k \<noteq> []" using length_hex_from [of v k] by (metis Zero_neq_Suc list.size(3))
  ultimately have "hex_from v k = numeral_in 16 False (unat v)"
    using numeral_in_unique [of 16 "hex_from v k" False] hex_from_set [of v k] by simp
  then show ?thesis using k(1) False by (simp add: print_hex_def)
qed

lemma hex_numeral_length: "1 \<le> length (numeral_in 16 False (unat v)) \<and> length (numeral_in 16 False (unat v)) \<le> 8" for v :: alt_u32
proof (cases "v = 0")
  case True
  then show ?thesis by (simp add: numeral_in.simps [of 16 False 0])
next
  case False
  have "unat v < 16 ^ Suc 7" using unat32_lt [of v] by simp
  then obtain k where "k \<le> 7" "hex_start v 7 = Inr k" using hex_start_spec [of 7 v] False by auto
  then have "numeral_in 16 False (unat v) = hex_from v k" using print_hex_numeral [of v] False by (simp add: print_hex_def)
  then show ?thesis using \<open>k \<le> 7\<close> by simp
qed

section \<open>Properties\<close>

text \<open>
  C36. Hexadecimal output. \<open>%x\<close> prints every 32-bit value as its hexadecimal numeral, the one
  text of lower-case digits without a leading zero that reads back as the value: one to eight
  characters, all of them in \<open>0123456789abcdef\<close>, the first not \<open>0\<close> unless the value is zero.
  The search for the leading digit never shifts below place 0.
\<close>

theorem print_hex_roundtrip:
  "\<exists>out. print_hex v = Inr out \<and> alt_printf ''%x'' [Va_Int v] = Inr out \<and> out = numeral_in 16 False (unat v) \<and>
     set out \<subseteq> set ''0123456789abcdef'' \<and> digits_val 16 out = unat v \<and> 1 \<le> length out \<and> length out \<le> 8 \<and>
     (v \<noteq> 0 \<longrightarrow> hd out \<noteq> CHR ''0'')"
proof -
  have "set (take 16 (digit_chars False)) = set ''0123456789abcdef''" by (simp add: digit_chars_def)
  then show ?thesis
    using print_hex_numeral [of v] numeral_in_spec [of 16 False "unat v"] hex_numeral_length [of v] unat_eq_0 [of v]
    by (simp add: va_int_def del: list.set)
qed

theorem print_hex_roundtrip_witness:
  "print_hex 0x2a9 = Inr ''2a9'' \<and> hd ''2a9'' \<noteq> CHR ''0'' \<and> alt_printf ''%x'' [Va_Int 0x2a9] = Inr ''2a9''"
proof -
  have "numeral_in 16 False 681 = ''2a9''"
    by (simp add: numeral_in.simps [of 16 False 681] numeral_in.simps [of 16 False 42] numeral_in.simps [of 16 False 2] digit_chars_def)
  then show ?thesis using print_hex_roundtrip [of "0x2a9"] by (auto simp del: alt_printf.simps)
qed

text \<open>
  The pieces of a format, each with the argument it takes: a plain character, a percent sign,
  a character, a hexadecimal number, a string.
\<close>

datatype piece = Plain char | Percent | Chr alt_u32 | Hex alt_u32 | Str string

fun piece_ok :: "piece \<Rightarrow> bool" where
  "piece_ok (Plain c) \<longleftrightarrow> c \<noteq> CHR ''%''"
| "piece_ok _ \<longleftrightarrow> True"

fun piece_fmt :: "piece \<Rightarrow> string" where
  "piece_fmt (Plain c) = [c]"
| "piece_fmt Percent = ''%%''"
| "piece_fmt (Chr v) = ''%c''"
| "piece_fmt (Hex v) = ''%x''"
| "piece_fmt (Str s) = ''%s''"

fun piece_args :: "piece \<Rightarrow> va_arg list" where
  "piece_args (Chr v) = [Va_Int v]"
| "piece_args (Hex v) = [Va_Int v]"
| "piece_args (Str s) = [Va_Str s]"
| "piece_args _ = []"

fun piece_text :: "piece \<Rightarrow> string" where
  "piece_text (Plain c) = [c]"
| "piece_text Percent = ''%''"
| "piece_text (Chr v) = [char_of (unat v)]"
| "piece_text (Hex v) = projr (print_hex v)"
| "piece_text (Str s) = s"

lemma print_hex_total: "\<exists>out. print_hex v = Inr out"
  by (simp add: print_hex_numeral)

text \<open>
  C37. \<open>alt_printf\<close>. A format put together from any pieces, called with the pieces' arguments
  in order and possibly more, prints exactly the pieces' texts, one after the other; a lone
  percent sign at the end prints nothing; a conversion it does not know prints nothing and
  takes no argument, so that the next conversion gets the argument meant for it.
\<close>

theorem alt_printf_pieces:
  assumes "list_all piece_ok ps"
  shows "alt_printf (concat (map piece_fmt ps)) (concat (map piece_args ps) @ extra) = Inr (concat (map piece_text ps)) \<and>
    alt_printf (concat (map piece_fmt ps) @ ''%'') (concat (map piece_args ps) @ extra) = Inr (concat (map piece_text ps)) \<and>
    (f \<notin> set ''%cxs'' \<longrightarrow> alt_printf (''%'' @ [f] @ w) args = alt_printf w args)"
proof -
  have step: "alt_printf (piece_fmt p @ w) (piece_args p @ as) = emit (piece_text p) (alt_printf w as)"
    if "piece_ok p" for p w as
  proof (cases p)
    case (Plain c)
    then show ?thesis using that by (cases w) simp_all
  next
    case (Hex v)
    then show ?thesis using print_hex_total [of v] by (auto simp: va_int_def)
  qed (simp_all add: va_int_def va_str_def alt_putchar_def)
  have "alt_printf (concat (map piece_fmt ps) @ w) (concat (map piece_args ps) @ extra) =
      emit (concat (map piece_text ps)) (alt_printf w extra)" for w
    using assms
  proof (induction ps)
    case Nil
    then show ?case by (simp add: emit_def res_bind_def split: sum.split)
  next
    case (Cons p ps)
    then show ?case using step [of p "concat (map piece_fmt ps) @ w" "concat (map piece_args ps) @ extra"]
      by (auto simp: emit_def res_bind_def split: sum.split)
  qed
  from this [of "[]"] this [of "''%''"] show ?thesis by simp
qed

theorem alt_printf_pieces_witness:
  "alt_printf ''n=%x %s%c'' [Va_Int 0x1f, Va_Str ''ok'', Va_Int 10] = Inr (''n='' @ projr (print_hex 0x1f) @ '' ok'' @ [char_of (10 :: nat)])"
  using alt_printf_pieces [of "[Plain CHR ''n'', Plain CHR ''='', Hex 0x1f, Plain CHR '' '', Str ''ok'', Chr 10]" "[]"]
  by (simp del: alt_printf.simps)

end
