(* ===== verification/Log_Printf.thy ===== *)
theory Log_Printf
  imports Printing Jtag_System
begin

text \<open>
  The logging facility (\<open>alt_log_printf.c\<close>, \<open>sys/alt_log_printf.h\<close>): a second formatter with
  field widths and number bases, which writes to the log port, here the JTAG UART, by polling;
  and the messages the system logs with it. A call's output is a list of characters; that list
  is then transmitted one character at a time.
\<close>

section \<open>The formatter's state\<close>

datatype pf_state = Chars | FirstFmtChar | OtherFmtChar

text \<open>The bases it can set; the C variable is an \<open>int\<close>.\<close>

datatype fmt_base = Base8 | Base10 | Base16

definition base_val :: "fmt_base \<Rightarrow> nat" where
  "base_val b = (case b of Base8 \<Rightarrow> 8 | Base10 \<Rightarrow> 10 | Base16 \<Rightarrow> 16)"

record pf =
  fmtLeadingZero :: bool
  fmtLong :: bool
  fmtBeforeDecimal :: int
  fmtAfterDecimal :: int
  fmtBase :: fmt_base
  fmtSigned :: bool
  fmtCase :: bool

definition pf_reset :: pf where
  "pf_reset = \<lparr>fmtLeadingZero = False, fmtLong = False, fmtBeforeDecimal = - 1, fmtAfterDecimal = - 1,
     fmtBase = Base10, fmtSigned = True, fmtCase = False\<rparr>"

definition alt_log_repchar :: "char \<Rightarrow> int \<Rightarrow> string" where
  "alt_log_repchar c r = replicate (nat r) c"

section \<open>Integers\<close>

text \<open>Counting the digits: \<open>p\<close> becomes the weight of the leading one.\<close>

function count_digits :: "fmt_base \<Rightarrow> alt_u32 \<Rightarrow> alt_u32 \<Rightarrow> int \<Rightarrow> alt_u32 \<times> int" where
  "count_digits b vShrink p digitCount =
     (let vShrink = vShrink div of_nat (base_val b)
      in if 0 < vShrink then count_digits b vShrink (p * of_nat (base_val b)) (digitCount + 1) else (p, digitCount))"
  by pat_completeness auto

lemma base_word: "unat (of_nat (base_val b) :: alt_u32) = base_val b" "1 < base_val b" "base_val b \<le> 16"
  by (cases b; simp add: base_val_def)+

lemma div_base_less: "v \<noteq> 0 \<Longrightarrow> unat (v div of_nat (base_val b)) < unat v" for v :: alt_u32
  using base_word [of b] unat_eq_0 [of v] by (simp add: unat_div div_less_dividend)

termination count_digits
proof (relation "measure (\<lambda>(b, v, p, n). unat v)", simp_all add: Let_def)
  fix b and v :: alt_u32 assume "0 < v div word_of_nat (base_val b)"
  then have "v \<noteq> 0" by auto
  then show "unat (v div word_of_nat (base_val b)) < unat v" by (rule div_base_less)
qed

definition log_digit :: "bool \<Rightarrow> alt_u32 \<Rightarrow> char" where
  "log_digit upper q =
     (let d = (ucast q :: alt_u8) + 0x30
      in char_of (unat (if 0x39 < d then d + ((if upper then 0x41 else 0x61) - 0x30 - 10) else d)))"

function log_digits :: "fmt_base \<Rightarrow> bool \<Rightarrow> alt_u32 \<Rightarrow> alt_u32 \<Rightarrow> string" where
  "log_digits b upper p v =
     (if p = 0 then [] else log_digit upper (v div p) # log_digits b upper (p div of_nat (base_val b)) (v mod p))"
  by pat_completeness auto
termination
  by (relation "measure (\<lambda>(b, u, p, v). unat p)") (simp_all add: div_base_less)

text \<open>\<open>doIntegerPrint\<close>, for a value already fetched: padding, sign, digits.\<close>

definition log_integer :: "pf \<Rightarrow> alt_u32 \<Rightarrow> string" where
  "log_integer f v =
     (let sign = fmtSigned f \<and> v AND 0x80000000 \<noteq> 0;
          v = (if sign then NOT v + 1 else v);
          (p, digitCount) = count_digits (fmtBase f) v 1 1;
          width = fmtBeforeDecimal f - digitCount;
          width = (if sign then width - 1 else width)
      in (if fmtLeadingZero f then (if sign then ''-'' else []) @ alt_log_repchar (CHR ''0'') width
          else alt_log_repchar (CHR '' '') width @ (if sign then ''-'' else []))
         @ log_digits (fmtBase f) (fmtCase f) p v)"

section \<open>The format string\<close>

text \<open>
  One character in state \<open>OtherFmtChar\<close>: what it prints, the next state, the new fields and
  the arguments left. A width too long for an \<open>int\<close> is undefined.
\<close>

definition width_digit :: "pf \<Rightarrow> int \<Rightarrow> pf c_res" where
  "width_digit f c =
     (if fmtAfterDecimal f < 0 then
        res_bind (if fmtBeforeDecimal f < 0 then Inr 0 else c_mul (fmtBeforeDecimal f) 10) (\<lambda>w.
        res_bind (c_add w c) (\<lambda>w. Inr (f\<lparr>fmtBeforeDecimal := w\<rparr>)))
      else res_bind (c_mul (fmtAfterDecimal f) 10) (\<lambda>w. res_bind (c_add w c) (\<lambda>w. Inr (f\<lparr>fmtAfterDecimal := w\<rparr>))))"

definition do_integer :: "pf \<Rightarrow> va_arg list \<Rightarrow> (string \<times> pf_state \<times> pf \<times> va_arg list) c_res" where
  "do_integer f args = res_bind (va_int args) (\<lambda>(v, args). Inr (log_integer f v, Chars, f, args))"

definition other_char :: "char \<Rightarrow> pf \<Rightarrow> va_arg list \<Rightarrow> (string \<times> pf_state \<times> pf \<times> va_arg list) c_res" where
  "other_char c f args =
     (if c = CHR ''.'' then Inr ([], OtherFmtChar, f\<lparr>fmtAfterDecimal := 0\<rparr>, args)
      else if CHR ''0'' \<le> c \<and> c \<le> CHR ''9'' then
        res_bind (width_digit f (of_char c - 48)) (\<lambda>f. Inr ([], OtherFmtChar, f, args))
      else if c = CHR ''l'' then Inr ([], OtherFmtChar, f\<lparr>fmtLong := True\<rparr>, args)
      else if c \<in> {CHR ''d'', CHR ''i''} then do_integer f args
      else if c = CHR ''u'' then do_integer (f\<lparr>fmtSigned := False\<rparr>) args
      else if c = CHR ''o'' then do_integer (f\<lparr>fmtSigned := False, fmtBase := Base8\<rparr>) args
      else if c = CHR ''x'' then do_integer (f\<lparr>fmtSigned := False, fmtBase := Base16\<rparr>) args
      else if c = CHR ''X'' then do_integer (f\<lparr>fmtSigned := False, fmtBase := Base16, fmtCase := True\<rparr>) args
      else if c = CHR ''c'' then
        res_bind (va_int args) (\<lambda>(v, args).
          Inr (alt_log_repchar (CHR '' '') (fmtBeforeDecimal f - 1) @ [char_of (unat v)], Chars, f, args))
      else if c = CHR ''s'' then
        res_bind (va_str args) (\<lambda>(s, args).
          Inr (alt_log_repchar (CHR '' '') (sint (word_of_int (fmtBeforeDecimal f - int (length s)) :: alt_u32)) @ s,
               Chars, f, args))
      else Inr ([], Chars, f, args))"

definition pf_step :: "pf_state \<Rightarrow> char \<Rightarrow> pf \<Rightarrow> va_arg list \<Rightarrow> (string \<times> pf_state \<times> pf \<times> va_arg list) c_res" where
  "pf_step state c f args =
     (case state of
        Chars \<Rightarrow> if c = CHR ''%'' then Inr ([], FirstFmtChar, pf_reset, args) else Inr ([c], Chars, f, args)
      | FirstFmtChar \<Rightarrow>
          if c = CHR ''0'' then Inr ([], OtherFmtChar, f\<lparr>fmtLeadingZero := True\<rparr>, args)
          else if c = CHR ''%'' then Inr ([c], Chars, f, args)
          else other_char c f args
      | OtherFmtChar \<Rightarrow> other_char c f args)"

fun pf_run :: "string \<Rightarrow> pf_state \<Rightarrow> pf \<Rightarrow> va_arg list \<Rightarrow> string c_res" where
  "pf_run [] state f args = Inr []"
| "pf_run (c # w) state f args =
     res_bind (pf_step state c f args) (\<lambda>(out, state, f, args). emit out (pf_run w state f args))"

definition alt_log_private_printf :: "string \<Rightarrow> va_arg list \<Rightarrow> string c_res" where
  "alt_log_private_printf fmt args = pf_run fmt Chars pf_reset args"

section \<open>What the integer conversion prints\<close>

lemma count_digits_spec:
  "unat p * unat v < 2 ^ 32 \<Longrightarrow> p \<noteq> 0 \<Longrightarrow> count_digits b v p c = (p', c') \<Longrightarrow>
   \<exists>j. c' = c + int j \<and> unat p' = unat p * base_val b ^ j \<and> unat v < base_val b ^ Suc j \<and>
     (0 < j \<longrightarrow> base_val b ^ j \<le> unat v)"
proof (induction b v p c arbitrary: p' c' rule: count_digits.induct)
  case (1 b v p c)
  let ?B = "base_val b"
  have u: "unat (v div of_nat ?B) = unat v div ?B" using base_word(1) [of b] by (simp add: unat_div)
  show ?case
  proof (cases "0 < v div of_nat ?B")
    case False
    then have "unat v div ?B = 0" using u by (simp add: word_gt_0)
    then have "unat v < ?B" using base_word(2) [of b] by (simp add: div_eq_0_iff)
    then show ?thesis using 1(4) False by (intro exI [of _ 0]) (simp add: count_digits.simps [of b v])
  next
    case True
    then have v0: "0 < unat v div ?B" using u by (simp add: word_gt_0 unat_gt_0 flip: u)
    then have ge: "?B \<le> unat v" using base_word(2) [of b] by (simp add: div_greater_zero_iff)
    have "unat p * ?B \<le> unat p * unat v" by (rule mult_le_mono2 [OF ge])
    from le_less_trans [OF this 1(2)] have "unat p * ?B < 4294967296" by simp
    then have pB: "unat (p * of_nat ?B) = unat p * ?B"
      using base_word(1) [of b] by (simp add: unat_word_ariths)
    have "unat p * ?B * (unat v div ?B) \<le> unat p * unat v" by (simp add: mult.assoc)
    from le_less_trans [OF this 1(2)] have small: "unat (p * of_nat ?B) * unat (v div of_nat ?B) < 2 ^ 32"
      unfolding u pB .
    have nz: "p * of_nat ?B \<noteq> 0" using 1(3) pB base_word(2) [of b] by (metis mult_is_0 not_one_less_zero unat_eq_0)
    have "count_digits b (v div of_nat ?B) (p * of_nat ?B) (c + 1) = (p', c')"
      using 1(4) True by (simp add: count_digits.simps [of b v])
    from 1(1) [OF refl True small nz this] obtain j where
      j: "c' = c + 1 + int j" "unat p' = unat p * ?B * ?B ^ j" "unat v div ?B < ?B ^ Suc j"
        "0 < j \<longrightarrow> ?B ^ j \<le> unat v div ?B" unfolding u pB by blast
    have "unat v < ?B ^ Suc j * ?B" using j(3) base_word(2) [of b] by (simp add: div_less_iff_less_mult)
    moreover have "?B ^ Suc j \<le> unat v"
    proof (cases "j = 0")
      case False
      then have "?B ^ j * ?B \<le> unat v div ?B * ?B" using j(4) by simp
      also have "\<dots> \<le> unat v" by simp
      finally show ?thesis by (simp add: mult.commute)
    qed (use ge in simp)
    ultimately show ?thesis using j by (intro exI [of _ "Suc j"]) (simp add: mult.commute mult.left_commute)
  qed
qed

lemma log_digit_char: "unat q < 16 \<Longrightarrow> log_digit upper q = digit_chars upper ! unat q"
proof -
  assume q: "unat q < 16"
  obtain n where n: "ucast q = (of_nat n :: alt_u8)" "n = unat q" "n < 16"
    using q by (metis of_nat_unat)
  from n(3) have "n \<in> set [0..<16]" by simp
  then show ?thesis unfolding log_digit_def n(1) unfolding n(2) [symmetric]
    by (cases upper) (auto simp: upt_conv_Cons digit_chars_def char_of_def bit_Suc_0_iff)
qed

lemma log_digits_spec:
  "unat p = base_val b ^ j \<Longrightarrow> unat v < base_val b ^ Suc j \<Longrightarrow>
   digits_val (base_val b) (log_digits b upper p v) = unat v \<and> length (log_digits b upper p v) = Suc j \<and>
   set (log_digits b upper p v) \<subseteq> set (take (base_val b) (digit_chars upper)) \<and>
   (base_val b ^ j \<le> unat v \<longrightarrow> hd (log_digits b upper p v) \<noteq> CHR ''0'')"
proof (induction j arbitrary: p v)
  case 0
  then have p: "p = 1" by (simp add: word_unat_eq_iff)
  have "1 div (of_nat (base_val b) :: alt_u32) = 0"
    using base_word [of b] by (simp add: word_unat_eq_iff unat_div)
  then have e: "log_digits b upper p v = [log_digit upper v]"
    unfolding p by (simp add: log_digits.simps [of b upper 1] log_digits.simps [of b upper 0])
  have "unat v < base_val b" "unat v < 16" using 0 base_word(3) [of b] by simp_all
  then show ?case
    unfolding e using log_digit_char [of v upper] digit_chars_val [of "unat v" upper] digit_chars_zero [of "unat v" upper]
      base_word(3) [of b]
    by (auto simp: digits_val_Cons in_set_conv_nth intro!: exI [of _ "unat v"])
next
  case (Suc j)
  let ?B = "base_val b" and ?q = "v div p" and ?r = "v mod p" and ?p = "p div of_nat (base_val b)"
  have B: "0 < ?B" "?B \<le> 16" using base_word(2,3) [of b] by simp_all
  have p0: "p \<noteq> 0" using Suc.prems(1) B by auto
  have up: "unat ?p = ?B ^ j" using Suc.prems(1) base_word(1) [of b] B by (simp add: unat_div)
  have uq: "unat ?q = unat v div ?B ^ Suc j" "unat ?r = unat v mod ?B ^ Suc j"
    using Suc.prems(1) by (simp_all add: unat_div unat_mod)
  have lt: "unat v div ?B ^ Suc j < ?B" using Suc.prems(2) B by (simp add: less_mult_imp_div_less mult.commute)
  then have lt': "unat v div ?B ^ Suc j < 16" using B(2) by linarith
  have c: "log_digit upper ?q = digit_chars upper ! (unat v div ?B ^ Suc j)"
    using log_digit_char [of ?q upper] uq(1) lt' by simp
  have d: "digit_val (log_digit upper ?q) = unat v div ?B ^ Suc j" unfolding c by (rule digit_chars_val [OF lt'])
  have m: "log_digit upper ?q \<in> set (take ?B (digit_chars upper))"
    unfolding c using lt B by (auto simp: in_set_conv_nth intro!: exI [of _ "unat v div ?B ^ Suc j"])
  have "unat ?r < ?B ^ Suc j" using uq B by simp
  note ih = Suc.IH [OF up this]
  have e: "log_digits b upper p v = log_digit upper ?q # log_digits b upper ?p ?r"
    using p0 by (simp add: log_digits.simps [of b upper p])
  have "digits_val ?B (log_digits b upper p v) = unat v div ?B ^ Suc j * ?B ^ Suc j + unat v mod ?B ^ Suc j"
    unfolding e using ih d uq by (simp add: digits_val_Cons)
  moreover have "log_digit upper ?q \<noteq> CHR ''0''" if "?B ^ Suc j \<le> unat v"
  proof -
    have "unat v div ?B ^ Suc j \<noteq> 0" using that B by (simp add: div_eq_0_iff not_less)
    then show ?thesis unfolding c using digit_chars_zero [OF lt'] by simp
  qed
  ultimately show ?case using ih m unfolding e by (simp add: div_mult_mod_eq del: power_Suc)
qed

text \<open>Magnitude and sign of an argument.\<close>

definition log_negative :: "pf \<Rightarrow> alt_u32 \<Rightarrow> bool" where
  "log_negative f v \<longleftrightarrow> fmtSigned f \<and> sint v < 0"

definition log_magnitude :: "pf \<Rightarrow> alt_u32 \<Rightarrow> nat" where
  "log_magnitude f v = (if log_negative f v then nat (- sint v) else unat v)"

lemma sign_bit: "v AND 0x80000000 \<noteq> 0 \<longleftrightarrow> sint v < 0" for v :: alt_u32
proof -
  have "(0x80000000 :: alt_u32) = push_bit 31 1" by simp
  then have "v AND 0x80000000 \<noteq> 0 \<longleftrightarrow> bit v 31" using and_single_eq_0 [of 31 v] by (simp del: push_bit_of_1)
  then show ?thesis using bit_last_iff [of v] by simp
qed

lemma negate_word: "sint v < 0 \<Longrightarrow> unat (NOT v + 1) = nat (- sint v)" for v :: alt_u32
proof -
  assume neg: "sint v < 0"
  have u: "uint v = sint v + 2 ^ 32" using neg sint_signed32 [of v] by (auto split: if_splits)
  have "NOT v + 1 = - v" by (simp add: minus_eq_not_plus_1)
  moreover have "uint (- v) = (- uint v) mod 2 ^ 32" by (simp add: uint_word_ariths)
  moreover have "(- (sint v + 2 ^ 32)) mod 2 ^ 32 = (- sint v :: int)"
    using neg sint_range32 [of v] by (simp add: minus_add_distrib mod_pos_pos_trivial)
  ultimately have "uint (NOT v + 1) = - sint v" using u by simp
  then show ?thesis by (metis nat_uint_eq)
qed

text \<open>The text of the argument: its magnitude's numeral in the conversion's base and case.\<close>

definition log_numeral :: "pf \<Rightarrow> alt_u32 \<Rightarrow> string" where
  "log_numeral f v = numeral_in (base_val (fmtBase f)) (fmtCase f) (log_magnitude f v)"

lemma log_integer_text:
  "log_integer f v =
     (let ds = log_numeral f v; s = (if log_negative f v then ''-'' else []);
          n = nat (fmtBeforeDecimal f - int (length ds) - int (length s))
      in (if fmtLeadingZero f then s @ replicate n (CHR ''0'') else replicate n (CHR '' '') @ s) @ ds)"
proof -
  define w where "w = (if log_negative f v then NOT v + 1 else v)"
  obtain p c where pc: "count_digits (fmtBase f) w 1 1 = (p, c)" by force
  have u: "unat w = log_magnitude f v"
    using negate_word by (auto simp: w_def log_magnitude_def log_negative_def)
  have "unat (1 :: alt_u32) * unat w < 2 ^ 32" using unat32_lt [of w] by simp
  from count_digits_spec [OF this _ pc] obtain j where
    j: "c = 1 + int j" "unat p = base_val (fmtBase f) ^ j" "unat w < base_val (fmtBase f) ^ Suc j"
      "0 < j \<longrightarrow> base_val (fmtBase f) ^ j \<le> unat w" by auto
  define ds where "ds = log_digits (fmtBase f) (fmtCase f) p w"
  from log_digits_spec [OF j(2,3), of "fmtCase f"] have
    d: "digits_val (base_val (fmtBase f)) ds = unat w" "length ds = Suc j"
      "set ds \<subseteq> set (take (base_val (fmtBase f)) (digit_chars (fmtCase f)))"
      "base_val (fmtBase f) ^ j \<le> unat w \<longrightarrow> hd ds \<noteq> CHR ''0''" by (simp_all add: ds_def)
  have "hd ds \<noteq> CHR ''0'' \<or> length ds = 1" using d(2,4) j(4) by (cases "j = 0") auto
  moreover have "ds \<noteq> []" using d(2) by auto
  ultimately have ds: "ds = log_numeral f v"
    using numeral_in_unique [OF _ base_word(3) d(3)] base_word(2) [of "fmtBase f"] d(1,2) u by (auto simp: log_numeral_def)
  have "log_integer f v = (if fmtLeadingZero f
      then (if log_negative f v then ''-'' else []) @ alt_log_repchar (CHR ''0'') (if log_negative f v then fmtBeforeDecimal f - c - 1 else fmtBeforeDecimal f - c)
      else alt_log_repchar (CHR '' '') (if log_negative f v then fmtBeforeDecimal f - c - 1 else fmtBeforeDecimal f - c) @
        (if log_negative f v then ''-'' else [])) @ ds"
    using pc unfolding log_integer_def Let_def sign_bit log_negative_def [symmetric] w_def [symmetric] ds_def by simp
  then show ?thesis
    using d(2) j(1) unfolding ds by (auto simp: alt_log_repchar_def Let_def algebra_simps)
qed

section \<open>What the format parser does\<close>

text \<open>Between conversions the fields do not matter: a percent sign resets them.\<close>

lemma pf_run_fields: "pf_run w Chars f args = pf_run w Chars g args"
proof (induction w arbitrary: args)
  case (Cons c w)
  show ?case using Cons by (cases "c = CHR ''%''") (simp_all add: pf_step_def)
qed simp

definition is_digit :: "char \<Rightarrow> bool" where
  "is_digit c \<longleftrightarrow> CHR ''0'' \<le> c \<and> c \<le> CHR ''9''"

lemma is_digit_val: "is_digit c \<Longrightarrow> int (digit_val c) = of_char c - 48 \<and> c \<noteq> CHR ''.'' \<and> digit_val c \<le> 9"
proof -
  assume c: "is_digit c"
  then have r: "48 \<le> (of_char c :: nat)" "(of_char c :: nat) \<le> 57" by (simp_all add: is_digit_def less_eq_char_def)
  have "int (of_char c) = of_char c" by (rule of_nat_of_char)
  then show ?thesis using c r unfolding is_digit_def digit_val_def by auto
qed

definition dec_from :: "nat \<Rightarrow> string \<Rightarrow> nat" where
  "dec_from n ws = foldl (\<lambda>a c. a * 10 + digit_val c) n ws"

lemma dec_from_ge: "n \<le> dec_from n ws"
proof (induction ws arbitrary: n)
  case (Cons c ws)
  have "n \<le> n * 10 + digit_val c" by simp
  also have "\<dots> \<le> dec_from (n * 10 + digit_val c) ws" by (rule Cons)
  finally show ?case by (simp add: dec_from_def)
qed (simp add: dec_from_def)

lemma width_digits:
  assumes "list_all is_digit ws" "fmtAfterDecimal f < 0" "fmtBeforeDecimal f = int n" "int (dec_from n ws) \<le> INT_MAX"
  shows "pf_run (ws @ w) OtherFmtChar f args = pf_run w OtherFmtChar (f\<lparr>fmtBeforeDecimal := int (dec_from n ws)\<rparr>) args"
  using assms
proof (induction ws arbitrary: f n)
  case Nil
  then have "f\<lparr>fmtBeforeDecimal := int (dec_from n [])\<rparr> = f" by (simp add: dec_from_def)
  then show ?case by simp
next
  case (Cons c ws)
  let ?m = "n * 10 + digit_val c"
  have d: "is_digit c" "dec_from n (c # ws) = dec_from ?m ws" using Cons.prems by (simp_all add: dec_from_def)
  have le: "int ?m \<le> INT_MAX" using dec_from_ge [of ?m ws] Cons.prems(4) d(2) by simp
  then have "c_mul (int n) 10 = Inr (int n * 10)" "c_add (int n * 10) (int (digit_val c)) = Inr (int ?m)"
    by (simp_all add: c_mul_def c_add_def c_int_def int_ok_def)
  then have "pf_step OtherFmtChar c f args = Inr ([], OtherFmtChar, f\<lparr>fmtBeforeDecimal := int ?m\<rparr>, args)"
    using Cons.prems is_digit_val [OF d(1)] d(1)
    by (simp add: pf_step_def other_char_def is_digit_def width_digit_def)
  moreover have "pf_run (ws @ w) OtherFmtChar (f\<lparr>fmtBeforeDecimal := int ?m\<rparr>) args =
      pf_run w OtherFmtChar (f\<lparr>fmtBeforeDecimal := int ?m\<rparr>\<lparr>fmtBeforeDecimal := int (dec_from ?m ws)\<rparr>) args"
    using Cons.prems d by (intro Cons.IH) simp_all
  ultimately show ?case using d(2) by (simp add: emit_def res_bind_def split: sum.split)
qed

text \<open>The six integer conversions and the fields they set.\<close>

definition conversion :: "char \<Rightarrow> pf \<Rightarrow> pf option" where
  "conversion c f =
     (if c = CHR ''d'' \<or> c = CHR ''i'' then Some f
      else if c = CHR ''u'' then Some (f\<lparr>fmtSigned := False\<rparr>)
      else if c = CHR ''o'' then Some (f\<lparr>fmtSigned := False, fmtBase := Base8\<rparr>)
      else if c = CHR ''x'' then Some (f\<lparr>fmtSigned := False, fmtBase := Base16\<rparr>)
      else if c = CHR ''X'' then Some (f\<lparr>fmtSigned := False, fmtBase := Base16, fmtCase := True\<rparr>)
      else None)"

lemma conversion_run:
  assumes "conversion c f = Some g" "state = OtherFmtChar \<or> state = FirstFmtChar"
  shows "pf_run (c # w) state f (Va_Int v # args) = emit (log_integer g v) (alt_log_private_printf w args)"
proof -
  have c: "c = CHR ''d'' \<or> c = CHR ''i'' \<or> c = CHR ''u'' \<or> c = CHR ''o'' \<or> c = CHR ''x'' \<or> c = CHR ''X''"
    using assms(1) by (auto simp: conversion_def split: if_splits)
  have "other_char c f (Va_Int v # args) = do_integer g (Va_Int v # args)"
    using c assms(1) by (elim disjE) (simp_all add: other_char_def conversion_def less_eq_char_def)
  moreover have "pf_step state c f (Va_Int v # args) = other_char c f (Va_Int v # args)"
    using c assms(2) by (elim disjE) (simp_all add: pf_step_def)
  ultimately show ?thesis
    using pf_run_fields [of w g args pf_reset]
    by (simp add: do_integer_def va_int_def alt_log_private_printf_def)
qed

lemma width_parse:
  assumes "list_all is_digit ws" "ws = [] \<or> z \<or> hd ws \<noteq> CHR ''0''" "int (dec_from 0 ws) \<le> INT_MAX"
    "conversion c (pf_reset\<lparr>fmtLeadingZero := z, fmtBeforeDecimal := if ws = [] then - 1 else int (dec_from 0 ws)\<rparr>) = Some g"
  shows "alt_log_private_printf (''%'' @ (if z then ''0'' else []) @ ws @ c # w) (Va_Int v # args) =
    emit (log_integer g v) (alt_log_private_printf w args)"
proof -
  let ?f = "pf_reset\<lparr>fmtLeadingZero := z\<rparr>"
  let ?st = "if z then OtherFmtChar else FirstFmtChar"
  have f0: "pf_reset\<lparr>fmtLeadingZero := False\<rparr> = pf_reset" by (simp add: pf_reset_def)
  have start: "alt_log_private_printf (''%'' @ (if z then ''0'' else []) @ ws @ c # w) (Va_Int v # args) =
      pf_run (ws @ c # w) ?st ?f (Va_Int v # args)"
    using f0 by (cases z) (simp_all add: alt_log_private_printf_def pf_step_def emit_def res_bind_def split: sum.split)
  show ?thesis
  proof (cases ws)
    case Nil
    then have "conversion c ?f = Some g" using assms(4) by (simp add: pf_reset_def)
    from conversion_run [OF this] show ?thesis unfolding start using Nil by simp
  next
    case (Cons d ds)
    have d: "is_digit d" using assms(1) Cons by simp
    have le: "int (dec_from (digit_val d) ds) \<le> INT_MAX" using assms(3) Cons by (simp add: dec_from_def)
    have "other_char d ?f (Va_Int v # args) =
        Inr ([], OtherFmtChar, ?f\<lparr>fmtBeforeDecimal := int (digit_val d)\<rparr>, Va_Int v # args)"
      using is_digit_val [OF d] d
      by (simp add: other_char_def is_digit_def width_digit_def pf_reset_def c_add_def c_int_def int_ok_def)
    moreover have "pf_step ?st d ?f (Va_Int v # args) = other_char d ?f (Va_Int v # args)"
      using assms(2) Cons d by (cases z) (auto simp: pf_step_def is_digit_def less_eq_char_def)
    ultimately have "pf_run (ws @ c # w) ?st ?f (Va_Int v # args) =
        pf_run (ds @ c # w) OtherFmtChar (?f\<lparr>fmtBeforeDecimal := int (digit_val d)\<rparr>) (Va_Int v # args)"
      using Cons by (simp add: emit_def res_bind_def split: sum.split)
    also have "\<dots> = pf_run (c # w) OtherFmtChar (?f\<lparr>fmtBeforeDecimal := int (digit_val d)\<rparr>\<lparr>fmtBeforeDecimal := int (dec_from (digit_val d) ds)\<rparr>) (Va_Int v # args)"
      using assms(1) Cons le by (intro width_digits) (simp_all add: pf_reset_def)
    also have "\<dots> = emit (log_integer g v) (alt_log_private_printf w args)"
      using assms(4) Cons by (intro conversion_run) (simp_all add: dec_from_def)
    finally show ?thesis unfolding start .
  qed
qed

section \<open>Sending it out\<close>

text \<open>
  \<open>alt_log_txchar\<close> waits for space in the device's FIFO, as the host lets it (\<open>env\<close>), and
  writes the character. \<open>None\<close>: it waits for ever.
\<close>

partial_function (option) alt_log_txchar ::
    "(nat \<Rightarrow> juart \<Rightarrow> juart) \<Rightarrow> char \<Rightarrow> nat \<Rightarrow> juart \<Rightarrow> (nat \<times> juart) option" where
  "alt_log_txchar env c k h =
     (let h = env k h
      in if rd_control h AND WSPACE_MSK = 0 then alt_log_txchar env c (k + 1) h
         else Some (k + 1, wr_data (of_char c) h))"

fun log_transmit :: "(nat \<Rightarrow> juart \<Rightarrow> juart) \<Rightarrow> string \<Rightarrow> nat \<Rightarrow> juart \<Rightarrow> (nat \<times> juart) option" where
  "log_transmit env [] k h = Some (k, h)"
| "log_transmit env (c # out) k h = Option.bind (alt_log_txchar env c k h) (\<lambda>(k, h). log_transmit env out k h)"

definition alt_log_printf_proc ::
    "(nat \<Rightarrow> juart \<Rightarrow> juart) \<Rightarrow> string \<Rightarrow> va_arg list \<Rightarrow> nat \<Rightarrow> juart \<Rightarrow> (int \<times> nat \<times> juart) option c_res" where
  "alt_log_printf_proc env fmt args k h =
     res_bind (alt_log_private_printf fmt args) (\<lambda>out.
       Inr (map_option (\<lambda>(k, h). (0, k, h)) (log_transmit env out k h)))"

section \<open>The messages\<close>

text \<open>The flags, and their values for each level of \<open>ALT_LOG_FLAGS\<close> in a system with the JTAG UART.\<close>

record alt_log =
  alt_log_boot_on_flag :: alt_u32
  alt_log_write_on_flag :: alt_u8
  alt_log_sys_clk_on_flag :: alt_u8
  alt_log_jtag_uart_alarm_on_flag :: alt_u8
  alt_log_jtag_uart_isr_on_flag :: alt_u8
  alt_log_jtag_uart_startup_info_on_flag :: alt_u8
  alt_log_sys_clk_count :: int
  alt_system_clock_in_sec :: int

definition alt_log_settings :: "int \<Rightarrow> alt_log" where
  "alt_log_settings flags =
     \<lparr>alt_log_boot_on_flag = (if flags = - 1 then 0 else 1),
      alt_log_write_on_flag = (if flags \<in> {2, 3} then 1 else 0),
      alt_log_sys_clk_on_flag = (if flags \<in> {1, 2, 3} then 1 else 0),
      alt_log_jtag_uart_alarm_on_flag = (if flags \<in> {2, 3} then 1 else 0),
      alt_log_jtag_uart_isr_on_flag = (if flags = 3 then 1 else 0),
      alt_log_jtag_uart_startup_info_on_flag = (if flags \<in> {1, 2, 3} then 1 else 0),
      alt_log_sys_clk_count = 0, alt_system_clock_in_sec = 0\<rparr>"

definition crlf :: string where
  "crlf = [CHR 0x0D, CHR 0x0A]"

definition alt_log_jtag_uart_print_control_reg ::
    "(nat \<Rightarrow> juart \<Rightarrow> juart) \<Rightarrow> string \<Rightarrow> nat \<Rightarrow> uart \<Rightarrow> (nat \<times> uart) option c_res" where
  "alt_log_jtag_uart_print_control_reg env header k s =
     (let control = rd_control (hw s);
          space = drop_bit 16 (control AND WSPACE_MSK);
          we = drop_bit 1 (control AND WE_MSK);
          re = control AND RE_MSK;
          ri = drop_bit 8 (control AND RI_MSK);
          wi = drop_bit 9 (control AND WI_MSK);
          ac = drop_bit 10 (control AND AC_MSK)
      in res_bind (alt_log_printf_proc env
           (''%s SW CirBuf = %d, HW FIFO wspace=%d AC=%d WI=%d RI=%d WE=%d RE=%d'' @ crlf)
           [Va_Str header, Va_Int (of_nat (tx_out (sp s)) - of_nat (tx_in (sp s))), Va_Int space,
            Va_Int ac, Va_Int wi, Va_Int ri, Va_Int we, Va_Int re] k (hw s)) (\<lambda>r.
         Inr (map_option (\<lambda>(rc, k, h). (k, s\<lparr>hw := h\<rparr>)) r)))"

definition alt_log_jtag_uart_startup_info ::
    "(nat \<Rightarrow> juart \<Rightarrow> juart) \<Rightarrow> nat \<Rightarrow> uart \<Rightarrow> (nat \<times> uart) option c_res" where
  "alt_log_jtag_uart_startup_info env k s = alt_log_jtag_uart_print_control_reg env ''JTAG Startup Info:'' k s"

definition alt_log_jtag_uart_isr_proc ::
    "alt_log \<Rightarrow> (nat \<Rightarrow> juart \<Rightarrow> juart) \<Rightarrow> nat \<Rightarrow> uart \<Rightarrow> (nat \<times> uart) option c_res" where
  "alt_log_jtag_uart_isr_proc l env k s =
     (if alt_log_jtag_uart_isr_on_flag l \<noteq> 0 then alt_log_jtag_uart_print_control_reg env ''JTAG IRQ:'' k s
      else Inr (Some (k, s)))"

text \<open>The result of the alarm callback is the ticks to its next call, a tenth of a second.\<close>

definition altera_avalon_jtag_uart_report_log ::
    "alt_log \<Rightarrow> alt_u32 \<Rightarrow> (nat \<Rightarrow> juart \<Rightarrow> juart) \<Rightarrow> nat \<Rightarrow> uart \<Rightarrow> (alt_u32 \<times> nat \<times> uart) option c_res" where
  "altera_avalon_jtag_uart_report_log l rate env k s =
     (if alt_log_jtag_uart_alarm_on_flag l \<noteq> 0 then
        res_bind (alt_log_jtag_uart_print_control_reg env ''JTAG Alarm:'' k s) (\<lambda>r.
          Inr (map_option (\<lambda>(k, s). (rate div 10, k, s)) r))
      else Inr (Some (0, k, s)))"

text \<open>The echo of \<open>write\<close>: \<open>buf\<close> is \<open>alt_log_write_buf\<close>, read back as a C string.\<close>

abbreviation (input) ALT_LOG_WRITE_ECHO_LEN :: nat where "ALT_LOG_WRITE_ECHO_LEN \<equiv> 15"

definition c_strncpy :: "string \<Rightarrow> nat \<Rightarrow> string" where
  "c_strncpy s n = take n (takeWhile (\<lambda>c. c \<noteq> CHR 0x00) s @ replicate n (CHR 0x00))"

definition alt_log_write :: "alt_log \<Rightarrow> string \<Rightarrow> nat \<Rightarrow> string c_res" where
  "alt_log_write l ptr len =
     (if alt_log_write_on_flag l \<noteq> 0 then
        (let length = (if len < ALT_LOG_WRITE_ECHO_LEN then len else ALT_LOG_WRITE_ECHO_LEN)
         in if length < 2 then Inr []
            else (let buf = (c_strncpy ptr length)[length - 1 := CHR 0x0A] @ [CHR 0x0D, CHR 0x00];
                      buf = map (\<lambda>c. if c = CHR 0x04 then CHR ''D'' else c) (take length buf) @ drop length buf
                  in alt_log_private_printf ''Write Echo: %s'' [Va_Str (takeWhile (\<lambda>c. c \<noteq> CHR 0x00) buf)]))
      else Inr [])"

text \<open>The heartbeat, called at every tick; \<open>rate\<close> is \<open>ALT_LOG_SYS_CLK_INTERVAL\<close>.\<close>

definition alt_log_system_clock :: "alt_u32 \<Rightarrow> alt_log \<Rightarrow> (string \<times> alt_log) c_res" where
  "alt_log_system_clock rate l =
     (if alt_log_sys_clk_on_flag l \<noteq> 0 then
        res_bind (c_add (alt_log_sys_clk_count l) 1) (\<lambda>n.
          let l = l\<lparr>alt_log_sys_clk_count := n\<rparr>
          in if rate < word_of_int n then
               (let l = l\<lparr>alt_log_sys_clk_count := 0\<rparr>; sec = alt_system_clock_in_sec l
                in res_bind (c_add sec 1) (\<lambda>sec'.
                   res_bind (alt_log_private_printf (''System Clock On %u'' @ crlf) [Va_Int (word_of_int sec)]) (\<lambda>out.
                     Inr (out, l\<lparr>alt_system_clock_in_sec := sec'\<rparr>))))
             else Inr ([], l))
      else Inr ([], l))"

fun log_ticks :: "alt_u32 \<Rightarrow> nat \<Rightarrow> alt_log \<Rightarrow> (nat \<times> alt_log) c_res" where
  "log_ticks rate 0 l = Inr (0, l)"
| "log_ticks rate (Suc n) l =
     res_bind (alt_log_system_clock rate l) (\<lambda>(out, l).
     res_bind (log_ticks rate n l) (\<lambda>(k, l). Inr (if out = [] then k else Suc k, l)))"

text \<open>Plain text goes through the formatter as it is.\<close>

lemma log_plain: "list_all (\<lambda>c. c \<noteq> CHR ''%'') s \<Longrightarrow> pf_run (s @ w) Chars f args = emit s (pf_run w Chars f args)"
proof (induction s)
  case Nil
  then show ?case by (simp add: emit_def res_bind_def split: sum.split)
next
  case (Cons c s)
  then show ?case by (simp add: pf_step_def emit_def res_bind_def split: sum.split)
qed

lemma log_string: "pf_run (''%s'' @ w) Chars f (Va_Str s # args) =
    emit (alt_log_repchar (CHR '' '') (sint (word_of_int (- 1 - int (length s)) :: alt_u32)) @ s) (pf_run w Chars pf_reset args)"
  using pf_run_fields [of w pf_reset args] by (simp add: pf_step_def other_char_def less_eq_char_def va_str_def pf_reset_def
      emit_def res_bind_def split: sum.split)

lemma log_txchar_step:
  assumes "alt_log_txchar (host_env script) c k h = Some (k', h')"
    and "length (rfifo h) \<le> FIFO_LEN" "length (wfifo h) \<le> FIFO_LEN"
  shows "juart_step [] [of_char c] h h'"
proof -
  have "e = host_env script \<longrightarrow> length (rfifo h) \<le> FIFO_LEN \<longrightarrow> length (wfifo h) \<le> FIFO_LEN \<longrightarrow>
      juart_step [] [of_char c] h (snd r)"
    if "alt_log_txchar e c k h = Some r" for e c k h r
  proof (rule alt_log_txchar.raw_induct [OF _ that], goal_cases)
    case (1 w e c k h r)
    show ?case
    proof (intro impI)
      assume e: "e = host_env script" and len: "length (rfifo h) \<le> FIFO_LEN" "length (wfifo h) \<le> FIFO_LEN"
      define g where "g = host_env script k h"
      have hg: "juart_step [] [] h g" unfolding g_def by (rule host_env_step [OF len])
      note bd = juart_step_bounds [OF hg]
      show "juart_step [] [of_char c] h (snd r)"
      proof (cases "length (wfifo g) < FIFO_LEN")
        case True
        then have "r = (k + 1, wr_data (of_char c) g)"
          using 1(2) unfolding e by (simp add: Let_def g_def control_bits flip: not_less)
        moreover have "juart_step [] [of_char c] g (wr_data (of_char c) g)" using True bd by (intro wr_data_step) simp_all
        ultimately show ?thesis using juart_step_trans [OF hg] by force
      next
        case False
        then have w: "w e c (k + 1) g = Some r" using 1(2) unfolding e by (simp add: Let_def g_def control_bits flip: not_less)
        from 1(1) [OF w] e bd have "juart_step [] [of_char c] g (snd r)" by blast
        from juart_step_trans [OF hg this] show ?thesis by simp
      qed
    qed
  qed
  from this [OF assms(1)] assms(2,3) show ?thesis by simp
qed

lemma log_transmit_step:
  "log_transmit (host_env script) out k h = Some (k', h') \<Longrightarrow> length (rfifo h) \<le> FIFO_LEN \<Longrightarrow>
   length (wfifo h) \<le> FIFO_LEN \<Longrightarrow> juart_step [] (map of_char out) h h'"
proof (induction out arbitrary: k h)
  case (Cons c out)
  then obtain k1 h1 where t: "alt_log_txchar (host_env script) c k h = Some (k1, h1)"
      "log_transmit (host_env script) out k1 h1 = Some (k', h')" by (auto simp: bind_eq_Some_conv)
  from log_txchar_step [OF t(1) Cons.prems(2,3)] have st: "juart_step [] [of_char c] h h1" .
  with juart_step_bounds [OF st] Cons.IH [OF t(2)] juart_step_trans [OF st] show ?case by force
qed (simp add: juart_step_def)

section \<open>Properties\<close>

text \<open>
  C38. Numbers in the log. An integer conversion with any width (written without a leading
  zero, or after the zero flag, and at most the largest \<open>int\<close>) prints the numeral of the
  argument's magnitude in the conversion's base and case, which has only digits below the base
  and no leading zero, after a minus sign for a negative argument of \<open>d\<close> and \<open>i\<close>, padded on the
  left to the width with blanks before the sign or zeros after it, for every 32-bit value
  including the least one; the formatter then goes on with the rest of the format and of the
  arguments.
\<close>

theorem log_printf_integer:
  assumes ws: "list_all is_digit ws" "ws = [] \<or> z \<or> hd ws \<noteq> CHR ''0''" "int (dec_from 0 ws) \<le> INT_MAX"
    and conv: "conversion c (pf_reset\<lparr>fmtLeadingZero := z, fmtBeforeDecimal := if ws = [] then - 1 else int (dec_from 0 ws)\<rparr>) = Some g"
  shows "let ds = log_numeral g v; b = base_val (fmtBase g); s = (if log_negative g v then ''-'' else []);
        n = dec_from 0 ws - length ds - length s
    in alt_log_private_printf (''%'' @ (if z then ''0'' else []) @ ws @ c # w) (Va_Int v # args) =
         emit ((if z then s @ replicate n (CHR ''0'') else replicate n (CHR '' '') @ s) @ ds) (alt_log_private_printf w args) \<and>
       digits_val b ds = log_magnitude g v \<and> set ds \<subseteq> set (take b (digit_chars (fmtCase g))) \<and>
       (log_magnitude g v \<noteq> 0 \<longrightarrow> hd ds \<noteq> CHR ''0'')"
proof -
  have g: "fmtLeadingZero g = z" "fmtBeforeDecimal g = (if ws = [] then - 1 else int (dec_from 0 ws))"
    using conv by (auto simp: conversion_def split: if_splits)
  have "nat (fmtBeforeDecimal g - int k - int l) = dec_from 0 ws - k - l" for k l
    using g(2) by (auto simp: dec_from_def)
  then show ?thesis
    using width_parse [OF assms] log_integer_text [of g v] base_word(2,3) [of "fmtBase g"]
      numeral_in_spec [of "base_val (fmtBase g)" "fmtCase g" "log_magnitude g v"]
    unfolding g(1) Let_def by (simp add: log_numeral_def)
qed

theorem log_printf_integer_witness:
  "alt_log_private_printf ''%5d!'' [Va_Int (- 42)] = Inr ''  -42!''"
proof -
  define g where "g = pf_reset\<lparr>fmtLeadingZero := False, fmtBeforeDecimal := int (dec_from 0 ''5'')\<rparr>"
  have ok: "list_all is_digit ''5''" "''5'' = [] \<or> False \<or> hd ''5'' \<noteq> CHR ''0''" "int (dec_from 0 ''5'') \<le> INT_MAX"
    "conversion CHR ''d'' (pf_reset\<lparr>fmtLeadingZero := False, fmtBeforeDecimal := if ''5'' = [] then - 1 else int (dec_from 0 ''5'')\<rparr>) = Some g"
    by (simp_all add: is_digit_def less_eq_char_def dec_from_def digit_val_def conversion_def g_def)
  have n: "log_negative g (- 42)" "log_magnitude g (- 42) = 42" "fmtBase g = Base10" "fmtCase g = False" "dec_from 0 ''5'' = 5"
    by (simp_all add: log_negative_def log_magnitude_def g_def dec_from_def digit_val_def less_eq_char_def)
      (simp_all add: pf_reset_def)
  have "log_numeral g (- 42) = ''42''"
    unfolding log_numeral_def n
    by (simp add: base_val_def numeral_in.simps [of 10 False 42] numeral_in.simps [of 10 False 4] digit_chars_def)
  moreover have "alt_log_private_printf ''!'' [] = Inr ''!''" by (simp add: alt_log_private_printf_def pf_step_def)
  ultimately show ?thesis
    using log_printf_integer [OF ok, of "- 42" "''!''" "[]"] n by (simp add: Let_def numeral_2_eq_2)
qed

text \<open>
  The echo of \<open>write\<close>. With echoing on, a write of at least two characters is logged as
  a line with \<open>Write Echo:\<close>, the first 14 of its characters, but never its last one, with
  control-D made harmless, and a line end; what the polling transmitter sends of a log line
  arrives in the stream to the host, complete and in order. (The comment promises the first
  \<open>ALT_LOG_WRITE_ECHO_LEN\<close>, 15, characters.)
\<close>

theorem write_echo:
  assumes on: "alt_log_write_on_flag l \<noteq> 0" and len: "2 \<le> len" "len = length ptr" "c_string ptr"
    and h: "length (rfifo h) \<le> FIFO_LEN" "length (wfifo h) \<le> FIFO_LEN"
  shows "\<exists>out. alt_log_write l ptr len = Inr out \<and>
    out = ''Write Echo: '' @ map (\<lambda>c. if c = CHR 0x04 then CHR ''D'' else c) (take (min (ALT_LOG_WRITE_ECHO_LEN - 1) (len - 1)) ptr) @
      [CHR 0x0A, CHR 0x0D] \<and>
    (\<forall>k'. log_transmit (host_env script) out k h = Some (k', h') \<longrightarrow>
      shown h' @ wfifo h' = shown h @ wfifo h @ map of_char out)"
proof -
  define n where "n = (if len < ALT_LOG_WRITE_ECHO_LEN then len else ALT_LOG_WRITE_ECHO_LEN)"
  let ?esc = "\<lambda>c. if c = CHR 0x04 then CHR ''D'' else c"
  let ?s = "map ?esc (take (n - 1) ptr) @ [CHR 0x0A, CHR 0x0D]"
  have n: "2 \<le> n" "n \<le> length ptr" "n - 1 = min (ALT_LOG_WRITE_ECHO_LEN - 1) (len - 1)" using len by (auto simp: n_def)
  have nul: "c \<noteq> CHR 0x00" if "c \<in> set ptr" for c using that len(3) by (auto simp: c_string_def)
  then have tw: "takeWhile (\<lambda>c. c \<noteq> CHR 0x00) ptr = ptr" by (simp add: takeWhile_eq_all_conv)
  have cp: "c_strncpy ptr n = take n ptr" unfolding c_strncpy_def tw using n by simp
  have t: "take n ptr = take (n - 1) ptr @ [ptr ! (n - 1)]"
    using n(1,2) take_Suc_conv_app_nth [of "n - 1" ptr] by simp
  have b: "(take n ptr)[n - 1 := CHR 0x0A] = take (n - 1) ptr @ [CHR 0x0A]"
    unfolding t using n by (simp add: list_update_append)
  let ?buf = "(c_strncpy ptr n)[n - 1 := CHR 0x0A] @ [CHR 0x0D, CHR 0x00]"
  have "map ?esc (take n ?buf) @ drop n ?buf = ?s @ [CHR 0x00]"
    unfolding cp b using n(1,2) by simp
  moreover have "c \<noteq> CHR 0x00" if "c \<in> set ?s" for c
    using that nul by (auto dest!: in_set_takeD split: if_splits)
  then have "takeWhile (\<lambda>c. c \<noteq> CHR 0x00) (?s @ [CHR 0x00]) = ?s" by (subst takeWhile_append2) simp_all
  moreover have "alt_log_private_printf ''Write Echo: %s'' [Va_Str ?s] = Inr (''Write Echo: '' @ ?s)"
  proof -
    have len_s: "length ?s \<le> 16" using n(3) by simp
    have "sint (word_of_int (- 1 - int (length ?s)) :: alt_u32) = - 1 - int (length ?s)"
      by (rule sint_word_of_int32) (use len_s in simp_all)
    then have "alt_log_repchar (CHR '' '') (sint (word_of_int (- 1 - int (length ?s)) :: alt_u32)) = []"
      by (simp add: alt_log_repchar_def)
    then show ?thesis
      using log_plain [of "''Write Echo: ''" "''%s''" pf_reset "[Va_Str ?s]"] log_string [of "[]" pf_reset ?s "[]"]
      by (simp add: alt_log_private_printf_def)
  qed
  ultimately have "alt_log_write l ptr len = Inr (''Write Echo: '' @ ?s)"
    using on n(1) unfolding alt_log_write_def Let_def n_def [symmetric] by simp
  moreover have "shown h' @ wfifo h' = shown h @ wfifo h @ map of_char out"
    if "log_transmit (host_env script) out k h = Some (k', h')" for out k'
    using log_transmit_step [OF that h] by (simp add: juart_step_def)
  ultimately show ?thesis unfolding n(3) [symmetric] by blast
qed

theorem write_echo_witness:
  "alt_log_write (alt_log_settings 2) ''hello'' 5 = Inr (''Write Echo: hell'' @ [CHR 0x0A, CHR 0x0D])"
  using write_echo [of "alt_log_settings 2" 5 "''hello''" juart_reset]
  by (simp add: alt_log_settings_def juart_reset_def c_string_def)

lemma heartbeat_text: "\<exists>out. alt_log_private_printf (''System Clock On %u'' @ crlf) [Va_Int v] = Inr out \<and> out \<noteq> []"
proof -
  obtain g where g: "conversion CHR ''u'' (pf_reset\<lparr>fmtLeadingZero := False, fmtBeforeDecimal := if ([] :: string) = [] then - 1 else int (dec_from 0 [])\<rparr>) = Some g"
    by (simp add: conversion_def)
  have "alt_log_private_printf crlf [] = Inr crlf"
    using log_plain [of crlf "[]" pf_reset "[]"] by (simp add: crlf_def alt_log_private_printf_def)
  with width_parse [of "[]" False, OF _ _ _ g, of crlf v "[]"]
  have "pf_run (''%u'' @ crlf) Chars pf_reset [Va_Int v] = Inr (log_integer g v @ crlf)"
    by (simp add: alt_log_private_printf_def dec_from_def)
  with log_plain [of "''System Clock On ''" "''%u'' @ crlf" pf_reset "[Va_Int v]"] show ?thesis
    by (simp add: alt_log_private_printf_def)
qed

text \<open>
  The heartbeat. With the flag on, from a count of zero, the first \<open>n\<close> ticks log
  \<open>n div (rate + 1)\<close> messages: one every \<open>rate + 1\<close> ticks, although the comment says every
  \<open>rate\<close>; the number printed and the seconds counter fall behind the clock accordingly. With
  the flag off nothing is logged or counted.
\<close>

theorem heartbeat_period:
  assumes "alt_log_sys_clk_count l = 0" "alt_system_clock_in_sec l = 0" "unat rate < 2 ^ 31 - 1" "int n \<le> INT_MAX"
  shows "\<exists>l'. log_ticks rate n l = Inr (if alt_log_sys_clk_on_flag l = 0 then (0, l) else (n div (unat rate + 1), l')) \<and>
    (alt_log_sys_clk_on_flag l \<noteq> 0 \<longrightarrow> alt_system_clock_in_sec l' = int (n div (unat rate + 1)) \<and>
       alt_log_sys_clk_count l' = int (n mod (unat rate + 1)))"
proof (cases "alt_log_sys_clk_on_flag l = 0")
  case True
  then have "log_ticks rate n l = Inr (0, l)" by (induction n) (simp_all add: alt_log_system_clock_def)
  with True show ?thesis by simp
next
  case on: False
  let ?R = "unat rate + 1"
  have step: "\<exists>out l'. alt_log_system_clock rate l = Inr (out, l') \<and> alt_log_sys_clk_on_flag l' \<noteq> 0 \<and>
      (if c + 1 < ?R then out = [] \<and> alt_log_sys_clk_count l' = int (c + 1) \<and> alt_system_clock_in_sec l' = alt_system_clock_in_sec l
       else out \<noteq> [] \<and> alt_log_sys_clk_count l' = 0 \<and> alt_system_clock_in_sec l' = alt_system_clock_in_sec l + 1)"
    if "alt_log_sys_clk_on_flag l \<noteq> 0" "alt_log_sys_clk_count l = int c" "c < ?R"
      "0 \<le> alt_system_clock_in_sec l" "alt_system_clock_in_sec l < INT_MAX" for l c
  proof -
    have add: "c_add (alt_log_sys_clk_count l) 1 = Inr (int (c + 1))"
      using that assms(3) by (simp add: c_add_def c_int_def int_ok_def)
    have add': "c_add (alt_system_clock_in_sec l) 1 = Inr (alt_system_clock_in_sec l + 1)"
      using that by (simp add: c_add_def c_int_def int_ok_def)
    have "unat (of_nat m :: alt_u32) = m" if "m < 2 ^ 32" for m using that by (simp add: unat_of_nat take_bit_nat_eq_self_iff)
    from this [of "c + 1"] have "unat (word_of_int (int (c + 1)) :: alt_u32) = c + 1"
      using that(3) assms(3) unfolding of_int_of_nat_eq by simp
    then have cmp: "rate < word_of_int (int (c + 1)) \<longleftrightarrow> \<not> c + 1 < ?R" using that(3) by (auto simp: word_less_nat_alt)
    obtain out where out: "alt_log_private_printf (''System Clock On %u'' @ crlf) [Va_Int (word_of_int (alt_system_clock_in_sec l))] = Inr out"
      "out \<noteq> []" using heartbeat_text by blast
    show ?thesis
      using that(1) add' out unfolding alt_log_system_clock_def add res_bind_Inr Let_def cmp
      by (cases "c + 1 < ?R") simp_all
  qed
  have main: "\<exists>l'. log_ticks rate n l = Inr ((c + n) div ?R, l') \<and> alt_system_clock_in_sec l' = int (k + (c + n) div ?R) \<and>
      alt_log_sys_clk_count l' = int ((c + n) mod ?R)"
    if "alt_log_sys_clk_on_flag l \<noteq> 0" "alt_log_sys_clk_count l = int c" "c < ?R"
      "alt_system_clock_in_sec l = int k" "int (k + n) \<le> INT_MAX" for l c k
    using that
  proof (induction n arbitrary: l c k)
    case (Suc n)
    have "0 \<le> alt_system_clock_in_sec l" "alt_system_clock_in_sec l < INT_MAX" using Suc.prems by simp_all
    from step [OF Suc.prems(1-3) this] obtain out l1 where
      l1: "alt_log_system_clock rate l = Inr (out, l1)" "alt_log_sys_clk_on_flag l1 \<noteq> 0"
        "if c + 1 < ?R then out = [] \<and> alt_log_sys_clk_count l1 = int (c + 1) \<and> alt_system_clock_in_sec l1 = alt_system_clock_in_sec l
         else out \<noteq> [] \<and> alt_log_sys_clk_count l1 = 0 \<and> alt_system_clock_in_sec l1 = alt_system_clock_in_sec l + 1"
      by blast
    show ?case
    proof (cases "c + 1 < ?R")
      case True
      with l1 Suc.prems Suc.IH [of l1 "c + 1" k] show ?thesis by auto
    next
      case False
      then have c: "c = unat rate" using Suc.prems(3) by simp
      have "(c + Suc n) div ?R = Suc (n div ?R)" "(c + Suc n) mod ?R = n mod ?R"
        unfolding c using div_add_self1 [of ?R n] mod_add_self1 [of ?R n] by (simp_all add: add.commute add.left_commute)
      with l1 Suc.prems Suc.IH [of l1 0 "Suc k"] False show ?thesis by auto
    qed
  qed simp
  from main [OF on, of 0 0] assms show ?thesis using on by auto
qed

theorem heartbeat_period_witness:
  "\<exists>l'. log_ticks 1000 3000 (alt_log_settings 1) = Inr (2, l')"
  using heartbeat_period [of "alt_log_settings 1" 1000 3000] by (auto simp: alt_log_settings_def)

end
