(* ===== verification/Io_Module.thy ===== *)
theory Io_Module
  imports HAL_Prelude
begin

text \<open>
  The hardware side of the mailbox the application talks to: \<open>io_module.sv\<close>, a state
  machine clocked at 50 MHz with a four bit command from the processor (\<open>to_hw_sig\<close>), a four
  bit answer (\<open>to_sw_sig\<close>) and a 32 bit data port in each direction. A clock edge is one
  application of \<open>io_clock\<close>; every register is read before the edge and written by it.
\<close>

section \<open>States, inputs and registers\<close>

datatype io_state =
    RESET | WAIT
  | READ_PRM1 | ACK_PRM1
  | SEND_TO_PRIME_CHECKER_1 | GET_FROM_PRIME_CHECKER_1 | SEND_BACK_PRIME_1 | GOT_ACK_PRIME_1
  | READ_PRM2 | ACK_PRM2
  | SEND_TO_PRIME_CHECKER_2 | GET_FROM_PRIME_CHECKER_2 | SEND_BACK_PRIME_2 | GOT_ACK_PRIME_2
  | SEND_TO_RSA_PHI | GET_FROM_RSA_PHI | SEND_BACK_PHI | GOT_ACK_PHI
  | SEND_TO_RSA_N | GET_FROM_RSA_N | SEND_BACK_N | GOT_ACK_N
  | READ_E | ACK_E
  | READ_PLAINTEXT | ACK_PLAINTEXT
  | SEND_TO_RSA_GEND | GET_FROM_RSA_GEND | SEND_BACK_GEND | GOT_ACK_GEND
  | SEND_TO_RSA_ENCRYPT | GET_FROM_RSA_ENCRYPT | SEND_BACK_ENCRYPTED | GOT_ACK_ENCRYPTED
  | SEND_TO_RSA_DECRYPT | GET_FROM_RSA_DECRYPT | SEND_BACK_DECRYPTED | GOT_ACK_DECRYPTED

text \<open>The command and answer lines have four bits.\<close>

type_synonym nibble = "4 word"

text \<open>What the computing units drive into the module.\<close>

record io_in =
  i_phi :: alt_u32
  i_n :: alt_u32
  i_d :: alt_u32
  i_encrypted :: alt_u32
  i_decrypted :: alt_u32
  i_isprime1 :: bool
  i_isprime2 :: bool
  encrypt_done :: bool
  decrypt_done :: bool
  phi_done :: bool
  n_done :: bool
  generated_done :: bool
  prime_checker_done1 :: bool
  prime_checker_done2 :: bool

record io_regs =
  state :: io_state
  to_sw_sig :: nibble
  to_sw_port :: alt_u32
  prime1 :: alt_u32
  prime2 :: alt_u32
  n_hold :: alt_u32
  plaintext :: alt_u32
  ciphertext :: alt_u32
  e_reg :: alt_u32
  encrypt_ready :: bool
  decrypt_ready :: bool
  phi_ready :: bool
  n_ready :: bool
  generated_ready :: bool
  prime_checker_ready1 :: bool
  prime_checker_ready2 :: bool

section \<open>The next state\<close>

fun io_next :: "io_state \<Rightarrow> nibble \<Rightarrow> io_in \<Rightarrow> io_state" where
  "io_next RESET sig i = (if sig = 8 then WAIT else RESET)"
| "io_next WAIT sig i =
     (if sig = 8 then WAIT
      else if sig = 1 then READ_PRM1
      else if sig = 2 then READ_PRM2
      else if sig = 11 then SEND_TO_PRIME_CHECKER_1
      else if sig = 12 then SEND_TO_PRIME_CHECKER_2
      else if sig = 3 then SEND_TO_RSA_PHI
      else if sig = 9 then SEND_TO_RSA_N
      else if sig = 4 then READ_E
      else if sig = 10 then SEND_TO_RSA_GEND
      else if sig = 5 then READ_PLAINTEXT
      else if sig = 6 then SEND_TO_RSA_ENCRYPT
      else if sig = 7 then SEND_TO_RSA_DECRYPT
      else WAIT)"
| "io_next READ_PRM1 sig i = (if sig = 0 then ACK_PRM1 else READ_PRM1)"
| "io_next ACK_PRM1 sig i = (if sig = 8 then WAIT else if sig = 2 then WAIT else ACK_PRM1)"
| "io_next READ_PRM2 sig i = (if sig = 0 then ACK_PRM2 else READ_PRM2)"
| "io_next ACK_PRM2 sig i = (if sig = 8 then WAIT else ACK_PRM2)"
| "io_next SEND_TO_PRIME_CHECKER_1 sig i =
     (if prime_checker_done1 i then GET_FROM_PRIME_CHECKER_1 else SEND_TO_PRIME_CHECKER_1)"
| "io_next GET_FROM_PRIME_CHECKER_1 sig i =
     (if sig = 1 then SEND_BACK_PRIME_1 else GET_FROM_PRIME_CHECKER_1)"
| "io_next SEND_BACK_PRIME_1 sig i = (if sig = 2 then GOT_ACK_PRIME_1 else SEND_BACK_PRIME_1)"
| "io_next GOT_ACK_PRIME_1 sig i = (if sig = 8 then WAIT else GOT_ACK_PRIME_1)"
| "io_next SEND_TO_PRIME_CHECKER_2 sig i =
     (if prime_checker_done2 i then GET_FROM_PRIME_CHECKER_2 else SEND_TO_PRIME_CHECKER_2)"
| "io_next GET_FROM_PRIME_CHECKER_2 sig i =
     (if sig = 1 then SEND_BACK_PRIME_2 else GET_FROM_PRIME_CHECKER_2)"
| "io_next SEND_BACK_PRIME_2 sig i = (if sig = 2 then GOT_ACK_PRIME_2 else SEND_BACK_PRIME_2)"
| "io_next GOT_ACK_PRIME_2 sig i = (if sig = 8 then WAIT else GOT_ACK_PRIME_2)"
| "io_next SEND_TO_RSA_PHI sig i = (if phi_done i then GET_FROM_RSA_PHI else SEND_TO_RSA_PHI)"
| "io_next GET_FROM_RSA_PHI sig i = (if sig = 1 then SEND_BACK_PHI else GET_FROM_RSA_PHI)"
| "io_next SEND_BACK_PHI sig i = (if sig = 2 then GOT_ACK_PHI else SEND_BACK_PHI)"
| "io_next GOT_ACK_PHI sig i = (if sig = 8 then WAIT else GOT_ACK_PHI)"
| "io_next SEND_TO_RSA_N sig i = (if n_done i then GET_FROM_RSA_N else SEND_TO_RSA_N)"
| "io_next GET_FROM_RSA_N sig i = (if sig = 1 then SEND_BACK_N else GET_FROM_RSA_N)"
| "io_next SEND_BACK_N sig i = (if sig = 2 then GOT_ACK_N else SEND_BACK_N)"
| "io_next GOT_ACK_N sig i = (if sig = 8 then WAIT else GOT_ACK_N)"
| "io_next READ_E sig i = (if sig = 0 then ACK_E else READ_E)"
| "io_next ACK_E sig i = (if sig = 8 then WAIT else ACK_E)"
| "io_next SEND_TO_RSA_GEND sig i =
     (if generated_done i then GET_FROM_RSA_GEND else SEND_TO_RSA_GEND)"
| "io_next GET_FROM_RSA_GEND sig i = (if sig = 1 then SEND_BACK_GEND else GET_FROM_RSA_GEND)"
| "io_next SEND_BACK_GEND sig i = (if sig = 2 then GOT_ACK_GEND else SEND_BACK_GEND)"
| "io_next GOT_ACK_GEND sig i = (if sig = 8 then WAIT else GOT_ACK_GEND)"
| "io_next READ_PLAINTEXT sig i = (if sig = 0 then ACK_PLAINTEXT else READ_PLAINTEXT)"
| "io_next ACK_PLAINTEXT sig i = (if sig = 8 then WAIT else ACK_PLAINTEXT)"
| "io_next SEND_TO_RSA_ENCRYPT sig i =
     (if encrypt_done i then GET_FROM_RSA_ENCRYPT else SEND_TO_RSA_ENCRYPT)"
| "io_next GET_FROM_RSA_ENCRYPT sig i =
     (if sig = 1 then SEND_BACK_ENCRYPTED else GET_FROM_RSA_ENCRYPT)"
| "io_next SEND_BACK_ENCRYPTED sig i = (if sig = 2 then GOT_ACK_ENCRYPTED else SEND_BACK_ENCRYPTED)"
| "io_next GOT_ACK_ENCRYPTED sig i = (if sig = 8 then WAIT else GOT_ACK_ENCRYPTED)"
| "io_next SEND_TO_RSA_DECRYPT sig i =
     (if decrypt_done i then GET_FROM_RSA_DECRYPT else SEND_TO_RSA_DECRYPT)"
| "io_next GET_FROM_RSA_DECRYPT sig i =
     (if sig = 1 then SEND_BACK_DECRYPTED else GET_FROM_RSA_DECRYPT)"
| "io_next SEND_BACK_DECRYPTED sig i = (if sig = 2 then GOT_ACK_DECRYPTED else SEND_BACK_DECRYPTED)"
| "io_next GOT_ACK_DECRYPTED sig i = (if sig = 8 then WAIT else GOT_ACK_DECRYPTED)"

section \<open>The data registers\<close>

definition io_reset :: "io_regs \<Rightarrow> io_regs" where
  "io_reset r = r\<lparr>state := RESET, prime1 := 0, prime2 := 0, plaintext := 0, to_sw_port := 0,
                  e_reg := 0, ciphertext := 0, n_hold := 0\<rparr>"

fun io_data :: "io_state \<Rightarrow> alt_u32 \<Rightarrow> io_in \<Rightarrow> io_regs \<Rightarrow> io_regs" where
  "io_data READ_PRM1 port i r = r\<lparr>prime1 := port\<rparr>"
| "io_data SEND_BACK_PRIME_1 port i r = r\<lparr>to_sw_port := of_bool (i_isprime1 i)\<rparr>"
| "io_data SEND_BACK_PRIME_2 port i r = r\<lparr>to_sw_port := of_bool (i_isprime2 i)\<rparr>"
| "io_data READ_PRM2 port i r = r\<lparr>prime2 := port\<rparr>"
| "io_data SEND_BACK_PHI port i r = r\<lparr>to_sw_port := i_phi i\<rparr>"
| "io_data SEND_BACK_N port i r = r\<lparr>to_sw_port := i_n i, n_hold := i_n i\<rparr>"
| "io_data READ_E port i r = r\<lparr>e_reg := port\<rparr>"
| "io_data READ_PLAINTEXT port i r = r\<lparr>plaintext := port\<rparr>"
| "io_data SEND_BACK_GEND port i r = r\<lparr>to_sw_port := i_d i\<rparr>"
| "io_data SEND_BACK_ENCRYPTED port i r = r\<lparr>to_sw_port := i_encrypted i\<rparr>"
| "io_data SEND_BACK_DECRYPTED port i r = r\<lparr>to_sw_port := i_decrypted i\<rparr>"
| "io_data _ port i r = r"

section \<open>The answer and the start lines\<close>

fun io_out :: "io_state \<Rightarrow> nibble \<Rightarrow> io_regs \<Rightarrow> io_regs" where
  "io_out RESET sig r = r\<lparr>encrypt_ready := False, decrypt_ready := False, phi_ready := False,
                          n_ready := False, to_sw_sig := 3\<rparr>"
| "io_out WAIT sig r = r\<lparr>to_sw_sig := 7\<rparr>"
| "io_out READ_PRM1 sig r = r\<lparr>to_sw_sig := 1\<rparr>"
| "io_out ACK_PRM1 sig r = r\<lparr>to_sw_sig := 2\<rparr>"
| "io_out SEND_TO_PRIME_CHECKER_1 sig r = r\<lparr>to_sw_sig := 3, prime_checker_ready1 := True\<rparr>"
| "io_out GET_FROM_PRIME_CHECKER_1 sig r = r\<lparr>prime_checker_ready1 := False, to_sw_sig := 2\<rparr>"
| "io_out SEND_BACK_PRIME_1 sig r = r\<lparr>to_sw_sig := 1\<rparr>"
| "io_out GOT_ACK_PRIME_1 sig r = r\<lparr>to_sw_sig := 0\<rparr>"
| "io_out SEND_TO_PRIME_CHECKER_2 sig r = r\<lparr>to_sw_sig := 3, prime_checker_ready2 := True\<rparr>"
| "io_out GET_FROM_PRIME_CHECKER_2 sig r = r\<lparr>prime_checker_ready2 := False, to_sw_sig := 2\<rparr>"
| "io_out SEND_BACK_PRIME_2 sig r = r\<lparr>to_sw_sig := 1\<rparr>"
| "io_out GOT_ACK_PRIME_2 sig r = r\<lparr>to_sw_sig := 0\<rparr>"
| "io_out READ_PRM2 sig r = r\<lparr>to_sw_sig := 1\<rparr>"
| "io_out ACK_PRM2 sig r = r\<lparr>to_sw_sig := 0\<rparr>"
| "io_out SEND_TO_RSA_PHI sig r = r\<lparr>to_sw_sig := 3, phi_ready := True\<rparr>"
| "io_out GET_FROM_RSA_PHI sig r = r\<lparr>phi_ready := False, to_sw_sig := 2\<rparr>"
| "io_out SEND_BACK_PHI sig r = r\<lparr>to_sw_sig := 1\<rparr>"
| "io_out GOT_ACK_PHI sig r = r\<lparr>to_sw_sig := 0\<rparr>"
| "io_out SEND_TO_RSA_N sig r = r\<lparr>to_sw_sig := 3, n_ready := True\<rparr>"
| "io_out GET_FROM_RSA_N sig r = r\<lparr>n_ready := False, to_sw_sig := 2\<rparr>"
| "io_out SEND_BACK_N sig r = r\<lparr>to_sw_sig := 1\<rparr>"
| "io_out GOT_ACK_N sig r = r\<lparr>to_sw_sig := 0\<rparr>"
| "io_out READ_E sig r = r\<lparr>to_sw_sig := 1\<rparr>"
| "io_out ACK_E sig r = r\<lparr>to_sw_sig := 0\<rparr>"
| "io_out SEND_TO_RSA_GEND sig r =
     (if sig = 5 then r\<lparr>to_sw_sig := 4, generated_ready := True\<rparr> else r\<lparr>to_sw_sig := 3\<rparr>)"
| "io_out GET_FROM_RSA_GEND sig r = r\<lparr>generated_ready := False, to_sw_sig := 2\<rparr>"
| "io_out SEND_BACK_GEND sig r = r\<lparr>to_sw_sig := 1\<rparr>"
| "io_out GOT_ACK_GEND sig r = r\<lparr>to_sw_sig := 0\<rparr>"
| "io_out READ_PLAINTEXT sig r = r\<lparr>to_sw_sig := 1\<rparr>"
| "io_out ACK_PLAINTEXT sig r = r\<lparr>to_sw_sig := 0\<rparr>"
| "io_out SEND_TO_RSA_ENCRYPT sig r =
     (if sig = 5 then r\<lparr>to_sw_sig := 3, encrypt_ready := True\<rparr> else r\<lparr>to_sw_sig := 3\<rparr>)"
| "io_out GET_FROM_RSA_ENCRYPT sig r = r\<lparr>to_sw_sig := 2, encrypt_ready := False\<rparr>"
| "io_out SEND_BACK_ENCRYPTED sig r = r\<lparr>to_sw_sig := 1\<rparr>"
| "io_out GOT_ACK_ENCRYPTED sig r = r\<lparr>to_sw_sig := 0\<rparr>"
| "io_out SEND_TO_RSA_DECRYPT sig r =
     (if sig = 5 then r\<lparr>to_sw_sig := 3, decrypt_ready := True\<rparr> else r\<lparr>to_sw_sig := 3\<rparr>)"
| "io_out GET_FROM_RSA_DECRYPT sig r = r\<lparr>to_sw_sig := 2, decrypt_ready := False\<rparr>"
| "io_out SEND_BACK_DECRYPTED sig r = r\<lparr>to_sw_sig := 1\<rparr>"
| "io_out GOT_ACK_DECRYPTED sig r = r\<lparr>to_sw_sig := 0\<rparr>"

text \<open>
  A clock edge. The reset line is asynchronous and active low: while it is low the state is
  already \<open>RESET\<close> when the edge comes. The process of the outputs has no reset of its own.
\<close>

definition io_clock :: "bool \<Rightarrow> nibble \<Rightarrow> alt_u32 \<Rightarrow> io_in \<Rightarrow> io_regs \<Rightarrow> io_regs" where
  "io_clock reset_n sig port i r =
     (if reset_n
      then (io_out (state r) sig (io_data (state r) port i r))\<lparr>state := io_next (state r) sig i\<rparr>
      else io_out RESET sig (io_reset r))"

end
