(* ===== verification/Hw_Driver.thy ===== *)
theory Hw_Driver
  imports RSA_Software Io_Module
begin

text \<open>
  The half of \<open>software/rsa/rsa_intonly.c\<close> that drives the coprocessor: \<open>main\<close> and
  \<open>hardware_encrypt\<close>, running on the board. The processor reads and writes four parallel
  ports at the addresses the source defines; the hardware is clocked on between two accesses,
  by a number of edges the \<open>world\<close> chooses, at least one. A statement of the program maps the
  state of the board to its outcome; \<open>None\<close> is a statement that never finishes.
\<close>

section \<open>The board\<close>

text \<open>
  The computing units beside \<open>io_module\<close> are a type \<open>'u\<close> with their outputs and their clock
  edge, which sees the reset line and the registers of \<open>io_module\<close>. \<open>w_key\<close> is the reset
  button \<open>KEY[1]\<close> (high: not pressed) during the edges before the \<open>k\<close>-th access.
\<close>

record 'u world =
  w_out :: "'u \<Rightarrow> io_in"
  w_step :: "bool \<Rightarrow> io_regs \<Rightarrow> 'u \<Rightarrow> 'u"
  w_lag :: "nat \<Rightarrow> nat"
  w_key :: "nat \<Rightarrow> bool"

text \<open>The local variables of \<open>hardware_encrypt\<close>, and \<open>option\<close> of \<open>main\<close>.\<close>

record locals =
  l_p1 :: int
  l_p2 :: int
  l_pk :: int
  l_pt :: int
  l_ct :: int
  l_phi :: int
  l_n :: int
  l_d :: int
  l_new_pt :: int
  l_isprime1 :: int
  l_isprime2 :: int
  l_e_bool :: int
  l_option :: int

record 'u soc =
  io :: io_regs
  units :: 'u
  to_hw_sig :: nibble
  to_hw_port :: alt_u32
  accesses :: nat
  keyboard :: "int list"
  screen :: "printed list"
  loc :: locals

definition soc_cycle :: "'u world \<Rightarrow> bool \<Rightarrow> 'u soc \<Rightarrow> 'u soc" where
  "soc_cycle w reset_n s =
     s\<lparr>io := io_clock reset_n (to_hw_sig s) (to_hw_port s) (w_out w (units s)) (io s),
       units := w_step w reset_n (io s) (units s)\<rparr>"

definition bus :: "'u world \<Rightarrow> 'u soc \<Rightarrow> 'u soc" where
  "bus w s =
     ((soc_cycle w (w_key w (accesses s)) ^^ Suc (w_lag w (accesses s))) s)
       \<lparr>accesses := Suc (accesses s)\<rparr>"

section \<open>Statements\<close>

type_synonym 'u stmt = "'u soc \<Rightarrow> 'u soc c_res option"

definition put_sig :: "'u world \<Rightarrow> nibble \<Rightarrow> 'u stmt" where
  "put_sig w v s = Some (Inr ((bus w s)\<lparr>to_hw_sig := v\<rparr>))"

definition put_port :: "'u world \<Rightarrow> (locals \<Rightarrow> int) \<Rightarrow> 'u stmt" where
  "put_port w f s = Some (Inr ((bus w s)\<lparr>to_hw_port := word_of_int (f (loc s))\<rparr>))"

text \<open>\<open>while (*to_sw_sig != v);\<close>\<close>

partial_function (option) poll :: "'u world \<Rightarrow> nibble \<Rightarrow> 'u soc \<Rightarrow> 'u soc option" where
  "poll w v s = (let s = bus w s in if to_sw_sig (io s) = v then Some s else poll w v s)"

definition await :: "'u world \<Rightarrow> nibble \<Rightarrow> 'u stmt" where
  "await w v s = map_option Inr (poll w v s)"

text \<open>The same with a body that reads the port again and prints it.\<close>

partial_function (option) poll_echo :: "'u world \<Rightarrow> nibble \<Rightarrow> 'u soc \<Rightarrow> 'u soc option" where
  "poll_echo w v s =
     (let s = bus w s
      in if to_sw_sig (io s) = v then Some s
         else (let s = bus w s
               in poll_echo w v
                    (s\<lparr>screen := screen s @ [(''to_sw_sig is %d'', [uint (to_sw_sig (io s))])]\<rparr>)))"

definition await_echo :: "'u world \<Rightarrow> nibble \<Rightarrow> 'u stmt" where
  "await_echo w v s = map_option Inr (poll_echo w v s)"

definition fetch :: "'u world \<Rightarrow> (int \<Rightarrow> locals \<Rightarrow> locals) \<Rightarrow> 'u stmt" where
  "fetch w upd s = (let s = bus w s in Some (Inr (s\<lparr>loc := upd (sint (to_sw_port (io s))) (loc s)\<rparr>)))"

definition say :: "string \<Rightarrow> (locals \<Rightarrow> int list) \<Rightarrow> 'u stmt" where
  "say fmt args s = Some (Inr (s\<lparr>screen := screen s @ [(fmt, args (loc s))]\<rparr>))"

definition scan :: "(int \<Rightarrow> locals \<Rightarrow> locals) \<Rightarrow> 'u stmt" where
  "scan upd s =
     Some (res_bind (scanf_int (keyboard s)) (\<lambda>(x, rest).
       Inr (s\<lparr>keyboard := rest, loc := upd x (loc s)\<rparr>)))"

definition assign :: "(locals \<Rightarrow> locals) \<Rightarrow> 'u stmt" where
  "assign upd s = Some (Inr (s\<lparr>loc := upd (loc s)\<rparr>))"

fun seq :: "'u stmt list \<Rightarrow> 'u stmt" where
  "seq [] s = Some (Inr s)"
| "seq (c # cs) s =
     Option.bind (c s) (\<lambda>r. case r of Inl e \<Rightarrow> Some (Inl e) | Inr s' \<Rightarrow> seq cs s')"

definition if_stmt :: "(locals \<Rightarrow> bool) \<Rightarrow> 'u stmt \<Rightarrow> 'u stmt \<Rightarrow> 'u stmt" where
  "if_stmt b c d s = (if b (loc s) then c s else d s)"

partial_function (option) while_stmt :: "(locals \<Rightarrow> bool) \<Rightarrow> 'u stmt \<Rightarrow> 'u stmt" where
  "while_stmt b c s =
     (if b (loc s)
      then Option.bind (c s)
             (\<lambda>r. case r of Inl e \<Rightarrow> Some (Inl e) | Inr s' \<Rightarrow> while_stmt b c s')
      else Some (Inr s))"

section \<open>\<open>hardware_encrypt\<close>\<close>

text \<open>The first prime is sent and checked until the checker answers 1.\<close>

definition hw_prime1_pass :: "'u world \<Rightarrow> 'u stmt" where
  "hw_prime1_pass w = seq
     [say ''Please enter the first prime number'' (\<lambda>l. []),
      scan (\<lambda>x. l_p1_update (\<lambda>_. x)),
      say ''Transmitting the first prime number....'' (\<lambda>l. []),
      put_sig w 1, put_port w l_p1, await w 1,
      put_sig w 0, await w 2,
      put_sig w 8, await w 7,
      put_sig w 11, await w 2,
      put_sig w 1, await w 1,
      fetch w (\<lambda>x. l_isprime1_update (\<lambda>_. x)),
      put_sig w 2, await w 0,
      put_sig w 8, await w 7,
      if_stmt (\<lambda>l. l_isprime1 l = 0)
        (say ''The number you entered is not a prime!!!'' (\<lambda>l. [])) (seq [])]"

definition hw_prime1 :: "'u world \<Rightarrow> 'u stmt" where
  "hw_prime1 w = seq
     [assign (l_isprime1_update (\<lambda>_. 0)),
      while_stmt (\<lambda>l. l_isprime1 l \<noteq> 1) (hw_prime1_pass w)]"

definition hw_prime2_pass :: "'u world \<Rightarrow> 'u stmt" where
  "hw_prime2_pass w = seq
     [say ''Please enter the second prime number'' (\<lambda>l. []),
      scan (\<lambda>x. l_p2_update (\<lambda>_. x)),
      put_sig w 2, put_port w l_p2, await w 1,
      put_sig w 0, await w 0,
      put_sig w 8, await w 7,
      put_sig w 12, await w 2,
      put_sig w 1, await w 1,
      fetch w (\<lambda>x. l_isprime2_update (\<lambda>_. x)),
      put_sig w 2, await w 0,
      put_sig w 8, await w 7,
      if_stmt (\<lambda>l. l_isprime2 l = 0)
        (say ''The number you entered is not a prime!!!'' (\<lambda>l. [])) (seq [])]"

definition hw_prime2 :: "'u world \<Rightarrow> 'u stmt" where
  "hw_prime2 w = seq
     [assign (l_isprime2_update (\<lambda>_. 0)),
      while_stmt (\<lambda>l. l_isprime2 l \<noteq> 1) (hw_prime2_pass w)]"

definition hw_get_n :: "'u world \<Rightarrow> 'u stmt" where
  "hw_get_n w = seq
     [put_sig w 9,
      say ''At state send_to_rsa_n'' (\<lambda>l. []),
      await w 2,
      put_sig w 1, await w 1,
      say ''Got to send back n'' (\<lambda>l. []),
      fetch w (\<lambda>x. l_n_update (\<lambda>_. x)),
      put_sig w 2, await w 0,
      put_sig w 8, await w 7,
      say ''Generated n is %d'' (\<lambda>l. [l_n l])]"

definition hw_get_phi :: "'u world \<Rightarrow> 'u stmt" where
  "hw_get_phi w = seq
     [put_sig w 3,
      say ''At state send_to_rsa_phi'' (\<lambda>l. []),
      await w 2,
      put_sig w 1, await w 1,
      say ''Got to send back phi'' (\<lambda>l. []),
      fetch w (\<lambda>x. l_phi_update (\<lambda>_. x)),
      put_sig w 2, await w 0,
      put_sig w 8, await w 7,
      say ''Generated phi is %d'' (\<lambda>l. [l_phi l])]"

text \<open>The public exponent is checked by the software.\<close>

definition hw_ask_e_pass :: "'u stmt" where
  "hw_ask_e_pass = seq
     [say ''Please enter a prime number that is between 1 and %d for public key (e)'' (\<lambda>l. [l_phi l]),
      scan (\<lambda>x. l_pk_update (\<lambda>_. x)),
      assign (\<lambda>l. l\<lparr>l_e_bool := e_checker (l_pk l) (l_phi l)\<rparr>),
      if_stmt (\<lambda>l. l_e_bool l = 0) (say ''Your number for e is invalid'' (\<lambda>l. [])) (seq [])]"

definition hw_ask_e :: "'u stmt" where
  "hw_ask_e = seq
     [assign (l_e_bool_update (\<lambda>_. 0)),
      while_stmt (\<lambda>l. l_e_bool l = 0) hw_ask_e_pass]"

definition hw_send_e :: "'u world \<Rightarrow> 'u stmt" where
  "hw_send_e w = seq
     [put_sig w 4, put_port w l_pk, await w 1,
      put_sig w 0, await w 0,
      put_sig w 8, await w 7]"

definition hw_get_d :: "'u world \<Rightarrow> 'u stmt" where
  "hw_get_d w = seq
     [say ''Generating private key...'' (\<lambda>l. []),
      put_sig w 10, await w 3,
      put_sig w 5, await w 2,
      say ''Retrieving private key'' (\<lambda>l. []),
      put_sig w 1, await w 1,
      fetch w (\<lambda>x. l_d_update (\<lambda>_. x)),
      put_sig w 2, await w 0,
      put_sig w 8, await w 7,
      say ''The private key is %d'' (\<lambda>l. [l_d l])]"

definition hw_send_plaintext :: "'u world \<Rightarrow> 'u stmt" where
  "hw_send_plaintext w = seq
     [say ''Please enter the plain text'' (\<lambda>l. []),
      scan (\<lambda>x. l_pt_update (\<lambda>_. x)),
      put_sig w 5, put_port w l_pt, await w 1,
      put_sig w 0, await w 0,
      put_sig w 8, await w 7]"

definition hw_get_ciphertext :: "'u world \<Rightarrow> 'u stmt" where
  "hw_get_ciphertext w = seq
     [say ''Encrypting...'' (\<lambda>l. []),
      put_sig w 6, await_echo w 3,
      put_sig w 5, await w 2,
      say ''Retrieving Ciphertext'' (\<lambda>l. []),
      put_sig w 1, await w 1,
      fetch w (\<lambda>x. l_ct_update (\<lambda>_. x)),
      put_sig w 2, await w 0,
      put_sig w 8, await w 7,
      say ''The encrypted message is %d'' (\<lambda>l. [l_ct l]),
      say ''RSA Encryption is done!'' (\<lambda>l. [])]"

definition hw_get_decrypted :: "'u world \<Rightarrow> 'u stmt" where
  "hw_get_decrypted w = seq
     [say ''Decrypting...'' (\<lambda>l. []),
      put_sig w 7, await_echo w 3,
      put_sig w 5, await w 2,
      say ''Retrieving Plaintext'' (\<lambda>l. []),
      put_sig w 1, await w 1,
      fetch w (\<lambda>x. l_new_pt_update (\<lambda>_. x)),
      put_sig w 2, await w 0,
      put_sig w 8, await w 7,
      say ''The decrypted message is %d'' (\<lambda>l. [l_new_pt l]),
      say ''Decryption is done'' (\<lambda>l. [])]"

definition hardware_encrypt :: "'u world \<Rightarrow> 'u stmt" where
  "hardware_encrypt w = seq
     [say ''RSA Hardware Encryption'' (\<lambda>l. []),
      hw_prime1 w, hw_prime2 w, hw_get_n w, hw_get_phi w, hw_ask_e, hw_send_e w, hw_get_d w,
      hw_send_plaintext w, hw_get_ciphertext w, hw_get_decrypted w]"

section \<open>\<open>main\<close>\<close>

definition call_software_encrypt :: "'u stmt" where
  "call_software_encrypt s =
     Some (res_bind (software_encrypt (keyboard s)) (\<lambda>(rest, lines).
       Inr (s\<lparr>keyboard := rest, screen := screen s @ lines\<rparr>)))"

definition main_pass :: "'u world \<Rightarrow> 'u stmt" where
  "main_pass w = seq
     [put_sig w 0, put_port w (\<lambda>l. 0),
      say ''Press reset for options!'' (\<lambda>l. []),
      await w 3,
      say ''Need to go to wait'' (\<lambda>l. []),
      put_sig w 8, await w 7,
      say ''Enter 0 for hardware encrypt/decrypt, 1 for software encrypt/decrypt'' (\<lambda>l. []),
      scan (\<lambda>x. l_option_update (\<lambda>_. x)),
      if_stmt (\<lambda>l. l_option l = 0) (hardware_encrypt w)
        (if_stmt (\<lambda>l. l_option l = 1) call_software_encrypt (seq []))]"

definition main :: "'u world \<Rightarrow> 'u stmt" where
  "main w = while_stmt (\<lambda>l. True) (main_pass w)"

end
