(* ===== verification/Handshake.thy ===== *)
theory Handshake
  imports Hw_Driver
begin

text \<open>
  Reasoning about a statement of the driver together with the clocked hardware. Between two
  accesses the command and the data port hold still, so the hardware makes a number of equal
  steps, \<open>tick\<close>; a statement is described by a triple over the port registers, a predicate on
  the hardware, and the rest of the program's state.
\<close>

section \<open>The hardware between two accesses\<close>

definition tick :: "'u world \<Rightarrow> nibble \<Rightarrow> alt_u32 \<Rightarrow> io_regs \<times> 'u \<Rightarrow> io_regs \<times> 'u" where
  "tick w sig port z =
     (io_clock True sig port (w_out w (snd z)) (fst z), w_step w True (fst z) (snd z))"

definition core :: "'u soc \<Rightarrow> io_regs \<times> 'u" where
  "core s = (io s, units s)"

text \<open>
  How often a loop that echoes the answer prints it depends on the timing, so the screen is
  compared without those lines.
\<close>

definition clean :: "printed list \<Rightarrow> printed list" where
  "clean = filter (\<lambda>p. fst p \<noteq> ''to_sw_sig is %d'')"

definition rest :: "'u soc \<Rightarrow> int list \<times> printed list \<times> locals" where
  "rest s = (keyboard s, clean (screen s), loc s)"

text \<open>The reset button is not pressed.\<close>

definition key_up :: "'u world \<Rightarrow> bool" where
  "key_up w \<longleftrightarrow> (\<forall>k. w_key w k)"

lemma soc_cycle_simps [simp]:
  "core (soc_cycle w True s) = tick w (to_hw_sig s) (to_hw_port s) (core s)"
  "rest (soc_cycle w b s) = rest s"
  "to_hw_sig (soc_cycle w b s) = to_hw_sig s"
  "to_hw_port (soc_cycle w b s) = to_hw_port s"
  by (simp_all add: soc_cycle_def core_def rest_def tick_def)

lemma soc_cycles_simps [simp]:
  "rest ((soc_cycle w b ^^ n) s) = rest s"
  "to_hw_sig ((soc_cycle w b ^^ n) s) = to_hw_sig s"
  "to_hw_port ((soc_cycle w b ^^ n) s) = to_hw_port s"
  by (induction n) simp_all

lemma core_soc_cycles [simp]:
  "core ((soc_cycle w True ^^ n) s) = (tick w (to_hw_sig s) (to_hw_port s) ^^ n) (core s)"
  by (induction n) simp_all

lemma core_accesses [simp]: "core (s\<lparr>accesses := a\<rparr>) = core s" "rest (s\<lparr>accesses := a\<rparr>) = rest s"
  by (simp_all add: core_def rest_def)

lemma bus_simps [simp]:
  "rest (bus w s) = rest s" "to_hw_sig (bus w s) = to_hw_sig s" "to_hw_port (bus w s) = to_hw_port s"
  by (simp_all add: bus_def del: funpow.simps)

lemma core_bus:
  "key_up w \<Longrightarrow> core (bus w s) =
     (tick w (to_hw_sig s) (to_hw_port s) ^^ Suc (w_lag w (accesses s))) (core s)"
  by (simp add: bus_def key_up_def del: funpow.simps)

section \<open>Triples\<close>

text \<open>
  \<open>at sig port P x s\<close>: the ports hold \<open>sig\<close> and \<open>port\<close>, the hardware satisfies \<open>P\<close>, and the
  keyboard, the screen and the locals are \<open>x\<close>. A triple is total: the statement finishes.
\<close>

definition at :: "nibble \<Rightarrow> alt_u32 \<Rightarrow> (io_regs \<times> 'u \<Rightarrow> bool) \<Rightarrow>
    int list \<times> printed list \<times> locals \<Rightarrow> 'u soc \<Rightarrow> bool" where
  "at sig port P x s \<longleftrightarrow> to_hw_sig s = sig \<and> to_hw_port s = port \<and> P (core s) \<and> rest s = x"

definition triple :: "('u soc \<Rightarrow> bool) \<Rightarrow> 'u stmt \<Rightarrow> ('u soc \<Rightarrow> bool) \<Rightarrow> bool" where
  "triple P c Q \<longleftrightarrow> (\<forall>s. P s \<longrightarrow> (\<exists>s'. c s = Some (Inr s') \<and> Q s'))"

definition stable :: "'u world \<Rightarrow> nibble \<Rightarrow> alt_u32 \<Rightarrow> (io_regs \<times> 'u \<Rightarrow> bool) \<Rightarrow> bool" where
  "stable w sig port P \<longleftrightarrow> (\<forall>z. P z \<longrightarrow> P (tick w sig port z))"

text \<open>
  \<open>leads\<close>: from \<open>P\<close>, the answer \<open>v\<close> appears only in \<open>Q\<close>, and from some time on it stays.
\<close>

definition leads :: "'u world \<Rightarrow> nibble \<Rightarrow> alt_u32 \<Rightarrow> nibble \<Rightarrow>
    (io_regs \<times> 'u \<Rightarrow> bool) \<Rightarrow> (io_regs \<times> 'u \<Rightarrow> bool) \<Rightarrow> bool" where
  "leads w sig port v P Q \<longleftrightarrow>
     (\<forall>z. P z \<longrightarrow>
        (\<forall>k>0. to_sw_sig (fst ((tick w sig port ^^ k) z)) = v \<longrightarrow> Q ((tick w sig port ^^ k) z)) \<and>
        (\<exists>N. \<forall>k\<ge>N. to_sw_sig (fst ((tick w sig port ^^ k) z)) = v))"

lemma stable_ticks: "stable w sig port P \<Longrightarrow> P z \<Longrightarrow> P ((tick w sig port ^^ n) z)"
  by (induction n) (simp_all add: stable_def del: split_paired_All)

lemma triple_conseq:
  "triple P c Q \<Longrightarrow> (\<And>s. P' s \<Longrightarrow> P s) \<Longrightarrow> (\<And>s. Q s \<Longrightarrow> Q' s) \<Longrightarrow> triple P' c Q'"
  unfolding triple_def by blast

lemma triple_seq_Nil [intro]: "triple P (seq []) P"
  by (simp add: triple_def)

lemma triple_seq_Cons: "triple P c R \<Longrightarrow> triple R (seq cs) Q \<Longrightarrow> triple P (seq (c # cs)) Q"
  by (fastforce simp: triple_def)

text \<open>The parts of the state a statement writes.\<close>

lemma core_updates [simp]:
  "core (s\<lparr>to_hw_sig := a\<rparr>) = core s" "core (s\<lparr>to_hw_port := b\<rparr>) = core s"
  "core (s\<lparr>loc := l\<rparr>) = core s" "core (s\<lparr>screen := o'\<rparr>) = core s" "core (s\<lparr>keyboard := k\<rparr>) = core s"
  by (simp_all add: core_def)

lemma rest_updates [simp]:
  "rest (s\<lparr>to_hw_sig := a\<rparr>) = rest s" "rest (s\<lparr>to_hw_port := b\<rparr>) = rest s"
  "rest (s\<lparr>loc := l\<rparr>) = (fst (rest s), fst (snd (rest s)), l)"
  "rest (s\<lparr>screen := o'\<rparr>) = (fst (rest s), clean o', snd (snd (rest s)))"
  "rest (s\<lparr>keyboard := k\<rparr>) = (k, snd (rest s))"
  by (simp_all add: rest_def)

lemma rest_eqD:
  "rest s = (k, o', l) \<Longrightarrow> keyboard s = k \<and> clean (screen s) = o' \<and> loc s = l"
  by (simp add: rest_def)

lemma at_bus:
  assumes "key_up w" "stable w sig port P" "at sig port P x s"
  shows "at sig port P x (bus w s)"
  using assms by (auto simp: at_def core_bus stable_ticks simp del: funpow.simps)

lemma triple_put_sig:
  assumes "key_up w" "stable w sig port P"
  shows "triple (at sig port P x) (put_sig w v) (at v port P x)"
  using assms by (auto simp: triple_def put_sig_def at_def core_bus stable_ticks simp del: funpow.simps)

lemma triple_put_port:
  assumes "key_up w" "stable w sig port P"
  shows "triple (at sig port P (k, o', l)) (put_port w f) (at sig (word_of_int (f l)) P (k, o', l))"
proof -
  have "at sig (word_of_int (f l)) P (k, o', l) ((bus w s)\<lparr>to_hw_port := word_of_int (f (loc s))\<rparr>)"
    if "at sig port P (k, o', l) s" for s
    using at_bus [OF assms that] that by (auto simp: at_def dest: rest_eqD)
  then show ?thesis by (simp add: triple_def put_port_def)
qed

lemma triple_fetch:
  assumes "key_up w" "stable w sig port P"
    and port: "\<And>z. P z \<Longrightarrow> to_sw_port (fst z) = v"
  shows "triple (at sig port P (k, o', l)) (fetch w upd) (at sig port P (k, o', upd (sint v) l))"
proof -
  have "at sig port P (k, o', upd (sint v) l)
      ((bus w s)\<lparr>loc := upd (sint (to_sw_port (io (bus w s)))) (loc (bus w s))\<rparr>)"
    if "at sig port P (k, o', l) s" for s
    using at_bus [OF assms(1,2) that] port [of "core (bus w s)"] rest_eqD [of "bus w s" k o' l]
    unfolding at_def by (simp add: core_def)
  then show ?thesis by (simp add: triple_def fetch_def Let_def)
qed

lemma triple_say:
  "fmt \<noteq> ''to_sw_sig is %d'' \<Longrightarrow>
   triple (at sig port P (k, o', l)) (say fmt args) (at sig port P (k, o' @ [(fmt, args l)], l))"
  by (auto simp: triple_def at_def say_def clean_def dest: rest_eqD)

lemma triple_scan:
  "triple (at sig port P (x # k, o', l)) (scan upd) (at sig port P (k, o', upd x l))"
  by (auto simp: triple_def at_def scan_def scanf_int_def rest_def)

lemma triple_assign:
  "triple (at sig port P (k, o', l)) (assign upd) (at sig port P (k, o', upd l))"
  by (auto simp: triple_def at_def assign_def dest: rest_eqD)

text \<open>A loop on the answer ends when the hardware leads to it.\<close>

lemma poll_finishes:
  assumes key: "key_up w"
    and N: "\<And>k. N \<le> k \<Longrightarrow> to_sw_sig (fst ((tick w (to_hw_sig s) (to_hw_port s) ^^ k) (core s))) = v"
  shows "\<exists>s' k. 0 < k \<and> poll w v s = Some s' \<and> rest s' = rest s \<and>
      to_hw_sig s' = to_hw_sig s \<and> to_hw_port s' = to_hw_port s \<and>
      core s' = (tick w (to_hw_sig s) (to_hw_port s) ^^ k) (core s) \<and> to_sw_sig (io s') = v"
  using N
proof (induction N arbitrary: s rule: less_induct)
  case (less N)
  let ?t = "tick w (to_hw_sig s) (to_hw_port s)" and ?n = "Suc (w_lag w (accesses s))"
  have b: "core (bus w s) = (?t ^^ ?n) (core s)" by (rule core_bus [OF key])
  show ?case
  proof (cases "to_sw_sig (io (bus w s)) = v")
    case True
    then have "poll w v s = Some (bus w s)" by (simp add: poll.simps Let_def)
    with True b show ?thesis by (intro exI [of _ "bus w s"] exI [of _ ?n]) simp
  next
    case False
    then have "\<not> N \<le> ?n" using less.prems [of ?n] b by (simp add: core_def del: funpow.simps) (metis fst_conv)
    then have "N - ?n < N" by simp
    moreover have "to_sw_sig (fst ((tick w (to_hw_sig (bus w s)) (to_hw_port (bus w s)) ^^ k)
        (core (bus w s)))) = v" if "N - ?n \<le> k" for k
    proof -
      have "(?t ^^ k) (core (bus w s)) = (?t ^^ (k + ?n)) (core s)"
        by (simp only: b funpow_add o_apply)
      moreover have "N \<le> k + ?n" using that by simp
      ultimately show ?thesis using less.prems [of "k + ?n"] by (simp del: funpow.simps)
    qed
    ultimately obtain s' k where s': "0 < k" "poll w v (bus w s) = Some s'" "rest s' = rest s"
        "to_hw_sig s' = to_hw_sig s" "to_hw_port s' = to_hw_port s"
        "core s' = (?t ^^ k) (core (bus w s))" "to_sw_sig (io s') = v"
      using less.IH [of "N - ?n" "bus w s"] by auto
    have "core s' = (?t ^^ (k + ?n)) (core s)" by (simp only: s'(6) b funpow_add o_apply)
    moreover have "poll w v s = Some s'" using False s'(2) by (simp add: poll.simps [of w v s] Let_def)
    ultimately show ?thesis using s' by (intro exI [of _ s'] exI [of _ "k + ?n"]) simp
  qed
qed

lemma triple_await:
  assumes "key_up w" and l: "leads w sig port v P Q"
  shows "triple (at sig port P x) (await w v) (at sig port Q x)"
  unfolding triple_def
proof (intro allI impI)
  fix s assume s: "at sig port P x s"
  then have P: "P (core s)" and sig: "to_hw_sig s = sig" "to_hw_port s = port" by (simp_all add: at_def)
  from l P obtain N where N: "\<And>k. N \<le> k \<Longrightarrow> to_sw_sig (fst ((tick w sig port ^^ k) (core s))) = v"
    and Q: "\<And>k. 0 < k \<Longrightarrow> to_sw_sig (fst ((tick w sig port ^^ k) (core s))) = v \<Longrightarrow>
      Q ((tick w sig port ^^ k) (core s))"
    unfolding leads_def by blast
  from poll_finishes [OF assms(1), of N s v] N sig obtain s' k where s': "0 < k" "poll w v s = Some s'"
      "rest s' = rest s" "to_hw_sig s' = sig" "to_hw_port s' = port"
      "core s' = (tick w sig port ^^ k) (core s)" "to_sw_sig (io s') = v" by auto
  then have "Q (core s')" using Q [of k] by (simp add: core_def) (metis fst_conv)
  with s s' show "\<exists>s'. await w v s = Some (Inr s') \<and> at sig port Q x s'"
    by (simp add: await_def at_def)
qed

section \<open>Leading to an answer\<close>

lemma leadsI:
  assumes reach: "\<And>z. P z \<Longrightarrow> \<exists>n>0. Q ((tick w sig port ^^ n) z) \<and>
      (\<forall>k. 0 < k \<longrightarrow> k < n \<longrightarrow> to_sw_sig (fst ((tick w sig port ^^ k) z)) \<noteq> v)"
    and stay: "stable w sig port Q" and ans: "\<And>z. Q z \<Longrightarrow> to_sw_sig (fst z) = v"
  shows "leads w sig port v P Q"
  unfolding leads_def
proof (intro allI impI)
  fix z assume "P z"
  then obtain n where n: "0 < n" "Q ((tick w sig port ^^ n) z)"
      "\<forall>k. 0 < k \<longrightarrow> k < n \<longrightarrow> to_sw_sig (fst ((tick w sig port ^^ k) z)) \<noteq> v" using reach by blast
  have later: "Q ((tick w sig port ^^ k) z)" if "n \<le> k" for k
  proof -
    have "(tick w sig port ^^ k) z = (tick w sig port ^^ (k - n)) ((tick w sig port ^^ n) z)"
      using that by (simp flip: funpow_add [THEN fun_cong, unfolded o_apply])
    then show ?thesis using stable_ticks [OF stay n(2)] by simp
  qed
  show "(\<forall>k>0. to_sw_sig (fst ((tick w sig port ^^ k) z)) = v \<longrightarrow> Q ((tick w sig port ^^ k) z)) \<and>
      (\<exists>N. \<forall>k\<ge>N. to_sw_sig (fst ((tick w sig port ^^ k) z)) = v)"
    using later n(3) ans by (metis not_le)
qed

text \<open>One edge changes the state, the next one the answer.\<close>

lemma leads_two:
  assumes "\<And>z. P z \<Longrightarrow> M (tick w sig port z)"
    and "\<And>z. M z \<Longrightarrow> Q (tick w sig port z) \<and> to_sw_sig (fst z) \<noteq> v"
    and "stable w sig port Q" "\<And>z. Q z \<Longrightarrow> to_sw_sig (fst z) = v"
  shows "leads w sig port v P Q"
proof (rule leadsI [OF _ assms(3,4)])
  fix z assume "P z"
  then have "Q ((tick w sig port ^^ 2) z) \<and>
      (\<forall>k. 0 < k \<longrightarrow> k < 2 \<longrightarrow> to_sw_sig (fst ((tick w sig port ^^ k) z)) \<noteq> v)"
    using assms(1,2) by (auto simp: numeral_2_eq_2 less_Suc_eq)
  then show "\<exists>n>0. Q ((tick w sig port ^^ n) z) \<and>
      (\<forall>k. 0 < k \<longrightarrow> k < n \<longrightarrow> to_sw_sig (fst ((tick w sig port ^^ k) z)) \<noteq> v)"
    by (intro exI [of _ 2]) simp
qed

section \<open>Sending a number\<close>

text \<open>The four registers the processor fills, with the command and the states of each.\<close>

datatype slot = S_prime1 | S_prime2 | S_e | S_plaintext

fun slot_cmd :: "slot \<Rightarrow> nibble" where
  "slot_cmd S_prime1 = 1" | "slot_cmd S_prime2 = 2" | "slot_cmd S_e = 4" | "slot_cmd S_plaintext = 5"

fun slot_read :: "slot \<Rightarrow> io_state" where
  "slot_read S_prime1 = READ_PRM1" | "slot_read S_prime2 = READ_PRM2"
| "slot_read S_e = READ_E" | "slot_read S_plaintext = READ_PLAINTEXT"

fun slot_ack :: "slot \<Rightarrow> io_state" where
  "slot_ack S_prime1 = ACK_PRM1" | "slot_ack S_prime2 = ACK_PRM2"
| "slot_ack S_e = ACK_E" | "slot_ack S_plaintext = ACK_PLAINTEXT"

fun slot_answer :: "slot \<Rightarrow> nibble" where
  "slot_answer S_prime1 = 2" | "slot_answer S_prime2 = 0" | "slot_answer S_e = 0" | "slot_answer S_plaintext = 0"

fun slots :: "io_regs \<Rightarrow> slot \<Rightarrow> alt_u32" where
  "slots r S_prime1 = prime1 r" | "slots r S_prime2 = prime2 r"
| "slots r S_e = e_reg r" | "slots r S_plaintext = plaintext r"

text \<open>No unit is started.\<close>

definition calm :: "io_regs \<Rightarrow> bool" where
  "calm r \<longleftrightarrow> \<not> encrypt_ready r \<and> \<not> decrypt_ready r \<and> \<not> phi_ready r \<and> \<not> n_ready r \<and>
     \<not> generated_ready r \<and> \<not> prime_checker_ready1 r \<and> \<not> prime_checker_ready2 r"

text \<open>A property of the units that their edges keep as long as none is started.\<close>

definition quiet :: "'u world \<Rightarrow> ('u \<Rightarrow> bool) \<Rightarrow> bool" where
  "quiet w U \<longleftrightarrow> (\<forall>r u. calm r \<longrightarrow> U u \<longrightarrow> U (w_step w True r u))"

lemma quietD: "quiet w U \<Longrightarrow> calm r \<Longrightarrow> U u \<Longrightarrow> U (w_step w True r u)"
  by (simp add: quiet_def)

definition region :: "io_state \<Rightarrow> nibble \<Rightarrow> (slot \<Rightarrow> alt_u32) \<Rightarrow> ('u \<Rightarrow> bool) \<Rightarrow> io_regs \<times> 'u \<Rightarrow> bool" where
  "region st a v U z \<longleftrightarrow>
     state (fst z) = st \<and> to_sw_sig (fst z) = a \<and> slots (fst z) = v \<and> calm (fst z) \<and> U (snd z)"

lemma slots_ext: "slots r = v \<longleftrightarrow> prime1 r = v S_prime1 \<and> prime2 r = v S_prime2 \<and>
    e_reg r = v S_e \<and> plaintext r = v S_plaintext" (is "_ \<longleftrightarrow> ?R")
proof
  assume ?R
  then have "slots r s = v s" for s by (cases s) simp_all
  then show "slots r = v" by (rule ext)
qed auto

text \<open>The edge of a region: \<open>WAIT\<close>, a slot being read, a slot acknowledged.\<close>

lemma tick_simps [simp]:
  "fst (tick w sig port z) = io_clock True sig port (w_out w (snd z)) (fst z)"
  "snd (tick w sig port z) = w_step w True (fst z) (snd z)"
  by (simp_all add: tick_def)

lemma region_wait_cmd:
  "quiet w U \<Longrightarrow> region WAIT 7 v U z \<Longrightarrow> region (slot_read s) 7 v U (tick w (slot_cmd s) port z)"
  using quietD [of w U "fst z" "snd z"]
  by (cases s) (simp_all add: region_def calm_def io_clock_def slots_ext)

lemma region_read:
  "quiet w U \<Longrightarrow> region (slot_read s) a v U z \<Longrightarrow> sig \<noteq> 0 \<Longrightarrow>
   region (slot_read s) 1 (v(s := port)) U (tick w sig port z)"
  using quietD [of w U "fst z" "snd z"]
  by (cases s) (simp_all add: region_def calm_def io_clock_def slots_ext)

lemma region_read_ack:
  "quiet w U \<Longrightarrow> region (slot_read s) a v U z \<Longrightarrow>
   region (slot_ack s) 1 (v(s := port)) U (tick w 0 port z)"
  using quietD [of w U "fst z" "snd z"]
  by (cases s) (simp_all add: region_def calm_def io_clock_def slots_ext)

lemma region_ack:
  "quiet w U \<Longrightarrow> region (slot_ack s) a v U z \<Longrightarrow> sig = 0 \<Longrightarrow>
   region (slot_ack s) (slot_answer s) v U (tick w sig port z)"
  using quietD [of w U "fst z" "snd z"]
  by (cases s) (simp_all add: region_def calm_def io_clock_def slots_ext)

lemma region_ack_wait:
  "quiet w U \<Longrightarrow> region (slot_ack s) a v U z \<Longrightarrow>
   region WAIT (slot_answer s) v U (tick w 8 port z)"
  using quietD [of w U "fst z" "snd z"]
  by (cases s) (simp_all add: region_def calm_def io_clock_def slots_ext)

lemma region_wait:
  "quiet w U \<Longrightarrow> region WAIT a v U z \<Longrightarrow> region WAIT 7 v U (tick w 8 port z)"
  using quietD [of w U "fst z" "snd z"]
  by (simp add: region_def calm_def io_clock_def slots_ext)

text \<open>From the command until the number is in its register the hardware is somewhere on the way.\<close>

definition sending :: "slot \<Rightarrow> (slot \<Rightarrow> alt_u32) \<Rightarrow> ('u \<Rightarrow> bool) \<Rightarrow> io_regs \<times> 'u \<Rightarrow> bool" where
  "sending s v U z \<longleftrightarrow>
     region WAIT 7 v U z \<or> (\<exists>x a. a \<in> {7, 1} \<and> region (slot_read s) a (v(s := x)) U z)"

lemma slot_cmd_neq [simp]: "slot_cmd s \<noteq> 0" "slot_cmd s \<noteq> 8" "slot_answer s \<noteq> 1" "slot_answer s \<noteq> 7"
  by (cases s; simp)+

lemma stable_wait: "quiet w U \<Longrightarrow> stable w 8 port (region WAIT 7 v U)"
  unfolding stable_def using region_wait by blast

lemma stable_sending:
  assumes q: "quiet w U"
  shows "stable w (slot_cmd s) port (sending s v U)"
  unfolding stable_def sending_def
proof (intro allI impI, elim disjE exE conjE)
  fix z assume "region WAIT 7 v U z"
  then have "region (slot_read s) 7 (v(s := v s)) U (tick w (slot_cmd s) port z)"
    using region_wait_cmd [OF q] by simp
  then show "region WAIT 7 v U (tick w (slot_cmd s) port z) \<or>
      (\<exists>x a. a \<in> {7, 1} \<and> region (slot_read s) a (v(s := x)) U (tick w (slot_cmd s) port z))"
    by blast
next
  fix z x a assume "region (slot_read s) a (v(s := x)) U z" and "a \<in> {7, 1}"
  from region_read [OF q this(1), of "slot_cmd s" port]
  show "region WAIT 7 v U (tick w (slot_cmd s) port z) \<or>
      (\<exists>x a. a \<in> {7, 1} \<and> region (slot_read s) a (v(s := x)) U (tick w (slot_cmd s) port z))"
    by auto
qed

lemma sending_reads:
  assumes q: "quiet w U"
  shows "leads w (slot_cmd s) port 1 (sending s v U) (region (slot_read s) 1 (v(s := port)) U)"
proof (rule leadsI)
  let ?t = "tick w (slot_cmd s) port" and ?Q = "region (slot_read s) 1 (v(s := port)) U"
  have read: "?Q (?t z)" if "region (slot_read s) a (v(s := x)) U z" for z a x
    using region_read [OF q that, of "slot_cmd s" port] by simp
  show "\<exists>n>0. ?Q ((?t ^^ n) z) \<and> (\<forall>k. 0 < k \<longrightarrow> k < n \<longrightarrow> to_sw_sig (fst ((?t ^^ k) z)) \<noteq> 1)"
    if "sending s v U z" for z
    using that unfolding sending_def
  proof (elim disjE exE conjE)
    assume "region WAIT 7 v U z"
    then have r: "region (slot_read s) 7 (v(s := v s)) U (?t z)" using region_wait_cmd [OF q] by simp
    have "to_sw_sig (fst (?t z)) \<noteq> 1" using r by (simp add: region_def del: tick_simps)
    then have "?Q ((?t ^^ 2) z) \<and> (\<forall>k. 0 < k \<longrightarrow> k < 2 \<longrightarrow> to_sw_sig (fst ((?t ^^ k) z)) \<noteq> 1)"
      using read [OF r] by (auto simp: numeral_2_eq_2 less_Suc_eq simp del: tick_simps)
    then show ?thesis by (intro exI [of _ 2]) simp
  next
    fix x a assume "region (slot_read s) a (v(s := x)) U z" and "a \<in> {7, 1}"
    then have "?Q (?t z)" by (intro read)
    then show ?thesis by (intro exI [of _ 1]) simp
  qed
  show "stable w (slot_cmd s) port ?Q" unfolding stable_def using read by blast
  show "?Q z \<Longrightarrow> to_sw_sig (fst z) = 1" for z by (simp add: region_def)
qed

lemma read_acks:
  assumes q: "quiet w U"
  shows "leads w 0 port (slot_answer s) (region (slot_read s) 1 (v(s := port)) U)
    (region (slot_ack s) (slot_answer s) (v(s := port)) U)"
proof (rule leads_two [where M = "region (slot_ack s) 1 (v(s := port)) U"])
  show "region (slot_read s) 1 (v(s := port)) U z \<Longrightarrow>
      region (slot_ack s) 1 (v(s := port)) U (tick w 0 port z)" for z
    using region_read_ack [OF q, of s 1 "v(s := port)" z port] by simp
  show "region (slot_ack s) 1 (v(s := port)) U z \<Longrightarrow>
      region (slot_ack s) (slot_answer s) (v(s := port)) U (tick w 0 port z) \<and>
      to_sw_sig (fst z) \<noteq> slot_answer s" for z
    using region_ack [OF q, of s 1 "v(s := port)" z 0 port] slot_cmd_neq(3) [of s] by (auto simp: region_def)
  show "stable w 0 port (region (slot_ack s) (slot_answer s) (v(s := port)) U)"
    unfolding stable_def using region_ack [OF q] by blast
qed (simp add: region_def)

lemma ack_waits:
  assumes q: "quiet w U"
  shows "leads w 8 port 7 (region (slot_ack s) (slot_answer s) v U) (region WAIT 7 v U)"
proof (rule leads_two [where M = "region WAIT (slot_answer s) v U"])
  show "region WAIT (slot_answer s) v U z \<Longrightarrow>
      region WAIT 7 v U (tick w 8 port z) \<and> to_sw_sig (fst z) \<noteq> 7" for z
    using region_wait [OF q] slot_cmd_neq(4) [of s] by (auto simp: region_def)
qed (use region_ack_wait [OF q] stable_wait [OF q] in \<open>auto simp: region_def\<close>)

text \<open>The whole exchange, as the driver writes it out for each of the four numbers.\<close>

definition send_stmts :: "'u world \<Rightarrow> slot \<Rightarrow> (locals \<Rightarrow> int) \<Rightarrow> 'u stmt list" where
  "send_stmts w s f =
     [put_sig w (slot_cmd s), put_port w f, await w 1, put_sig w 0, await w (slot_answer s),
      put_sig w 8, await w 7]"

lemma seq_append:
  "seq (cs @ ds) s =
     Option.bind (seq cs s) (\<lambda>r. case r of Inl e \<Rightarrow> Some (Inl e) | Inr s' \<Rightarrow> seq ds s')"
proof (induction cs arbitrary: s)
  case (Cons c cs)
  then show ?case by (cases "c s") (auto split: sum.split)
qed simp

lemma triple_seq_append:
  "triple P (seq cs) R \<Longrightarrow> triple R (seq ds) Q \<Longrightarrow> triple P (seq (cs @ ds)) Q"
  by (fastforce simp: triple_def seq_append)

lemma triple_send:
  assumes k: "key_up w" and q: "quiet w U"
  shows "triple (at 8 port (region WAIT 7 v U) (kb, o', l)) (seq (send_stmts w s f))
    (at 8 (word_of_int (f l)) (region WAIT 7 (v(s := word_of_int (f l))) U) (kb, o', l))"
proof -
  let ?p = "word_of_int (f l) :: alt_u32" and ?x = "(kb, o', l)"
  note step = triple_seq_Cons
  have send: "region WAIT 7 v U z \<Longrightarrow> sending s v U z" for z by (simp add: sending_def)
  have st1: "stable w 0 ?p (region (slot_ack s) (slot_answer s) (v(s := ?p)) U)"
    unfolding stable_def using region_ack [OF q] by blast
  have st2: "stable w (slot_cmd s) ?p (region (slot_read s) 1 (v(s := ?p)) U)"
    unfolding stable_def using region_read [OF q] by fastforce
  have "triple (at 8 port (region WAIT 7 v U) ?x) (put_sig w (slot_cmd s))
      (at (slot_cmd s) port (sending s v U) ?x)"
    by (rule triple_conseq [OF triple_put_sig [OF k stable_wait [OF q]]])
      (auto simp: at_def send)
  moreover note triple_put_port [OF k stable_sending [OF q, of s port v], of "kb" "o'" l f]
    triple_await [OF k sending_reads [OF q, of s ?p v], of ?x] triple_put_sig [OF k st2, of ?x 0]
    triple_await [OF k read_acks [OF q, of ?p s v], of ?x] triple_put_sig [OF k st1, of ?x 8]
    triple_await [OF k ack_waits [OF q, of ?p s "v(s := ?p)"], of ?x]
  ultimately show ?thesis unfolding send_stmts_def
    by (rule triple_seq_Cons [OF _ triple_seq_Cons [OF _ triple_seq_Cons [OF _ triple_seq_Cons [OF _
          triple_seq_Cons [OF _ triple_seq_Cons [OF _ triple_seq_Cons [OF _ triple_seq_Nil]]]]]]])
qed

end
