(* ===== verification/Computing_Unit.thy ===== *)
theory Computing_Unit
  imports HAL_Prelude
begin

text \<open>
  The contract of the coprocessor's computing units. They are small state machines with a
  start line, arguments, a \<open>done\<close> flag and a result; all of them, and the units they are built
  of, are used once between two resets. \<open>step reset_n ready args u\<close> is a clock edge.
\<close>

section \<open>Running until\<close>

text \<open>\<open>until step D Q u\<close>: repeating \<open>step\<close> reaches \<open>Q\<close>, and \<open>D\<close> is false before that.\<close>

inductive until :: "('u \<Rightarrow> 'u) \<Rightarrow> ('u \<Rightarrow> bool) \<Rightarrow> ('u \<Rightarrow> bool) \<Rightarrow> 'u \<Rightarrow> bool"
  for step :: "'u \<Rightarrow> 'u" and D :: "'u \<Rightarrow> bool" and Q :: "'u \<Rightarrow> bool" where
  until_now: "Q u \<Longrightarrow> until step D Q u"
| until_step: "\<not> D u \<Longrightarrow> until step D Q (step u) \<Longrightarrow> until step D Q u"

lemma until_trans:
  "until step D Q u \<Longrightarrow> (\<And>v. Q v \<Longrightarrow> until step D R v) \<Longrightarrow> until step D R u"
  by (induction rule: until.induct) (auto intro: until_step)

lemma until_mono: "until step D Q u \<Longrightarrow> (\<And>v. Q v \<Longrightarrow> R v) \<Longrightarrow> until step D R u"
  by (auto intro: until_trans until_now)

lemma until_one: "\<not> D u \<Longrightarrow> Q (step u) \<Longrightarrow> until step D Q u"
  by (auto intro: until_step until_now)

text \<open>A bounded loop: each turn reaches the exit or a smaller measure.\<close>

lemma until_measure:
  fixes n :: nat
  assumes "P n u"
    and turn: "\<And>n u. P n u \<Longrightarrow> until step D (\<lambda>v. R v \<or> (\<exists>m<n. P m v)) u"
  shows "until step D R u"
  using assms(1)
proof (induction n arbitrary: u rule: less_induct)
  case (less n)
  show ?case by (rule until_trans [OF turn [OF less.prems]]) (auto intro: less.IH until_now)
qed

lemma until_iter:
  "until step D Q u \<Longrightarrow> \<exists>n. Q ((step ^^ n) u) \<and> (\<forall>k<n. \<not> D ((step ^^ k) u))"
proof (induction rule: until.induct)
  case (until_now u)
  then show ?case by (intro exI [of _ 0]) simp
next
  case (until_step u)
  then obtain n where n: "Q ((step ^^ n) (step u))" "\<forall>k<n. \<not> D ((step ^^ k) (step u))" by blast
  have "\<not> D ((step ^^ k) u)" if "k < Suc n" for k
    using n(2) until_step.hyps(1) that by (cases k) (simp_all add: funpow_swap1)
  with n(1) show ?case by (intro exI [of _ "Suc n"]) (simp add: funpow_swap1)
qed

section \<open>The contract\<close>

text \<open>
  \<open>idle\<close>: since the last reset the unit has not been started. \<open>held b v\<close>: it has finished with
  the result \<open>v\<close> and shows it; \<open>b\<close> tells whether the start line may still be high. The laws: a reset
  makes any state idle; an idle unit waits; started with proper arguments it finishes, and
  its flag is down until then; the result stays when the start line goes down and remains down.
\<close>

locale computing_unit =
  fixes step :: "bool \<Rightarrow> bool \<Rightarrow> 'a \<Rightarrow> 'u \<Rightarrow> 'u"
    and done_of :: "'u \<Rightarrow> bool" and out_of :: "'u \<Rightarrow> alt_u32"
    and idle :: "'u \<Rightarrow> bool" and held :: "bool \<Rightarrow> alt_u32 \<Rightarrow> 'u \<Rightarrow> bool"
    and ok :: "'a \<Rightarrow> bool" and f :: "'a \<Rightarrow> alt_u32"
  assumes reset_idle: "idle (step False r a u)"
    and idle_idle: "idle u \<Longrightarrow> idle (step True False a u)"
    and idle_done: "idle u \<Longrightarrow> \<not> done_of u"
    and works: "idle u \<Longrightarrow> ok a \<Longrightarrow> until (step True True a) done_of (held True (f a)) u"
    and held_done: "held b v u \<Longrightarrow> done_of u"
    and held_out: "held b v u \<Longrightarrow> out_of u = v"
    and held_high: "held True v u \<Longrightarrow> held r v (step True r a u)"
    and held_low: "held False v u \<Longrightarrow> held False v (step True False a u)"
begin

text \<open>Started, and on the way to the result for \<open>a\<close>.\<close>

definition busy :: "'a \<Rightarrow> 'u \<Rightarrow> bool" where
  "busy a u \<longleftrightarrow> until (step True True a) done_of (held True (f a)) u"

lemma idle_busy: "idle u \<Longrightarrow> ok a \<Longrightarrow> busy a u"
  by (simp add: busy_def works)

lemma held_busy: "held True (f a) u \<Longrightarrow> busy a u"
  by (simp add: busy_def until_now)

lemma busy_done: "busy a u \<Longrightarrow> done_of u \<Longrightarrow> held True (f a) u"
  unfolding busy_def by (erule until.cases) simp_all

lemma busy_step: "busy a u \<Longrightarrow> \<not> done_of u \<Longrightarrow> busy a (step True True a u)"
  unfolding busy_def by (erule until.cases) (auto dest: held_done)

text \<open>
  A machine around the unit that holds the start line up waits as long as the unit needs:
  \<open>P\<close> relates the machine to the unit inside it.
\<close>

lemma wait_for:
  assumes "busy a u" "P m u"
    and low: "\<And>m u. P m u \<Longrightarrow> busy a u \<Longrightarrow> \<not> done_of u \<Longrightarrow> \<not> D m \<and> P (mstep m) (step True True a u)"
    and high: "\<And>m u. P m u \<Longrightarrow> held True (f a) u \<Longrightarrow> until mstep D R m"
  shows "until mstep D R m"
  using assms(1,2) unfolding busy_def
proof (induction arbitrary: m rule: until.induct)
  case (until_now u)
  then show ?case using high by blast
next
  case (until_step u)
  then have "busy a u" by (simp add: busy_def until.until_step)
  then have "\<not> D m \<and> P (mstep m) (step True True a u)" using low until_step by blast
  then show ?case using until_step.IH by (blast intro: until.until_step)
qed

text \<open>The same, counting the edges that are left.\<close>

definition busy_for :: "nat \<Rightarrow> 'a \<Rightarrow> 'u \<Rightarrow> bool" where
  "busy_for n a u \<longleftrightarrow> held True (f a) ((step True True a ^^ n) u) \<and>
     (\<forall>k<n. \<not> done_of ((step True True a ^^ k) u))"

lemma starts_busy: "idle u \<Longrightarrow> ok a \<Longrightarrow> \<exists>n. busy_for n a u"
  unfolding busy_for_def by (rule until_iter [OF works])

lemma busy_for_held: "busy_for n a u \<Longrightarrow> done_of u \<Longrightarrow> held True (f a) u"
  by (cases n) (auto simp: busy_for_def)

lemma busy_for_seen: "busy_for n a u \<Longrightarrow> done_of u \<Longrightarrow> held True (f a) (step True True b u)"
  using busy_for_held held_high by blast

lemma busy_for_step:
  assumes "busy_for n a u" "\<not> done_of u"
  shows "\<exists>m<n. busy_for m a (step True True a u)"
proof (cases n)
  case 0
  then show ?thesis using assms held_done by (auto simp: busy_for_def)
next
  case (Suc m)
  have "\<not> done_of ((step True True a ^^ k) (step True True a u))" if "k < m" for k
    using assms(1) that Suc by (auto simp: busy_for_def funpow_swap1 dest: spec [of _ "Suc k"])
  then show ?thesis using assms(1) Suc
    by (intro exI [of _ m]) (simp add: busy_for_def funpow_swap1)
qed

end

end
