(* ===== verification/Arith_Units.thy ===== *)
theory Arith_Units
  imports Computing_Unit
begin

text \<open>
  The two leaves of the arithmetic: \<open>multiplier_sm.sv\<close> multiplies by repeated addition,
  \<open>modular.sv\<close> takes remainders by repeated subtraction. A register is read before the edge and
  written by it, as synthesis does it, also where the source uses a blocking assignment; in
  one process a blocking assignment is seen by what follows.
\<close>

section \<open>\<open>multiplier_sm\<close>\<close>

datatype mul_state = MUL_RESET | MUL_WAIT | MULTIPLY_LOOP_0 | MULTIPLY_LOOP_1 | MULTIPLY_DONE

record mul =
  mul_state :: mul_state
  mul_counter :: alt_u32
  temp_sum :: alt_u32
  mul_out :: alt_u32
  mult_done :: bool

fun mul_next :: "mul_state \<Rightarrow> bool \<Rightarrow> alt_u32 \<Rightarrow> alt_u32 \<Rightarrow> mul_state" where
  "mul_next MUL_RESET mult_ready counter in2 = MUL_WAIT"
| "mul_next MUL_WAIT mult_ready counter in2 = (if mult_ready then MULTIPLY_LOOP_0 else MUL_WAIT)"
| "mul_next MULTIPLY_LOOP_0 mult_ready counter in2 =
     (if counter = in2 + 1 then MULTIPLY_DONE
      else if counter < in2 + 1 then MULTIPLY_LOOP_1 else MULTIPLY_LOOP_0)"
| "mul_next MULTIPLY_LOOP_1 mult_ready counter in2 = MULTIPLY_LOOP_0"
| "mul_next MULTIPLY_DONE mult_ready counter in2 = (if mult_ready then MULTIPLY_DONE else MUL_WAIT)"

fun mul_data :: "mul_state \<Rightarrow> alt_u32 \<Rightarrow> mul \<Rightarrow> mul" where
  "mul_data MUL_RESET in1 u = u\<lparr>mul_out := 0, temp_sum := 0, mult_done := False\<rparr>"
| "mul_data MUL_WAIT in1 u = u"
| "mul_data MULTIPLY_LOOP_0 in1 u = u\<lparr>temp_sum := mul_out u + in1\<rparr>"
| "mul_data MULTIPLY_LOOP_1 in1 u = u\<lparr>mul_out := temp_sum u\<rparr>"
| "mul_data MULTIPLY_DONE in1 u = u\<lparr>mult_done := True\<rparr>"

text \<open>The counter counts the entries of \<open>MULTIPLY_LOOP_0\<close>: it sees the state just assigned.\<close>

definition multiplier_sm :: "bool \<Rightarrow> bool \<Rightarrow> alt_u32 \<times> alt_u32 \<Rightarrow> mul \<Rightarrow> mul" where
  "multiplier_sm reset_n mult_ready a u =
     (if reset_n
      then (let st = mul_next (mul_state u) mult_ready (mul_counter u) (snd a)
            in (mul_data (mul_state u) (fst a) u)
                 \<lparr>mul_state := st,
                  mul_counter := (if st = MULTIPLY_LOOP_0 then mul_counter u + 1 else mul_counter u)\<rparr>)
      else (mul_data MUL_RESET (fst a) u)\<lparr>mul_state := MUL_RESET, mul_counter := 0\<rparr>)"

definition mul_idle :: "mul \<Rightarrow> bool" where
  "mul_idle u \<longleftrightarrow> (mul_state u = MUL_RESET \<or> mul_state u = MUL_WAIT \<and> mul_out u = 0) \<and>
     mul_counter u = 0 \<and> \<not> mult_done u"

definition mul_held :: "bool \<Rightarrow> alt_u32 \<Rightarrow> mul \<Rightarrow> bool" where
  "mul_held b v u \<longleftrightarrow>
     mul_state u = (if b then MULTIPLY_DONE else MUL_WAIT) \<and> mult_done u \<and> mul_out u = v"

text \<open>After \<open>c\<close> additions.\<close>

definition mul_loop :: "alt_u32 \<times> alt_u32 \<Rightarrow> nat \<Rightarrow> mul \<Rightarrow> bool" where
  "mul_loop a c u \<longleftrightarrow> mul_state u = MULTIPLY_LOOP_0 \<and> \<not> mult_done u \<and> c \<le> unat (snd a) \<and>
     mul_counter u = of_nat (Suc c) \<and> mul_out u = of_nat c * fst a"

lemma unat_Suc_below: "b \<noteq> - 1 \<Longrightarrow> unat (b + 1) = Suc (unat b)" for b :: alt_u32
  using unat_plus32 [of b 1] word_unat_eq_iff [of b "- 1"] unat32_lt [of b]
  by (simp add: unsigned_minus_1_eq_mask mask_eq_exp_minus_1 split: if_splits)

lemma unat_of_nat32: "n < 4294967296 \<Longrightarrow> unat (of_nat n :: alt_u32) = n"
  by (simp add: unat_of_nat take_bit_nat_eq_self_iff)

lemma mul_loop_turn:
  assumes b: "snd a \<noteq> - 1" and l: "mul_loop a c u"
  shows "until (multiplier_sm True True a) mult_done
    (\<lambda>v. mul_held True (fst a * snd a) v \<or> (\<exists>c'>c. mul_loop a c' v)) u"
proof (cases "c = unat (snd a)")
  case True
  let ?v = "multiplier_sm True True a u"
  have "mul_state ?v = MULTIPLY_DONE \<and> \<not> mult_done ?v \<and> mul_out ?v = fst a * snd a"
    using l True by (simp add: mul_loop_def multiplier_sm_def Let_def mult.commute)
  then have "mul_held True (fst a * snd a) (multiplier_sm True True a ?v)"
    and "\<not> mult_done ?v" by (simp_all add: mul_held_def multiplier_sm_def Let_def)
  then show ?thesis using l by (intro until_step [where u = u] until_one) (auto simp: mul_loop_def)
next
  case False
  let ?v = "multiplier_sm True True a u"
  have c: "c < unat (snd a)" "Suc (unat (snd a)) < 4294967296"
    using False l unat32_lt [of "snd a + 1"] unat_Suc_below [OF b] by (simp_all add: mul_loop_def)
  then have lt: "mul_counter u \<noteq> snd a + 1" "mul_counter u < snd a + 1"
    using l unat_Suc_below [OF b] unat_of_nat32 [of "Suc c"]
    by (auto simp: mul_loop_def word_less_nat_alt simp del: of_nat_Suc)
  let ?w = "multiplier_sm True True a ?v"
  have v: "mul_state ?v = MULTIPLY_LOOP_1" "\<not> mult_done ?v" "mul_counter ?v = mul_counter u"
      "temp_sum ?v = mul_out u + fst a"
    using l lt by (simp_all add: mul_loop_def multiplier_sm_def Let_def)
  then have "mul_state ?w = MULTIPLY_LOOP_0" "\<not> mult_done ?w" "mul_counter ?w = mul_counter u + 1"
      "mul_out ?w = mul_out u + fst a"
    by (simp_all add: multiplier_sm_def Let_def)
  then have "mul_loop a (Suc c) ?w" using l c by (simp add: mul_loop_def algebra_simps)
  with v(2) show ?thesis using l by (intro until_step [where u = u] until_one) (auto simp: mul_loop_def)
qed

lemma mul_works:
  assumes "mul_idle u" "snd a \<noteq> - 1"
  shows "until (multiplier_sm True True a) mult_done (mul_held True (fst a * snd a)) u"
proof -
  let ?U = "until (multiplier_sm True True a) mult_done (mul_held True (fst a * snd a))"
  have loop: "?U u" if "mul_loop a c u" for c u
    using that
  proof (induction "unat (snd a) - c" arbitrary: c u rule: less_induct)
    case less
    have "?U v" if "c < c'" "mul_loop a c' v" for c' v
    proof (rule less.hyps [OF _ that(2)])
      show "unat (snd a) - c' < unat (snd a) - c" using that by (simp add: mul_loop_def) linarith
    qed
    then show ?case
      by (intro until_trans [OF mul_loop_turn [OF assms(2) less.prems]]) (auto intro: until_now)
  qed
  have start: "?U u" if "mul_state u = MUL_WAIT" "mul_out u = 0" "mul_counter u = 0" "\<not> mult_done u" for u
    using that by (intro until_step [OF _ loop [of 0]]) (simp_all add: mul_loop_def multiplier_sm_def Let_def)
  show ?thesis
  proof (cases "mul_state u = MUL_WAIT")
    case False
    then show ?thesis using assms(1)
      by (intro until_step [OF _ start]) (auto simp: mul_idle_def multiplier_sm_def Let_def)
  qed (use assms(1) start in \<open>auto simp: mul_idle_def\<close>)
qed

interpretation mult: computing_unit multiplier_sm mult_done mul_out mul_idle mul_held
    "\<lambda>a. snd a \<noteq> - 1" "\<lambda>a. fst a * snd a"
  by unfold_locales
    (auto simp: mul_works mul_idle_def mul_held_def multiplier_sm_def Let_def split: if_splits)

section \<open>\<open>modular\<close>\<close>

datatype mod_state = MODU_RESET | MODU_WAIT | MOD_INIT | MOD_ASSIGN | MOD_DONE

record modu =
  mod_state :: mod_state
  sub_hold :: alt_u32
  numerator_hold :: alt_u32
  denominator_hold :: alt_u32
  mod_result :: alt_u32
  modular_done :: bool

fun mod_next :: "mod_state \<Rightarrow> bool \<Rightarrow> modu \<Rightarrow> mod_state" where
  "mod_next MODU_RESET modular_ready u = MODU_WAIT"
| "mod_next MODU_WAIT modular_ready u = (if modular_ready then MOD_INIT else MODU_WAIT)"
| "mod_next MOD_INIT modular_ready u =
     (if numerator_hold u < denominator_hold u then MOD_DONE else MOD_ASSIGN)"
| "mod_next MOD_ASSIGN modular_ready u = MOD_INIT"
| "mod_next MOD_DONE modular_ready u = (if modular_ready then MOD_DONE else MODU_WAIT)"

fun mod_data :: "mod_state \<Rightarrow> alt_u32 \<times> alt_u32 \<Rightarrow> modu \<Rightarrow> modu" where
  "mod_data MODU_RESET a u =
     u\<lparr>mod_result := 0, sub_hold := 0, numerator_hold := 0, denominator_hold := 0, modular_done := False\<rparr>"
| "mod_data MODU_WAIT a u = u\<lparr>numerator_hold := fst a, denominator_hold := snd a\<rparr>"
| "mod_data MOD_INIT a u = u\<lparr>sub_hold := numerator_hold u - denominator_hold u\<rparr>"
| "mod_data MOD_ASSIGN a u = u\<lparr>numerator_hold := sub_hold u\<rparr>"
| "mod_data MOD_DONE a u = u\<lparr>mod_result := numerator_hold u, modular_done := True\<rparr>"

definition modular :: "bool \<Rightarrow> bool \<Rightarrow> alt_u32 \<times> alt_u32 \<Rightarrow> modu \<Rightarrow> modu" where
  "modular reset_n modular_ready a u =
     (if reset_n
      then (mod_data (mod_state u) a u)\<lparr>mod_state := mod_next (mod_state u) modular_ready u\<rparr>
      else (mod_data MODU_RESET a u)\<lparr>mod_state := MODU_RESET\<rparr>)"

definition mod_idle :: "modu \<Rightarrow> bool" where
  "mod_idle u \<longleftrightarrow> (mod_state u = MODU_RESET \<or> mod_state u = MODU_WAIT) \<and> \<not> modular_done u"

definition mod_held :: "bool \<Rightarrow> alt_u32 \<Rightarrow> modu \<Rightarrow> bool" where
  "mod_held b v u \<longleftrightarrow> mod_state u = (if b then MOD_DONE else MODU_WAIT) \<and> modular_done u \<and>
     mod_result u = v \<and> (b \<longrightarrow> numerator_hold u = v)"

definition mod_loop :: "alt_u32 \<Rightarrow> alt_u32 \<Rightarrow> nat \<Rightarrow> modu \<Rightarrow> bool" where
  "mod_loop d v n u \<longleftrightarrow> mod_state u = MOD_INIT \<and> \<not> modular_done u \<and> denominator_hold u = d \<and>
     unat (numerator_hold u) = n \<and> numerator_hold u mod d = v"

lemma mod_loop_turn:
  assumes d: "d \<noteq> 0" and l: "mod_loop d v n u"
  shows "until (modular True True a) modular_done
    (\<lambda>w. mod_held True v w \<or> (\<exists>m<n. mod_loop d v m w)) u"
proof (cases "numerator_hold u < d")
  case True
  let ?w = "modular True True a u"
  have "numerator_hold u mod d = numerator_hold u"
    using True by (simp add: word_unat_eq_iff unat_mod_distrib word_less_nat_alt)
  then have "mod_state ?w = MOD_DONE \<and> \<not> modular_done ?w \<and> numerator_hold ?w = v"
    using l True by (simp add: mod_loop_def modular_def)
  then have "mod_held True v (modular True True a ?w)" and "\<not> modular_done ?w"
    by (simp_all add: mod_held_def modular_def)
  then show ?thesis using l by (intro until_step [where u = u] until_one) (auto simp: mod_loop_def)
next
  case False
  let ?w = "modular True True a u" and ?n = "numerator_hold u - d"
  have n: "unat ?n = unat (numerator_hold u) - unat d" "0 < unat d" "unat d \<le> unat (numerator_hold u)"
    using False d by (simp_all add: unat_sub not_less word_le_nat_alt unat_gt_0)
  then have "?n mod d = numerator_hold u mod d"
    by (simp add: word_unat_eq_iff unat_mod_distrib le_mod_geq)
  moreover have "mod_state ?w = MOD_ASSIGN \<and> \<not> modular_done ?w \<and> denominator_hold ?w = d \<and> sub_hold ?w = ?n"
    using l False by (simp add: mod_loop_def modular_def)
  ultimately have "mod_loop d v (unat ?n) (modular True True a ?w)" and "\<not> modular_done ?w"
    using l by (simp_all add: mod_loop_def modular_def)
  moreover have "unat ?n < n" using n l by (simp add: mod_loop_def)
  ultimately show ?thesis using l
    by (intro until_step [where u = u] until_one) (auto simp: mod_loop_def)
qed

lemma mod_works:
  assumes "mod_idle u" "snd a \<noteq> 0"
  shows "until (modular True True a) modular_done (mod_held True (fst a mod snd a)) u"
proof -
  let ?U = "until (modular True True a) modular_done (mod_held True (fst a mod snd a))"
  have start: "?U u" if "mod_state u = MODU_WAIT" "\<not> modular_done u" for u
  proof (rule until_step)
    have "mod_loop (snd a) (fst a mod snd a) (unat (fst a)) (modular True True a u)"
      using that by (simp add: mod_loop_def modular_def)
    then show "?U (modular True True a u)" by (rule until_measure) (rule mod_loop_turn [OF assms(2)])
  qed (use that in simp)
  show ?thesis
  proof (cases "mod_state u = MODU_WAIT")
    case False
    then show ?thesis using assms(1) by (intro until_step [OF _ start]) (auto simp: mod_idle_def modular_def)
  qed (use assms(1) start in \<open>auto simp: mod_idle_def\<close>)
qed

interpretation modu: computing_unit modular modular_done mod_result mod_idle mod_held
    "\<lambda>a. snd a \<noteq> 0" "\<lambda>a. fst a mod snd a"
proof (unfold_locales, goal_cases)
  case (2 u a)
  then show ?case by (auto simp: mod_idle_def modular_def)
next
  case (4 u a)
  then show ?case by (rule mod_works)
next
  case (7 v u r a)
  then show ?case by (simp add: mod_held_def modular_def)
next
  case (8 v u a)
  then show ?case by (simp add: mod_held_def modular_def)
qed (simp_all add: mod_idle_def mod_held_def modular_def)

end
