(* ===== verification/Product_Units.thy ===== *)
theory Product_Units
  imports Arith_Units
begin

text \<open>
  The units built of a multiplier: \<open>n_gen.sv\<close> and \<open>phi_gen.sv\<close>, and \<open>modular_multiplication.sv\<close>,
  which passes the product on to a \<open>modular\<close>. The units inside see the registers of the outer
  one as they were before the edge.
\<close>

section \<open>\<open>n_gen\<close> and \<open>phi_gen\<close>\<close>

datatype gen_state = GEN_RESET | GEN_WAIT | GEN_COMPUTE | GEN_FINISHED

record gen =
  gen_state :: gen_state
  gen_mult_ready :: bool
  gen_in1 :: alt_u32
  gen_in2 :: alt_u32
  gen_out :: alt_u32
  gen_done :: bool
  gen_mult :: mul

fun gen_next :: "gen_state \<Rightarrow> bool \<Rightarrow> bool \<Rightarrow> gen_state" where
  "gen_next GEN_RESET ready mdone = GEN_WAIT"
| "gen_next GEN_WAIT ready mdone = (if ready then GEN_COMPUTE else GEN_WAIT)"
| "gen_next GEN_COMPUTE ready mdone = (if mdone then GEN_FINISHED else GEN_COMPUTE)"
| "gen_next GEN_FINISHED ready mdone = (if \<not> ready then GEN_WAIT else GEN_FINISHED)"

fun gen_data :: "gen_state \<Rightarrow> alt_u32 \<times> alt_u32 \<Rightarrow> gen \<Rightarrow> gen" where
  "gen_data GEN_RESET a u =
     u\<lparr>gen_mult_ready := False, gen_in1 := 0, gen_in2 := 0, gen_done := False, gen_out := 0\<rparr>"
| "gen_data GEN_WAIT a u = u"
| "gen_data GEN_COMPUTE a u = u\<lparr>gen_in1 := fst a, gen_in2 := snd a, gen_mult_ready := True\<rparr>"
| "gen_data GEN_FINISHED a u = u\<lparr>gen_out := mul_out (gen_mult u), gen_done := True\<rparr>"

definition gen_step :: "bool \<Rightarrow> bool \<Rightarrow> alt_u32 \<times> alt_u32 \<Rightarrow> gen \<Rightarrow> gen" where
  "gen_step reset_n ready a u =
     (let st = (if reset_n then gen_state u else GEN_RESET)
      in (gen_data st a u)
           \<lparr>gen_state := (if reset_n then gen_next st ready (mult_done (gen_mult u)) else GEN_RESET),
            gen_mult := multiplier_sm reset_n (gen_mult_ready u) (gen_in1 u, gen_in2 u) (gen_mult u)\<rparr>)"

text \<open>The two modules differ in what they multiply.\<close>

definition n_gen :: "bool \<Rightarrow> bool \<Rightarrow> alt_u32 \<times> alt_u32 \<Rightarrow> gen \<Rightarrow> gen" where
  "n_gen reset_n n_ready a = gen_step reset_n n_ready (fst a, snd a)"

definition phi_gen :: "bool \<Rightarrow> bool \<Rightarrow> alt_u32 \<times> alt_u32 \<Rightarrow> gen \<Rightarrow> gen" where
  "phi_gen reset_n phi_ready a = gen_step reset_n phi_ready (fst a - 1, snd a - 1)"

definition gen_idle :: "gen \<Rightarrow> bool" where
  "gen_idle u \<longleftrightarrow> gen_state u \<in> {GEN_RESET, GEN_WAIT} \<and> \<not> gen_mult_ready u \<and> \<not> gen_done u \<and>
     mul_idle (gen_mult u)"

definition gen_held :: "bool \<Rightarrow> alt_u32 \<Rightarrow> gen \<Rightarrow> bool" where
  "gen_held b v u \<longleftrightarrow> gen_state u = (if b then GEN_FINISHED else GEN_WAIT) \<and> gen_done u \<and>
     gen_out u = v \<and> (b \<longrightarrow> gen_mult_ready u \<and> mul_held True v (gen_mult u))"

definition gen_runs :: "alt_u32 \<times> alt_u32 \<Rightarrow> gen \<Rightarrow> mul \<Rightarrow> bool" where
  "gen_runs a u m \<longleftrightarrow> gen_state u = GEN_COMPUTE \<and> gen_mult_ready u \<and> \<not> gen_done u \<and>
     gen_in1 u = fst a \<and> gen_in2 u = snd a \<and> gen_mult u = m"

lemma gen_finishes:
  assumes "gen_runs a u m" "mul_held True (fst a * snd a) m"
  shows "until (gen_step True True a) gen_done (gen_held True (fst a * snd a)) u"
proof (rule until_step [OF _ until_one])
  let ?v = "gen_step True True a u"
  have m: "mul_held True (fst a * snd a) (gen_mult ?v)"
    using assms mult.held_high [of "fst a * snd a" m True "(gen_in1 u, gen_in2 u)"]
    by (simp add: gen_runs_def gen_step_def)
  have v: "gen_state ?v = GEN_FINISHED" "\<not> gen_done ?v" "gen_mult_ready ?v"
    using assms mult.held_done [of True "fst a * snd a" m] by (simp_all add: gen_runs_def gen_step_def)
  show "gen_held True (fst a * snd a) (gen_step True True a ?v)"
    using v m mult.held_out [OF m] mult.held_high [OF m, of True "(gen_in1 ?v, gen_in2 ?v)"]
    by (simp add: gen_held_def gen_step_def)
  show "\<not> gen_done ?v" by (rule v)
qed (use assms in \<open>simp add: gen_runs_def\<close>)

lemma gen_works:
  assumes "gen_idle u" "snd a \<noteq> - 1"
  shows "until (gen_step True True a) gen_done (gen_held True (fst a * snd a)) u"
proof -
  let ?U = "until (gen_step True True a) gen_done (gen_held True (fst a * snd a))"
  have runs: "?U u" if "gen_runs a u m" "mul_idle m" for u m
  proof (rule mult.wait_for [where P = "gen_runs a" and a = a])
    show "mult.busy a m" using that assms(2) by (intro mult.idle_busy)
    show "gen_runs a u m" by (rule that)
    show "\<not> gen_done x \<and> gen_runs a (gen_step True True a x) (multiplier_sm True True a y)"
      if "gen_runs a x y" "\<not> mult_done y" for x y
      using that by (simp add: gen_runs_def gen_step_def)
  qed (rule gen_finishes)
  have compute: "?U u" if "gen_state u = GEN_COMPUTE" "\<not> gen_mult_ready u" "\<not> gen_done u" "mul_idle (gen_mult u)" for u
    using that mult.idle_done [OF that(4)] mult.idle_idle [OF that(4)]
    by (intro until_step [OF _ runs [of _ "multiplier_sm True False (gen_in1 u, gen_in2 u) (gen_mult u)"]])
      (simp_all add: gen_runs_def gen_step_def)
  have wait: "?U u" if "gen_state u = GEN_WAIT" "\<not> gen_mult_ready u" "\<not> gen_done u" "mul_idle (gen_mult u)" for u
    using that mult.idle_idle [OF that(4)]
    by (intro until_step [OF _ compute]) (simp_all add: gen_step_def)
  show ?thesis
  proof (cases "gen_state u = GEN_WAIT")
    case False
    then show ?thesis using assms(1) mult.idle_idle [of "gen_mult u"]
      by (intro until_step [OF _ wait]) (auto simp: gen_idle_def gen_step_def)
  qed (use assms(1) wait in \<open>simp add: gen_idle_def\<close>)
qed

lemma gen_unit:
  "computing_unit gen_step gen_done gen_out gen_idle gen_held (\<lambda>a. snd a \<noteq> - 1) (\<lambda>a. fst a * snd a)"
proof (unfold_locales, goal_cases)
  case (1 r a u)
  then show ?case using mult.reset_idle by (simp add: gen_idle_def gen_step_def)
next
  case (2 u a)
  then show ?case using mult.idle_idle by (auto simp: gen_idle_def gen_step_def)
next
  case (4 u a)
  then show ?case by (rule gen_works)
next
  case (7 v u r a)
  then show ?case using mult.held_high mult.held_out [of True v "gen_mult u"]
    by (simp add: gen_held_def gen_step_def)
next
  case (8 v u a)
  then show ?case by (simp add: gen_held_def gen_step_def)
qed (simp_all add: gen_idle_def gen_held_def)

lemma computing_unit_args:
  assumes "computing_unit step done_of out_of idle held ok f"
  shows "computing_unit (\<lambda>r b a. step r b (g a)) done_of out_of idle held (\<lambda>a. ok (g a)) (\<lambda>a. f (g a))"
  using assms unfolding computing_unit_def by simp

interpretation ngen: computing_unit n_gen gen_done gen_out gen_idle gen_held
    "\<lambda>a. snd a \<noteq> - 1" "\<lambda>a. fst a * snd a"
proof -
  have "n_gen = gen_step" by (intro ext) (simp add: n_gen_def)
  then show "computing_unit n_gen gen_done gen_out gen_idle gen_held
      (\<lambda>a. snd a \<noteq> - 1) (\<lambda>a. fst a * snd a)" using gen_unit by simp
qed

interpretation phigen: computing_unit phi_gen gen_done gen_out gen_idle gen_held
    "\<lambda>a. snd a - 1 \<noteq> - 1" "\<lambda>a. (fst a - 1) * (snd a - 1)"
proof -
  have "phi_gen = (\<lambda>r b a. gen_step r b (fst a - 1, snd a - 1))" by (intro ext) (simp add: phi_gen_def)
  then show "computing_unit phi_gen gen_done gen_out gen_idle gen_held
      (\<lambda>a. snd a - 1 \<noteq> - 1) (\<lambda>a. (fst a - 1) * (snd a - 1))"
    using computing_unit_args [OF gen_unit, of "\<lambda>a. (fst a - 1, snd a - 1)"] by simp
qed

section \<open>\<open>modular_multiplication\<close>\<close>

datatype mm_state = MM_RESET | MM_WAIT | MM_MULTIPLY | MM_MULTIPLY_DONE | MM_MODULO | MM_MODULO_DONE | MODMULT_DONE

record modmult =
  mm_state :: mm_state
  mm_result :: alt_u32
  mm_mult_ready :: bool
  mm_modular_ready :: bool
  modmult_done :: bool
  mm_d :: alt_u32
  mm_e :: alt_u32
  mm_phi :: alt_u32
  mm_modular :: modu
  mm_mult :: mul

fun mm_next :: "mm_state \<Rightarrow> bool \<Rightarrow> modmult \<Rightarrow> mm_state" where
  "mm_next MM_RESET ready u = MM_WAIT"
| "mm_next MM_WAIT ready u = (if ready then MM_MULTIPLY else MM_WAIT)"
| "mm_next MM_MULTIPLY ready u = (if mult_done (mm_mult u) then MM_MULTIPLY_DONE else MM_MULTIPLY)"
| "mm_next MM_MULTIPLY_DONE ready u = MM_MODULO"
| "mm_next MM_MODULO ready u = (if modular_done (mm_modular u) then MM_MODULO_DONE else MM_MODULO)"
| "mm_next MM_MODULO_DONE ready u = MODMULT_DONE"
| "mm_next MODMULT_DONE ready u = (if \<not> ready then MM_WAIT else MODMULT_DONE)"

fun mm_data :: "mm_state \<Rightarrow> alt_u32 \<times> alt_u32 \<times> alt_u32 \<Rightarrow> modmult \<Rightarrow> modmult" where
  "mm_data MM_RESET a u =
     u\<lparr>mm_result := 0, mm_mult_ready := False, mm_modular_ready := False, modmult_done := False,
       mm_d := 0, mm_e := 0, mm_phi := 0\<rparr>"
| "mm_data MM_WAIT a u = (case a of (base, pow, denominator) \<Rightarrow>
     u\<lparr>mm_d := base, mm_e := pow, mm_phi := denominator\<rparr>)"
| "mm_data MM_MULTIPLY a u = u\<lparr>mm_mult_ready := True\<rparr>"
| "mm_data MM_MULTIPLY_DONE a u = u\<lparr>mm_mult_ready := False\<rparr>"
| "mm_data MM_MODULO a u = u\<lparr>mm_modular_ready := True\<rparr>"
| "mm_data MM_MODULO_DONE a u = u\<lparr>mm_modular_ready := False, mm_result := mod_result (mm_modular u)\<rparr>"
| "mm_data MODMULT_DONE a u = u\<lparr>modmult_done := True\<rparr>"

definition modular_multiplication ::
    "bool \<Rightarrow> bool \<Rightarrow> alt_u32 \<times> alt_u32 \<times> alt_u32 \<Rightarrow> modmult \<Rightarrow> modmult" where
  "modular_multiplication reset_n modmult_ready a u =
     (let st = (if reset_n then mm_state u else MM_RESET)
      in (mm_data st a u)
           \<lparr>mm_state := (if reset_n then mm_next st modmult_ready u else MM_RESET),
            mm_modular := modular reset_n (mm_modular_ready u) (mul_out (mm_mult u), mm_phi u) (mm_modular u),
            mm_mult := multiplier_sm reset_n (mm_mult_ready u) (mm_d u, mm_e u) (mm_mult u)\<rparr>)"

definition mm_ok :: "alt_u32 \<times> alt_u32 \<times> alt_u32 \<Rightarrow> bool" where
  "mm_ok a = (case a of (base, pow, denominator) \<Rightarrow> pow \<noteq> - 1 \<and> denominator \<noteq> 0)"

definition mm_value :: "alt_u32 \<times> alt_u32 \<times> alt_u32 \<Rightarrow> alt_u32" where
  "mm_value a = (case a of (base, pow, denominator) \<Rightarrow> base * pow mod denominator)"

definition mm_idle :: "modmult \<Rightarrow> bool" where
  "mm_idle u \<longleftrightarrow> mm_state u \<in> {MM_RESET, MM_WAIT} \<and> \<not> mm_mult_ready u \<and> \<not> mm_modular_ready u \<and>
     \<not> modmult_done u \<and> mul_idle (mm_mult u) \<and> mod_idle (mm_modular u)"

definition mm_held :: "bool \<Rightarrow> alt_u32 \<Rightarrow> modmult \<Rightarrow> bool" where
  "mm_held b v u \<longleftrightarrow> mm_state u = (if b then MODMULT_DONE else MM_WAIT) \<and> modmult_done u \<and> mm_result u = v"

text \<open>Both units inside, while the first and then the second one runs.\<close>

definition mm_multiplies :: "alt_u32 \<times> alt_u32 \<times> alt_u32 \<Rightarrow> modmult \<Rightarrow> mul \<Rightarrow> bool" where
  "mm_multiplies a u m \<longleftrightarrow> mm_state u = MM_MULTIPLY \<and> mm_mult_ready u \<and> \<not> mm_modular_ready u \<and>
     \<not> modmult_done u \<and> (mm_d u, mm_e u, mm_phi u) = a \<and> mod_idle (mm_modular u) \<and> mm_mult u = m"

definition mm_divides :: "alt_u32 \<Rightarrow> alt_u32 \<Rightarrow> modmult \<Rightarrow> modu \<Rightarrow> bool" where
  "mm_divides p den u m \<longleftrightarrow> mm_state u = MM_MODULO \<and> \<not> mm_mult_ready u \<and> mm_modular_ready u \<and>
     \<not> modmult_done u \<and> mm_phi u = den \<and> mul_held False p (mm_mult u) \<and> mm_modular u = m"

lemmas mm_simps = modular_multiplication_def Let_def

lemma mm_divides_done:
  assumes "mm_divides p den u m" "mod_held True (p mod den) m"
  shows "until (modular_multiplication True True a) modmult_done (mm_held True (p mod den)) u"
proof (rule until_step [OF _ until_step [OF _ until_one]])
  let ?v = "modular_multiplication True True a u" and ?w = "modular_multiplication True True a (modular_multiplication True True a u)"
  have m: "mod_held True (p mod den) (mm_modular ?v)"
    using assms modu.held_high [OF assms(2), of True "(mul_out (mm_mult u), mm_phi u)"]
    by (simp add: mm_divides_def mm_simps)
  have v: "mm_state ?v = MM_MODULO_DONE" "\<not> modmult_done ?v"
    using assms modu.held_done [OF assms(2)] by (simp_all add: mm_divides_def mm_simps)
  then have w: "mm_state ?w = MODMULT_DONE" "\<not> modmult_done ?w" "mm_result ?w = p mod den"
    using modu.held_out [OF m] by (simp_all add: mm_simps)
  then show "mm_held True (p mod den) (modular_multiplication True True a ?w)"
    by (simp add: mm_held_def mm_simps)
  show "\<not> modmult_done ?v" "\<not> modmult_done ?w" using v w by simp_all
qed (use assms in \<open>simp add: mm_divides_def\<close>)

lemma mm_divides_works:
  assumes "mm_divides p den u m" "mod_idle m" "den \<noteq> 0"
  shows "until (modular_multiplication True True a) modmult_done (mm_held True (p mod den)) u"
proof (rule modu.wait_for [where P = "mm_divides p den" and a = "(p, den)"])
  show "modu.busy (p, den) m" using assms by (intro modu.idle_busy) simp_all
  show "mm_divides p den u m" by (rule assms)
  show "\<not> modmult_done x \<and> mm_divides p den (modular_multiplication True True a x) (modular True True (p, den) y)"
    if "mm_divides p den x y" "\<not> modular_done y" for x y
    using that mult.held_low [of p "mm_mult x"] mult.held_out [of False p "mm_mult x"]
    by (simp add: mm_divides_def mm_simps)
qed (use mm_divides_done in simp)

lemma mm_multiplies_done:
  assumes "mm_multiplies a u m" "mul_held True (fst a * fst (snd a)) m" "mm_ok a"
  shows "until (modular_multiplication True True a') modmult_done (mm_held True (mm_value a)) u"
proof -
  obtain b e den where a: "a = (b, e, den)" by (cases a)
  let ?s = "modular_multiplication True True a'" and ?p = "b * e"
  have u: "mm_state u = MM_MULTIPLY" "mm_mult_ready u" "\<not> mm_modular_ready u" "\<not> modmult_done u"
      "mm_phi u = den" "mod_idle (mm_modular u)" "mul_held True ?p (mm_mult u)"
    using assms by (simp_all add: a mm_multiplies_def)
  have v: "mm_state (?s u) = MM_MULTIPLY_DONE" "mm_mult_ready (?s u)" "\<not> mm_modular_ready (?s u)"
      "\<not> modmult_done (?s u)" "mm_phi (?s u) = den" "mod_idle (mm_modular (?s u))"
      "mul_held True ?p (mm_mult (?s u))"
    using u mult.held_done [OF u(7)] mult.held_high [OF u(7)] modu.idle_idle [OF u(6)]
    by (simp_all add: mm_simps)
  have w: "mm_state (?s (?s u)) = MM_MODULO" "\<not> mm_mult_ready (?s (?s u))" "\<not> mm_modular_ready (?s (?s u))"
      "\<not> modmult_done (?s (?s u))" "mm_phi (?s (?s u)) = den" "mod_idle (mm_modular (?s (?s u)))"
      "mul_held True ?p (mm_mult (?s (?s u)))"
    using v mult.held_high [OF v(7)] modu.idle_idle [OF v(6)] by (simp_all add: mm_simps)
  have "mm_divides ?p den (?s (?s (?s u))) (mm_modular (?s (?s (?s u))))" "mod_idle (mm_modular (?s (?s (?s u))))"
    using w modu.idle_done [OF w(6)] mult.held_high [OF w(7)] modu.idle_idle [OF w(6)]
    by (simp_all add: mm_divides_def mm_simps)
  then have "until ?s modmult_done (mm_held True (?p mod den)) (?s (?s (?s u)))"
    using assms(3) by (intro mm_divides_works) (simp_all add: a mm_ok_def)
  then show ?thesis using u(4) v(4) w(4) by (simp add: a mm_value_def until_step)
qed

lemma mm_works:
  assumes "mm_idle u" "mm_ok a"
  shows "until (modular_multiplication True True a) modmult_done (mm_held True (mm_value a)) u"
proof -
  let ?s = "modular_multiplication True True a"
  let ?U = "until ?s modmult_done (mm_held True (mm_value a))"
  have runs: "?U u" if "mm_multiplies a u m" "mul_idle m" for u m
  proof (rule mult.wait_for [where P = "mm_multiplies a" and a = "(fst a, fst (snd a))"])
    show "mult.busy (fst a, fst (snd a)) m"
      using that assms(2) by (intro mult.idle_busy) (auto simp: mm_ok_def)
    show "mm_multiplies a u m" by (rule that)
    show "\<not> modmult_done x \<and> mm_multiplies a (?s x) (multiplier_sm True True (fst a, fst (snd a)) y)"
      if "mm_multiplies a x y" "\<not> mult_done y" for x y
      using that modu.idle_idle [of "mm_modular x"] by (auto simp: mm_multiplies_def mm_simps)
    show "?U x" if "mm_multiplies a x y" "mul_held True (fst (fst a, fst (snd a)) * snd (fst a, fst (snd a))) y" for x y
      using mm_multiplies_done [OF that(1) _ assms(2)] that(2) by simp
  qed
  have start: "?U u" if u: "mm_state u = MM_WAIT" "mm_idle u" for u
  proof -
    have i: "mul_idle (mm_mult u)" "mod_idle (mm_modular u)" "\<not> modmult_done u" using u by (simp_all add: mm_idle_def)
    have v: "mm_state (?s u) = MM_MULTIPLY" "\<not> mm_mult_ready (?s u)" "\<not> mm_modular_ready (?s u)" "\<not> modmult_done (?s u)"
        "(mm_d (?s u), mm_e (?s u), mm_phi (?s u)) = a" "mul_idle (mm_mult (?s u))" "mod_idle (mm_modular (?s u))"
      using u mult.idle_idle [OF i(1)] modu.idle_idle [OF i(2)]
      by (simp_all add: mm_idle_def mm_simps split: prod.split)
    have "mm_multiplies a (?s (?s u)) (mm_mult (?s (?s u)))" "mul_idle (mm_mult (?s (?s u)))"
      using v mult.idle_done [OF v(6)] mult.idle_idle [OF v(6)] modu.idle_idle [OF v(7)]
      by (simp_all add: mm_multiplies_def mm_simps)
    then have "?U (?s (?s u))" by (rule runs)
    then show ?thesis using i(3) v(4) by (simp add: until_step)
  qed
  show ?thesis
  proof (cases "mm_state u = MM_WAIT")
    case False
    then have "mm_state (?s u) = MM_WAIT" "mm_idle (?s u)" "\<not> modmult_done u"
      using assms(1) mult.idle_idle [of "mm_mult u"] modu.idle_idle [of "mm_modular u"]
      by (auto simp: mm_idle_def mm_simps)
    then show ?thesis using start by (simp add: until_step)
  qed (use assms(1) start in simp)
qed

interpretation mm: computing_unit modular_multiplication modmult_done mm_result mm_idle mm_held mm_ok mm_value
proof (unfold_locales, goal_cases)
  case (1 r a u)
  then show ?case using mult.reset_idle modu.reset_idle by (simp add: mm_idle_def mm_simps)
next
  case (2 u a)
  then show ?case using mult.idle_idle [of "mm_mult u"] modu.idle_idle [of "mm_modular u"]
    by (cases a) (auto simp: mm_idle_def mm_simps)
next
  case (4 u a)
  then show ?case by (rule mm_works)
next
  case (7 v u r a)
  then show ?case by (simp add: mm_held_def mm_simps)
next
  case (8 v u a)
  then show ?case by (simp add: mm_held_def mm_simps split: prod.split)
qed (simp_all add: mm_idle_def mm_held_def)

end
