(* ===== verification/Exp_Units.thy ===== *)
theory Exp_Units
  imports Product_Units
begin

text \<open>
  \<open>modular_exponentiation.sv\<close>, which resets and restarts its multiplier and its remainder unit
  for every factor, and \<open>rsa_encrypt.sv\<close> around it; the board uses the latter twice, for
  encryption and for decryption.
\<close>

section \<open>\<open>modular_exponentiation\<close>\<close>

datatype me_state =
    ME_RESET | ME_WAIT | INIT_RESET_0 | INIT_RESET_1 | ME_MULTIPLY | ME_MODULO | CHECK_COUNTER | MODEXP_DONE

record modexp =
  me_state :: me_state
  me_counter :: alt_u32
  multiplier_reset :: bool
  modulo_reset :: bool
  me_mult_ready :: bool
  me_modular_ready :: bool
  modexp_done :: bool
  me_result :: alt_u32
  me_C :: alt_u32
  me_M :: alt_u32
  me_n :: alt_u32
  me_modular :: modu
  me_mult :: mul

text \<open>The arguments are \<open>base\<close>, \<open>power\<close>, \<open>e\<close> and \<open>denominator\<close>.\<close>

type_synonym me_args = "alt_u32 \<times> alt_u32 \<times> alt_u32 \<times> alt_u32"

fun me_next :: "me_state \<Rightarrow> bool \<Rightarrow> alt_u32 \<Rightarrow> modexp \<Rightarrow> me_state" where
  "me_next ME_RESET ready e u = ME_WAIT"
| "me_next ME_WAIT ready e u = (if ready then INIT_RESET_0 else ME_WAIT)"
| "me_next INIT_RESET_0 ready e u = INIT_RESET_1"
| "me_next INIT_RESET_1 ready e u = ME_MULTIPLY"
| "me_next ME_MULTIPLY ready e u = (if mult_done (me_mult u) then ME_MODULO else ME_MULTIPLY)"
| "me_next ME_MODULO ready e u = (if modular_done (me_modular u) then CHECK_COUNTER else ME_MODULO)"
| "me_next CHECK_COUNTER ready e u = (if me_counter u < e then INIT_RESET_0 else MODEXP_DONE)"
| "me_next MODEXP_DONE ready e u = (if \<not> ready then ME_WAIT else MODEXP_DONE)"

fun me_data :: "me_state \<Rightarrow> me_args \<Rightarrow> modexp \<Rightarrow> modexp" where
  "me_data ME_RESET a u =
     u\<lparr>multiplier_reset := False, modulo_reset := False, me_result := 0, me_mult_ready := False,
       modexp_done := False, me_modular_ready := False, me_C := 0, me_M := 0, me_n := 0\<rparr>"
| "me_data ME_WAIT a u = (case a of (base, pow, e, denominator) \<Rightarrow>
     u\<lparr>me_C := base, me_M := pow, me_n := denominator, multiplier_reset := True, modulo_reset := True\<rparr>)"
| "me_data INIT_RESET_0 a u = u\<lparr>multiplier_reset := False, modulo_reset := False\<rparr>"
| "me_data INIT_RESET_1 a u = u\<lparr>multiplier_reset := True, modulo_reset := True\<rparr>"
| "me_data ME_MULTIPLY a u = u\<lparr>me_mult_ready := True\<rparr>"
| "me_data ME_MODULO a u = u\<lparr>me_mult_ready := False, me_modular_ready := True\<rparr>"
| "me_data CHECK_COUNTER a u = u\<lparr>me_modular_ready := False, me_C := mod_result (me_modular u)\<rparr>"
| "me_data MODEXP_DONE a u = u\<lparr>me_result := me_C u, modexp_done := True\<rparr>"

text \<open>The counter counts the entries of \<open>CHECK_COUNTER\<close>.\<close>

definition modular_exponentiation :: "bool \<Rightarrow> bool \<Rightarrow> me_args \<Rightarrow> modexp \<Rightarrow> modexp" where
  "modular_exponentiation reset_n modexp_ready a u =
     (let st = (if reset_n then me_state u else ME_RESET);
          nst = (if reset_n then me_next st modexp_ready (fst (snd (snd a))) u else ME_RESET)
      in (me_data st a u)
           \<lparr>me_state := nst,
            me_counter := (if \<not> reset_n then 0
                           else if nst = CHECK_COUNTER then me_counter u + 1 else me_counter u),
            me_modular := modular (modulo_reset u) (me_modular_ready u) (mul_out (me_mult u), me_n u) (me_modular u),
            me_mult := multiplier_sm (multiplier_reset u) (me_mult_ready u) (me_C u, me_M u) (me_mult u)\<rparr>)"

lemmas me_simps = modular_exponentiation_def Let_def

text \<open>The value after a number of rounds; at least one round is made.\<close>

fun me_power :: "alt_u32 \<Rightarrow> alt_u32 \<Rightarrow> alt_u32 \<Rightarrow> nat \<Rightarrow> alt_u32" where
  "me_power base pow den 0 = base"
| "me_power base pow den (Suc j) = me_power base pow den j * pow mod den"

definition me_ok :: "me_args \<Rightarrow> bool" where
  "me_ok a = (case a of (base, pow, e, den) \<Rightarrow> pow \<noteq> - 1 \<and> den \<noteq> 0)"

definition me_value :: "me_args \<Rightarrow> alt_u32" where
  "me_value a = (case a of (base, pow, e, den) \<Rightarrow> me_power base pow den (max 1 (unat e)))"

definition me_idle :: "modexp \<Rightarrow> bool" where
  "me_idle u \<longleftrightarrow> me_state u \<in> {ME_RESET, ME_WAIT} \<and> me_counter u = 0 \<and>
     \<not> me_mult_ready u \<and> \<not> me_modular_ready u \<and> \<not> modexp_done u"

definition me_held :: "bool \<Rightarrow> alt_u32 \<Rightarrow> modexp \<Rightarrow> bool" where
  "me_held b v u \<longleftrightarrow> me_state u = (if b then MODEXP_DONE else ME_WAIT) \<and> modexp_done u \<and> me_result u = v \<and>
     (b \<longrightarrow> me_C u = v)"

text \<open>The registers that stay fixed during the rounds.\<close>

definition me_core :: "me_args \<Rightarrow> alt_u32 \<Rightarrow> nat \<Rightarrow> modexp \<Rightarrow> bool" where
  "me_core a c j u \<longleftrightarrow> \<not> modexp_done u \<and> me_C u = c \<and> me_M u = fst (snd a) \<and>
     me_n u = snd (snd (snd a)) \<and> me_counter u = of_nat j"

definition me_round :: "me_args \<Rightarrow> alt_u32 \<Rightarrow> nat \<Rightarrow> modexp \<Rightarrow> bool" where
  "me_round a c j u \<longleftrightarrow> me_state u = INIT_RESET_0 \<and> \<not> me_mult_ready u \<and> \<not> me_modular_ready u \<and> me_core a c j u"

definition me_multiplies :: "me_args \<Rightarrow> alt_u32 \<Rightarrow> nat \<Rightarrow> modexp \<Rightarrow> mul \<Rightarrow> bool" where
  "me_multiplies a c j u m \<longleftrightarrow> me_state u = ME_MULTIPLY \<and> me_mult_ready u \<and> \<not> me_modular_ready u \<and>
     multiplier_reset u \<and> modulo_reset u \<and> me_core a c j u \<and> mod_idle (me_modular u) \<and> me_mult u = m"

text \<open>The multiplier shows the product \<open>p\<close> with its start line low.\<close>

definition me_divides :: "me_args \<Rightarrow> alt_u32 \<Rightarrow> nat \<Rightarrow> alt_u32 \<Rightarrow> modexp \<Rightarrow> modu \<Rightarrow> bool" where
  "me_divides a c j p u m \<longleftrightarrow> me_state u = ME_MODULO \<and> \<not> me_mult_ready u \<and> me_modular_ready u \<and>
     multiplier_reset u \<and> modulo_reset u \<and> me_core a c j u \<and> (\<exists>b. mul_held b p (me_mult u)) \<and> me_modular u = m"

text \<open>After a round: the next one, or the exit.\<close>

definition me_after :: "me_args \<Rightarrow> alt_u32 \<Rightarrow> nat \<Rightarrow> modexp \<Rightarrow> bool" where
  "me_after a c j u \<longleftrightarrow> (if j < unat (fst (snd (snd a))) then me_round a c j u else me_held True c u)"

lemma mul_shows_low: "mul_held b p m \<Longrightarrow> \<exists>b. mul_held b p (multiplier_sm True False a m)"
  using mult.held_high [of p m False a] mult.held_low [of p m a] by (cases b) auto

lemma me_divides_done:
  assumes "me_divides a c j p u m" "mod_held True x m" "j < unat (fst (snd (snd a))) \<or> j = 0"
  shows "until (modular_exponentiation True True a) modexp_done (me_after a x (Suc j)) u"
proof -
  let ?s = "modular_exponentiation True True a"
  define v where "v = ?s u"
  define w where "w = ?s v"
  have m: "mod_held True x (me_modular v)"
    using assms modu.held_high [OF assms(2)] by (simp add: v_def me_divides_def me_simps)
  have v: "me_state v = CHECK_COUNTER" "\<not> modexp_done v" "\<not> me_mult_ready v"
      "me_M v = fst (snd a)" "me_n v = snd (snd (snd a))" "me_counter v = of_nat (Suc j)"
    using assms modu.held_done [OF assms(2)]
    by (simp_all add: v_def me_divides_def me_core_def me_simps add.commute)
  have le: "me_counter v < fst (snd (snd a)) \<longleftrightarrow> Suc j < unat (fst (snd (snd a)))"
    using assms(3) v(6) unat32_lt [of "fst (snd (snd a))"] unat_of_nat32 [of "Suc j"]
    by (auto simp: word_less_nat_alt simp del: of_nat_Suc)
  have w: "\<not> me_mult_ready w" "\<not> me_modular_ready w" "me_core a x (Suc j) w"
      "me_state w = (if Suc j < unat (fst (snd (snd a))) then INIT_RESET_0 else MODEXP_DONE)"
    using v le modu.held_out [OF m] by (simp_all add: w_def me_core_def me_simps)
  have u: "\<not> modexp_done u" using assms by (simp add: me_divides_def me_core_def)
  have "until ?s modexp_done (me_after a x (Suc j)) w"
  proof (cases "Suc j < unat (fst (snd (snd a)))")
    case True
    then show ?thesis using w by (intro until_now) (simp add: me_after_def me_round_def)
  next
    case False
    then have "me_after a x (Suc j) (?s w)" "\<not> modexp_done w"
      using w by (simp_all add: me_after_def me_held_def me_core_def me_simps)
    then show ?thesis by (intro until_one)
  qed
  then show ?thesis using u v(2) by (simp add: v_def w_def until_step)
qed

lemma me_divides_works:
  assumes "me_divides a c j p u m" "mod_idle m" "snd (snd (snd a)) \<noteq> 0"
    "j < unat (fst (snd (snd a))) \<or> j = 0"
  shows "until (modular_exponentiation True True a) modexp_done
    (me_after a (p mod snd (snd (snd a))) (Suc j)) u"
proof (rule modu.wait_for [where P = "me_divides a c j p" and a = "(p, snd (snd (snd a)))"])
  show "modu.busy (p, snd (snd (snd a))) m" using assms by (intro modu.idle_busy) simp_all
  show "me_divides a c j p u m" by (rule assms)
  show "\<not> modexp_done x \<and> me_divides a c j p (modular_exponentiation True True a x)
      (modular True True (p, snd (snd (snd a))) y)"
    if "me_divides a c j p x y" "\<not> modular_done y" for x y
    using that mul_shows_low mult.held_out
    by (auto simp: me_divides_def me_core_def me_simps)
qed (use me_divides_done assms(4) in simp)

lemma me_multiplies_done:
  assumes "me_multiplies a c j u m" "mul_held True p m" "snd (snd (snd a)) \<noteq> 0"
    "j < unat (fst (snd (snd a))) \<or> j = 0"
  shows "until (modular_exponentiation True True a) modexp_done
    (me_after a (p mod snd (snd (snd a))) (Suc j)) u"
proof -
  let ?s = "modular_exponentiation True True a"
  define v where "v = ?s u"
  define w where "w = ?s v"
  have v: "me_state v = ME_MODULO" "me_mult_ready v" "\<not> me_modular_ready v" "multiplier_reset v"
      "modulo_reset v" "me_core a c j v" "mod_idle (me_modular v)" "mul_held True p (me_mult v)"
    using assms(1) mult.held_done [OF assms(2)] mult.held_high [OF assms(2)] assms(2)
      modu.idle_idle [of "me_modular u"]
    by (simp_all add: v_def me_multiplies_def me_core_def me_simps)
  have "mul_held True p (me_mult w)" using v mult.held_high [OF v(8)] by (simp add: w_def me_simps)
  then have w: "me_divides a c j p w (me_modular w)" "mod_idle (me_modular w)"
    using v modu.idle_idle [OF v(7)] modu.idle_done [OF v(7)]
    by (auto simp: w_def me_divides_def me_core_def me_simps)
  have "until ?s modexp_done (me_after a (p mod snd (snd (snd a))) (Suc j)) w"
    by (rule me_divides_works [OF w assms(3,4)])
  moreover have "\<not> modexp_done u" "\<not> modexp_done v"
    using assms(1) v(6) by (simp_all add: me_multiplies_def me_core_def)
  ultimately show ?thesis by (simp add: v_def w_def until_step)
qed

lemma me_round_works:
  assumes "me_round a c j u" "me_ok a" "j < unat (fst (snd (snd a))) \<or> j = 0"
  shows "until (modular_exponentiation True True a) modexp_done
    (me_after a (c * fst (snd a) mod snd (snd (snd a))) (Suc j)) u"
proof -
  let ?s = "modular_exponentiation True True a" and ?M = "(c, fst (snd a))"
  let ?R = "me_after a (c * fst (snd a) mod snd (snd (snd a))) (Suc j)"
  have ok: "snd (snd (snd a)) \<noteq> 0" "snd ?M \<noteq> - 1" using assms(2) by (auto simp: me_ok_def)
  have runs: "until ?s modexp_done ?R x" if "me_multiplies a c j x m" "mul_idle m" for x m
  proof (rule mult.wait_for [where P = "me_multiplies a c j" and a = ?M])
    show "mult.busy ?M m" using that ok by (intro mult.idle_busy)
    show "me_multiplies a c j x m" by (rule that)
    show "\<not> modexp_done x \<and> me_multiplies a c j (?s x) (multiplier_sm True True ?M y)"
      if "me_multiplies a c j x y" "\<not> mult_done y" for x y
      using that modu.idle_idle [of "me_modular x"] by (auto simp: me_multiplies_def me_core_def me_simps)
    show "until ?s modexp_done ?R x"
      if "me_multiplies a c j x y" "mul_held True (fst ?M * snd ?M) y" for x y
      using me_multiplies_done [OF that ok(1) assms(3)] by simp
  qed
  define v where "v = ?s u"
  define w where "w = ?s v"
  define x where "x = ?s w"
  have v: "me_state v = INIT_RESET_1" "\<not> me_mult_ready v" "\<not> me_modular_ready v" "\<not> multiplier_reset v"
      "\<not> modulo_reset v" "me_core a c j v"
    using assms(1) by (simp_all add: v_def me_round_def me_core_def me_simps)
  then have w: "me_state w = ME_MULTIPLY" "\<not> me_mult_ready w" "\<not> me_modular_ready w" "multiplier_reset w"
      "modulo_reset w" "me_core a c j w" "mul_idle (me_mult w)" "mod_idle (me_modular w)"
    using mult.reset_idle modu.reset_idle by (simp_all add: w_def me_core_def me_simps)
  then have "me_multiplies a c j x (me_mult x)" "mul_idle (me_mult x)"
    using mult.idle_idle [OF w(7)] mult.idle_done [OF w(7)] modu.idle_idle [OF w(8)]
    by (simp_all add: x_def me_multiplies_def me_core_def me_simps)
  then have "until ?s modexp_done ?R x" by (rule runs)
  moreover have "\<not> modexp_done u" "\<not> modexp_done v" "\<not> modexp_done w"
    using assms(1) v(6) w(6) by (simp_all add: me_round_def me_core_def)
  ultimately show ?thesis by (simp add: v_def w_def x_def until_step)
qed

lemma me_rounds:
  assumes "me_round (base, pow, e, den) (me_power base pow den j) j u" "me_ok (base, pow, e, den)"
    "j < unat e \<or> j = 0"
  shows "until (modular_exponentiation True True (base, pow, e, den)) modexp_done
    (me_held True (me_value (base, pow, e, den))) u"
  using assms(1,3)
proof (induction "unat e - j" arbitrary: j u rule: less_induct)
  case less
  let ?a = "(base, pow, e, den)" and ?c = "me_power base pow den (Suc j)"
  have after: "until (modular_exponentiation True True ?a) modexp_done (me_after ?a ?c (Suc j)) u"
    using me_round_works [OF less.prems(1) assms(2)] less.prems(2) by simp
  show ?case
  proof (rule until_trans [OF after])
    fix v assume v: "me_after ?a ?c (Suc j) v"
    show "until (modular_exponentiation True True ?a) modexp_done (me_held True (me_value ?a)) v"
    proof (cases "Suc j < unat e")
      case True
      then show ?thesis using v by (intro less.hyps [of "Suc j"]) (auto simp: me_after_def)
    next
      case False
      then have "max 1 (unat e) = Suc j" using less.prems(2) by auto
      then show ?thesis using v False by (intro until_now) (simp add: me_after_def me_value_def)
    qed
  qed
qed

lemma me_works:
  assumes "me_idle u" "me_ok a"
  shows "until (modular_exponentiation True True a) modexp_done (me_held True (me_value a)) u"
proof -
  obtain base pow e den where a: "a = (base, pow, e, den)" by (cases a)
  let ?s = "modular_exponentiation True True a"
  let ?U = "until ?s modexp_done (me_held True (me_value a))"
  have start: "?U u" if "me_state u = ME_WAIT" "me_idle u" for u
  proof -
    have "me_round a base 0 (?s u)" using that by (simp add: a me_idle_def me_round_def me_core_def me_simps)
    then have "?U (?s u)" using me_rounds [of base pow e den 0 "?s u"] assms(2) by (simp add: a)
    then show ?thesis using that(2) by (simp add: me_idle_def until_step)
  qed
  show ?thesis
  proof (cases "me_state u = ME_WAIT")
    case False
    then have "me_state (?s u) = ME_WAIT" "me_idle (?s u)" "\<not> modexp_done u"
      using assms(1) by (auto simp: me_idle_def me_simps)
    then show ?thesis using start by (simp add: until_step)
  qed (use assms(1) start in simp)
qed

interpretation me: computing_unit modular_exponentiation modexp_done me_result me_idle me_held me_ok me_value
proof (unfold_locales, goal_cases)
  case (1 r a u)
  then show ?case by (simp add: me_idle_def me_simps)
next
  case (2 u a)
  then show ?case by (cases a) (auto simp: me_idle_def me_simps)
next
  case (4 u a)
  then show ?case by (rule me_works)
next
  case (7 v u r a)
  then show ?case by (simp add: me_held_def me_simps)
next
  case (8 v u a)
  then show ?case by (cases a) (simp add: me_held_def me_simps)
qed (simp_all add: me_idle_def me_held_def)

section \<open>\<open>rsa_encrypt\<close>\<close>

datatype enc_state = ENC_RESET | ENC_WAIT | MOD_EXP_LOOP | ENC_MODULAR | ENC_FINISHED

record enc =
  enc_state :: enc_state
  Cin :: alt_u32
  enc_C :: alt_u32
  modexp_ready :: bool
  enc_modular_ready :: bool
  enc_done :: bool
  enc_modexp :: modexp
  enc_modular :: modu

fun enc_next :: "enc_state \<Rightarrow> bool \<Rightarrow> enc \<Rightarrow> enc_state" where
  "enc_next ENC_RESET compute u = ENC_WAIT"
| "enc_next ENC_WAIT compute u = (if compute then MOD_EXP_LOOP else ENC_WAIT)"
| "enc_next MOD_EXP_LOOP compute u = (if modexp_done (enc_modexp u) then ENC_MODULAR else MOD_EXP_LOOP)"
| "enc_next ENC_MODULAR compute u = (if modular_done (enc_modular u) then ENC_FINISHED else ENC_MODULAR)"
| "enc_next ENC_FINISHED compute u = (if \<not> compute then ENC_WAIT else ENC_FINISHED)"

fun enc_data :: "enc_state \<Rightarrow> enc \<Rightarrow> enc" where
  "enc_data ENC_RESET u =
     u\<lparr>Cin := 1, enc_C := 0, modexp_ready := False, enc_modular_ready := False, enc_done := False\<rparr>"
| "enc_data ENC_WAIT u = u"
| "enc_data MOD_EXP_LOOP u = u\<lparr>modexp_ready := True\<rparr>"
| "enc_data ENC_MODULAR u = u\<lparr>modexp_ready := False, enc_modular_ready := True\<rparr>"
| "enc_data ENC_FINISHED u = u\<lparr>enc_modular_ready := False, enc_C := mod_result (enc_modular u), enc_done := True\<rparr>"

text \<open>The arguments are \<open>M\<close>, \<open>e\<close> and \<open>n\<close>.\<close>

definition rsa_encrypt :: "bool \<Rightarrow> bool \<Rightarrow> alt_u32 \<times> alt_u32 \<times> alt_u32 \<Rightarrow> enc \<Rightarrow> enc" where
  "rsa_encrypt reset_n compute a u =
     (let st = (if reset_n then enc_state u else ENC_RESET);
          (m, e, n) = a
      in (enc_data st u)
           \<lparr>enc_state := (if reset_n then enc_next st compute u else ENC_RESET),
            enc_modexp := modular_exponentiation reset_n (modexp_ready u) (Cin u, m, e, n) (enc_modexp u),
            enc_modular := modular reset_n (enc_modular_ready u) (me_result (enc_modexp u), n) (enc_modular u)\<rparr>)"

lemmas enc_simps = rsa_encrypt_def Let_def case_prod_beta

definition enc_ok :: "alt_u32 \<times> alt_u32 \<times> alt_u32 \<Rightarrow> bool" where
  "enc_ok a = (case a of (m, e, n) \<Rightarrow> m \<noteq> - 1 \<and> n \<noteq> 0)"

definition enc_value :: "alt_u32 \<times> alt_u32 \<times> alt_u32 \<Rightarrow> alt_u32" where
  "enc_value a = (case a of (m, e, n) \<Rightarrow> me_value (1, m, e, n) mod n)"

definition enc_idle :: "enc \<Rightarrow> bool" where
  "enc_idle u \<longleftrightarrow> enc_state u \<in> {ENC_RESET, ENC_WAIT} \<and> (enc_state u = ENC_WAIT \<longrightarrow> Cin u = 1) \<and>
     \<not> modexp_ready u \<and> \<not> enc_modular_ready u \<and> \<not> enc_done u \<and>
     me_idle (enc_modexp u) \<and> mod_idle (enc_modular u)"

definition mod_shows :: "alt_u32 \<Rightarrow> modu \<Rightarrow> bool" where
  "mod_shows v m \<longleftrightarrow> (\<exists>b. mod_held b v m)"

lemma mod_shows_low: "mod_shows v m \<Longrightarrow> mod_shows v (modular True False a m)"
  using modu.held_high [of v m False a] modu.held_low [of v m a] unfolding mod_shows_def
  by (metis (full_types))

lemma mod_shows_out: "mod_shows v m \<Longrightarrow> mod_result m = v \<and> modular_done m"
  using modu.held_out modu.held_done by (auto simp: mod_shows_def)

definition enc_held :: "bool \<Rightarrow> alt_u32 \<Rightarrow> enc \<Rightarrow> bool" where
  "enc_held b v u \<longleftrightarrow> enc_state u = (if b then ENC_FINISHED else ENC_WAIT) \<and> enc_done u \<and> enc_C u = v \<and>
     (b \<longrightarrow> \<not> enc_modular_ready u \<and> mod_shows v (enc_modular u))"

definition enc_powers :: "enc \<Rightarrow> modexp \<Rightarrow> bool" where
  "enc_powers u m \<longleftrightarrow> enc_state u = MOD_EXP_LOOP \<and> modexp_ready u \<and> \<not> enc_modular_ready u \<and> Cin u = 1 \<and>
     \<not> enc_done u \<and> mod_idle (enc_modular u) \<and> enc_modexp u = m"

definition enc_divides :: "alt_u32 \<Rightarrow> enc \<Rightarrow> modu \<Rightarrow> bool" where
  "enc_divides c u m \<longleftrightarrow> enc_state u = ENC_MODULAR \<and> \<not> modexp_ready u \<and> enc_modular_ready u \<and>
     \<not> enc_done u \<and> (\<exists>b. me_held b c (enc_modexp u)) \<and> enc_modular u = m"

lemma me_shows_low: "me_held b c m \<Longrightarrow> \<exists>b. me_held b c (modular_exponentiation True False a m)"
  using me.held_high [of c m False a] me.held_low [of c m a] by (cases b) auto

lemma enc_divides_done:
  assumes "enc_divides c u m" "mod_held True v m"
  shows "until (rsa_encrypt True True a) enc_done (enc_held True v) u"
proof -
  let ?s = "rsa_encrypt True True a"
  define w where "w = ?s u"
  have w: "enc_state w = ENC_FINISHED" "\<not> enc_done w" "mod_held True v (enc_modular w)" "enc_modular_ready w"
    using assms modu.held_done [OF assms(2)] modu.held_high [OF assms(2)]
    by (simp_all add: w_def enc_divides_def enc_simps)
  then have "enc_held True v (?s w)"
    using modu.held_out [OF w(3)] modu.held_high [OF w(3)] by (auto simp: enc_held_def mod_shows_def enc_simps)
  then show ?thesis using w(2) assms(1)
    by (intro until_step [where u = u] until_one) (simp_all add: w_def enc_divides_def)
qed

lemma enc_divides_works:
  assumes "enc_divides c u m" "mod_idle m" "n \<noteq> 0"
  shows "until (rsa_encrypt True True (x, e, n)) enc_done (enc_held True (c mod n)) u"
proof (rule modu.wait_for [where P = "enc_divides c" and a = "(c, n)"])
  show "modu.busy (c, n) m" using assms by (intro modu.idle_busy) simp_all
  show "enc_divides c u m" by (rule assms)
  show "\<not> enc_done y \<and> enc_divides c (rsa_encrypt True True (x, e, n) y) (modular True True (c, n) z)"
    if "enc_divides c y z" "\<not> modular_done z" for y z
    using that me_shows_low me.held_out by (auto simp: enc_divides_def enc_simps)
qed (use enc_divides_done in simp)

lemma enc_powers_done:
  assumes "enc_powers u m" "me_held True c m" "n \<noteq> 0"
  shows "until (rsa_encrypt True True (x, e, n)) enc_done (enc_held True (c mod n)) u"
proof -
  let ?s = "rsa_encrypt True True (x, e, n)"
  define v where "v = ?s u"
  define w where "w = ?s v"
  have v: "enc_state v = ENC_MODULAR" "modexp_ready v" "\<not> enc_modular_ready v" "\<not> enc_done v"
      "me_held True c (enc_modexp v)" "mod_idle (enc_modular v)"
    using assms me.held_done [OF assms(2)] me.held_high [OF assms(2)] modu.idle_idle [of "enc_modular u"]
    by (simp_all add: v_def enc_powers_def enc_simps)
  have "me_held True c (enc_modexp w)" using v me.held_high [OF v(5)] by (simp add: w_def enc_simps)
  then have "enc_divides c w (enc_modular w)" "mod_idle (enc_modular w)"
    using v modu.idle_done [OF v(6)] modu.idle_idle [OF v(6)] by (auto simp: w_def enc_divides_def enc_simps)
  then have "until ?s enc_done (enc_held True (c mod n)) w" by (rule enc_divides_works [OF _ _ assms(3)])
  then show ?thesis using assms(1) v(4) by (simp add: v_def w_def enc_powers_def until_step)
qed

lemma enc_works:
  assumes "enc_idle u" "enc_ok a"
  shows "until (rsa_encrypt True True a) enc_done (enc_held True (enc_value a)) u"
proof -
  obtain x e n where a: "a = (x, e, n)" by (cases a)
  let ?s = "rsa_encrypt True True a" and ?A = "(1, x, e, n)"
  let ?U = "until ?s enc_done (enc_held True (enc_value a))"
  have runs: "?U u" if "enc_powers u m" "me_idle m" for u m
  proof (rule me.wait_for [where P = "enc_powers" and a = ?A])
    show "me.busy ?A m" using that assms(2) by (intro me.idle_busy) (simp_all add: a enc_ok_def me_ok_def)
    show "enc_powers u m" by (rule that)
    show "\<not> enc_done y \<and> enc_powers (?s y) (modular_exponentiation True True ?A z)"
      if "enc_powers y z" "\<not> modexp_done z" for y z
      using that modu.idle_idle [of "enc_modular y"] by (auto simp: a enc_powers_def enc_simps)
    show "?U y" if "enc_powers y z" "me_held True (me_value ?A) z" for y z
      using enc_powers_done [OF that, of n x e] assms(2) by (simp add: a enc_ok_def enc_value_def)
  qed
  have start: "?U u" if u: "enc_state u = ENC_WAIT" "enc_idle u" for u
  proof -
    define v where "v = ?s u"
    define w where "w = ?s v"
    have v: "enc_state v = MOD_EXP_LOOP" "\<not> modexp_ready v" "\<not> enc_modular_ready v" "\<not> enc_done v" "Cin v = 1"
        "me_idle (enc_modexp v)" "mod_idle (enc_modular v)"
      using u me.idle_idle [of "enc_modexp u"] modu.idle_idle [of "enc_modular u"]
      by (simp_all add: a v_def enc_idle_def enc_simps)
    have "enc_powers w (enc_modexp w)" "me_idle (enc_modexp w)"
      using v me.idle_idle [OF v(6)] me.idle_done [OF v(6)] modu.idle_idle [OF v(7)]
      by (simp_all add: a w_def enc_powers_def enc_simps)
    then have "?U w" by (rule runs)
    then show ?thesis using u(2) v(4) by (simp add: v_def w_def enc_idle_def until_step)
  qed
  show ?thesis
  proof (cases "enc_state u = ENC_WAIT")
    case False
    then have "enc_state (?s u) = ENC_WAIT" "enc_idle (?s u)" "\<not> enc_done u"
      using assms(1) me.idle_idle [of "enc_modexp u"] modu.idle_idle [of "enc_modular u"]
      by (auto simp: enc_idle_def enc_simps)
    then show ?thesis using start by (simp add: until_step)
  qed (use assms(1) start in simp)
qed

interpretation enc: computing_unit rsa_encrypt enc_done enc_C enc_idle enc_held enc_ok enc_value
proof (unfold_locales, goal_cases)
  case (1 r a u)
  then show ?case using me.reset_idle modu.reset_idle by (simp add: enc_idle_def enc_simps)
next
  case (2 u a)
  then show ?case using me.idle_idle [of "enc_modexp u"] modu.idle_idle [of "enc_modular u"]
    by (auto simp: enc_idle_def enc_simps)
next
  case (4 u a)
  then show ?case by (rule enc_works)
next
  case (7 v u r a)
  then show ?case using mod_shows_low mod_shows_out by (auto simp: enc_held_def enc_simps)
next
  case (8 v u a)
  then show ?case by (simp add: enc_held_def enc_simps)
qed (simp_all add: enc_idle_def enc_held_def)

text \<open>
  Without wrap-around the unit computes a power of the message: it multiplies once even when
  the exponent is 0, where the software's \<open>encrypt\<close> does not.
\<close>

lemma me_power_exact:
  assumes "den \<noteq> 0" "unat den * unat m < 2 ^ 32"
  shows "0 < j \<Longrightarrow> unat (me_power 1 m den j) = unat m ^ j mod unat den"
proof (induction j)
  case (Suc j)
  show ?case
  proof (cases j)
    case 0
    then show ?thesis by (simp add: unat_mod_distrib)
  next
    case (Suc i)
    then have ih: "unat (me_power 1 m den j) = unat m ^ j mod unat den" using Suc.IH by simp
    moreover have "unat m ^ j mod unat den < unat den" using assms(1) by (simp add: unat_gt_0)
    ultimately have "unat (me_power 1 m den j) * unat m \<le> unat den * unat m" by (intro mult_le_mono1) simp
    with assms(2) have "unat (me_power 1 m den j) * unat m < 2 ^ 32" by linarith
    then have "unat (me_power 1 m den j * m) = unat (me_power 1 m den j) * unat m"
      by (simp add: unat_word_ariths)
    then show ?thesis using ih by (simp add: unat_mod_distrib mod_mult_right_eq mult.commute)
  qed
qed simp

lemma enc_value_exact:
  assumes "n \<noteq> 0" "unat n * unat m < 2 ^ 32"
  shows "unat (enc_value (m, e, n)) = unat m ^ max 1 (unat e) mod unat n"
proof -
  have "enc_value (m, e, n) = me_power 1 m n (max 1 (unat e)) mod n"
    unfolding enc_value_def me_value_def by simp
  then have "unat (enc_value (m, e, n)) = unat (me_power 1 m n (max 1 (unat e))) mod unat n"
    by (simp only: unat_mod_distrib)
  then show ?thesis using me_power_exact [OF assms, of "max 1 (unat e)"] by simp
qed

end
