(* ===== verification/Key_Units.thy ===== *)
theory Key_Units
  imports Product_Units
begin

text \<open>
  \<open>generate_d.sv\<close>, the search for the private key, which restarts its modular multiplication for
  every candidate, and \<open>prime_checker_sv.sv\<close>.
\<close>

section \<open>\<open>generate_d\<close>\<close>

datatype gd_state =
    GD_RESET | GD_WAIT | INIT_MODMULT | INIT_DONE | INIT_RESET | INIT_RESET_DONE
  | MODMULT_LOOP_0 | MODMULT_LOOP_1 | COMPARE | DECREMENT | GD_FINISHED

record gd =
  gd_state :: gd_state
  s_holder :: alt_u32
  dholder :: alt_u32
  gd_d :: alt_u32
  modmult_ready :: bool
  modmult_reset :: bool
  gd_done :: bool
  gd_mm :: modmult

fun gd_next :: "gd_state \<Rightarrow> bool \<Rightarrow> gd \<Rightarrow> gd_state" where
  "gd_next GD_RESET compute u = GD_WAIT"
| "gd_next GD_WAIT compute u = (if compute then INIT_MODMULT else GD_WAIT)"
| "gd_next INIT_MODMULT compute u = (if modmult_done (gd_mm u) then INIT_DONE else INIT_MODMULT)"
| "gd_next INIT_DONE compute u = INIT_RESET"
| "gd_next INIT_RESET compute u = INIT_RESET_DONE"
| "gd_next INIT_RESET_DONE compute u = MODMULT_LOOP_0"
| "gd_next MODMULT_LOOP_0 compute u = (if modmult_done (gd_mm u) then MODMULT_LOOP_1 else MODMULT_LOOP_0)"
| "gd_next MODMULT_LOOP_1 compute u = COMPARE"
| "gd_next COMPARE compute u = (if s_holder u \<noteq> 1 then INIT_RESET else DECREMENT)"
| "gd_next DECREMENT compute u = GD_FINISHED"
| "gd_next GD_FINISHED compute u = (if \<not> compute then GD_WAIT else GD_FINISHED)"

fun gd_data :: "gd_state \<Rightarrow> gd \<Rightarrow> gd" where
  "gd_data GD_RESET u = u\<lparr>modmult_reset := False, modmult_ready := False, gd_done := False, dholder := 1,
     gd_d := 5, s_holder := 0\<rparr>"
| "gd_data GD_WAIT u = u\<lparr>modmult_reset := True\<rparr>"
| "gd_data INIT_MODMULT u = u\<lparr>modmult_ready := True\<rparr>"
| "gd_data INIT_DONE u = u\<lparr>modmult_ready := False, s_holder := mm_result (gd_mm u)\<rparr>"
| "gd_data INIT_RESET u = u\<lparr>modmult_reset := False\<rparr>"
| "gd_data INIT_RESET_DONE u = u\<lparr>modmult_reset := True\<rparr>"
| "gd_data MODMULT_LOOP_0 u = u\<lparr>modmult_ready := True\<rparr>"
| "gd_data MODMULT_LOOP_1 u =
     u\<lparr>modmult_ready := False, s_holder := mm_result (gd_mm u), dholder := dholder u + 1\<rparr>"
| "gd_data COMPARE u = u"
| "gd_data DECREMENT u = u\<lparr>gd_d := dholder u - 1\<rparr>"
| "gd_data GD_FINISHED u = u\<lparr>gd_done := True\<rparr>"

definition generate_d :: "bool \<Rightarrow> bool \<Rightarrow> alt_u32 \<times> alt_u32 \<Rightarrow> gd \<Rightarrow> gd" where
  "generate_d reset_n compute a u =
     (let st = (if reset_n then gd_state u else GD_RESET)
      in (gd_data st u)
           \<lparr>gd_state := (if reset_n then gd_next st compute u else GD_RESET),
            gd_mm := modular_multiplication (modmult_reset u) (modmult_ready u) (fst a, dholder u, snd a) (gd_mm u)\<rparr>)"

lemmas gd_simps = generate_d_def Let_def

text \<open>\<open>d\<close> passes the comparison; the private key is the first such number.\<close>

definition gd_match :: "alt_u32 \<times> alt_u32 \<Rightarrow> nat \<Rightarrow> bool" where
  "gd_match a d \<longleftrightarrow> fst a * of_nat d mod snd a = 1"

definition gd_ok :: "alt_u32 \<times> alt_u32 \<Rightarrow> bool" where
  "gd_ok a \<longleftrightarrow> snd a \<noteq> 0 \<and> (\<exists>d. 1 \<le> d \<and> d < 4294967295 \<and> gd_match a d)"

definition gd_value :: "alt_u32 \<times> alt_u32 \<Rightarrow> alt_u32" where
  "gd_value a = of_nat (LEAST d. 1 \<le> d \<and> gd_match a d)"

definition gd_idle :: "gd \<Rightarrow> bool" where
  "gd_idle u \<longleftrightarrow> (gd_state u = GD_RESET \<and> \<not> modmult_reset u \<or> gd_state u = GD_WAIT \<and> mm_idle (gd_mm u)) \<and>
     \<not> modmult_ready u \<and> \<not> gd_done u \<and> dholder u = 1"

definition gd_held :: "bool \<Rightarrow> alt_u32 \<Rightarrow> gd \<Rightarrow> bool" where
  "gd_held b v u \<longleftrightarrow> gd_state u = (if b then GD_FINISHED else GD_WAIT) \<and> gd_done u \<and> gd_d u = v"

definition gd_core :: "nat \<Rightarrow> gd \<Rightarrow> bool" where
  "gd_core d u \<longleftrightarrow> \<not> gd_done u \<and> dholder u = of_nat d"

text \<open>At the start of the turn for the candidate \<open>d\<close>; all smaller ones have failed.\<close>

definition gd_turn :: "alt_u32 \<times> alt_u32 \<Rightarrow> nat \<Rightarrow> gd \<Rightarrow> bool" where
  "gd_turn a d u \<longleftrightarrow> gd_state u = INIT_RESET \<and> \<not> modmult_ready u \<and> gd_core d u \<and>
     1 \<le> d \<and> (\<forall>d'. 1 \<le> d' \<longrightarrow> d' < d \<longrightarrow> \<not> gd_match a d')"

text \<open>The multiplication runs, in the first state or in the loop.\<close>

definition gd_runs :: "gd_state \<Rightarrow> nat \<Rightarrow> gd \<Rightarrow> modmult \<Rightarrow> bool" where
  "gd_runs st d u m \<longleftrightarrow> gd_state u = st \<and> modmult_ready u \<and> modmult_reset u \<and> gd_core d u \<and> gd_mm u = m"

abbreviation (input) gd_args :: "alt_u32 \<times> alt_u32 \<Rightarrow> nat \<Rightarrow> alt_u32 \<times> alt_u32 \<times> alt_u32" where
  "gd_args a d \<equiv> (fst a, of_nat d, snd a)"

lemma gd_waits:
  assumes st: "st = INIT_MODMULT \<or> st = MODMULT_LOOP_0" and "gd_runs st d u m" "mm_idle m"
    "snd a \<noteq> 0" "d < 4294967295"
    and fin: "\<And>x m. gd_runs st d x m \<Longrightarrow> mm_held True (mm_value (gd_args a d)) m \<Longrightarrow>
      until (generate_d True True a) gd_done R x"
  shows "until (generate_d True True a) gd_done R u"
proof (rule mm.wait_for [where P = "gd_runs st d" and a = "gd_args a d"])
  have "(of_nat d :: alt_u32) \<noteq> - 1"
    using unat_of_nat32 [of d] assms(5) word_unat_eq_iff [of "of_nat d :: alt_u32" "- 1"]
    by (simp add: unsigned_minus_1_eq_mask mask_eq_exp_minus_1)
  then show "mm.busy (gd_args a d) m" using assms by (intro mm.idle_busy) (simp_all add: mm_ok_def)
  show "gd_runs st d u m" by (rule assms)
  show "\<not> gd_done x \<and> gd_runs st d (generate_d True True a x) (modular_multiplication True True (gd_args a d) y)"
    if "gd_runs st d x y" "\<not> modmult_done y" for x y
    using that st by (auto simp: gd_runs_def gd_core_def gd_simps)
qed (rule fin)

lemma gd_compared:
  assumes "gd_runs MODMULT_LOOP_0 d u m" "mm_held True (mm_value (gd_args a d)) m" "1 \<le> d"
    "\<forall>d'. 1 \<le> d' \<longrightarrow> d' < d \<longrightarrow> \<not> gd_match a d'"
  shows "until (generate_d True True a) gd_done
    (\<lambda>v. if gd_match a d then gd_held True (of_nat d) v else gd_turn a (Suc d) v) u"
proof -
  let ?s = "generate_d True True a" and ?R = "\<lambda>v. if gd_match a d then gd_held True (of_nat d) v else gd_turn a (Suc d) v"
  define v where "v = ?s u"
  define w where "w = ?s v"
  define x where "x = ?s w"
  have v: "gd_state v = MODMULT_LOOP_1" "modmult_ready v" "gd_core d v"
      "mm_held True (mm_value (gd_args a d)) (gd_mm v)"
    using assms(1) mm.held_done [OF assms(2)] mm.held_high [OF assms(2)]
    by (simp_all add: v_def gd_runs_def gd_core_def gd_simps)
  then have w: "gd_state w = COMPARE" "\<not> modmult_ready w" "gd_core (Suc d) w"
      "s_holder w = 1 \<longleftrightarrow> gd_match a d"
    using mm.held_out [OF v(4)] by (simp_all add: w_def gd_core_def mm_value_def gd_match_def gd_simps add.commute)
  then have x: "gd_state x = (if gd_match a d then DECREMENT else INIT_RESET)" "\<not> modmult_ready x" "gd_core (Suc d) x"
    by (simp_all add: x_def gd_core_def gd_simps)
  have "until ?s gd_done ?R x"
  proof (cases "gd_match a d")
    case True
    define y where "y = ?s x"
    have y: "gd_state y = GD_FINISHED" "\<not> gd_done y" "gd_d y = of_nat d"
      using x True by (simp_all add: y_def gd_core_def gd_simps)
    then have "?R (?s y)" using True by (simp add: gd_held_def gd_simps)
    then have "until ?s gd_done ?R y" using y(2) by (intro until_one)
    then show ?thesis using x(3) unfolding y_def by (intro until_step [where u = x]) (simp_all add: gd_core_def)
  next
    case False
    have "\<not> gd_match a d'" if "1 \<le> d'" "d' < Suc d" for d'
      using that assms(4) False by (cases "d' = d") auto
    then show ?thesis using x False by (intro until_now) (simp add: gd_turn_def)
  qed
  then show ?thesis using assms(1) v(3) w(3)
    by (simp add: v_def w_def x_def gd_runs_def gd_core_def until_step)
qed

lemma gd_turn_works:
  assumes "gd_turn a d u" "snd a \<noteq> 0" "d < 4294967295"
  shows "until (generate_d True True a) gd_done
    (\<lambda>v. if gd_match a d then gd_held True (of_nat d) v else gd_turn a (Suc d) v) u"
proof -
  let ?s = "generate_d True True a"
  define v where "v = ?s u"
  define w where "w = ?s v"
  define x where "x = ?s w"
  have v: "gd_state v = INIT_RESET_DONE" "\<not> modmult_ready v" "\<not> modmult_reset v" "gd_core d v"
    using assms(1) by (simp_all add: v_def gd_turn_def gd_core_def gd_simps)
  then have w: "gd_state w = MODMULT_LOOP_0" "\<not> modmult_ready w" "modmult_reset w" "gd_core d w" "mm_idle (gd_mm w)"
    using mm.reset_idle by (simp_all add: w_def gd_core_def gd_simps)
  then have x: "gd_runs MODMULT_LOOP_0 d x (gd_mm x)" "mm_idle (gd_mm x)"
    using mm.idle_idle [OF w(5)] mm.idle_done [OF w(5)] by (simp_all add: x_def gd_runs_def gd_core_def gd_simps)
  have "until ?s gd_done (\<lambda>v. if gd_match a d then gd_held True (of_nat d) v else gd_turn a (Suc d) v) x"
    using assms(1) by (intro gd_waits [OF _ x assms(2,3)] gd_compared) (simp_all add: gd_turn_def)
  then show ?thesis using assms(1) v(4) w(4)
    by (simp add: v_def w_def x_def gd_turn_def gd_core_def until_step)
qed


lemma gd_turns:
  assumes "gd_turn a d u" "snd a \<noteq> 0" "1 \<le> D" "D < 4294967295" "gd_match a D"
  shows "until (generate_d True True a) gd_done (gd_held True (gd_value a)) u"
  using assms(1)
proof (induction "Suc D - d" arbitrary: d u rule: less_induct)
  case less
  have d: "d \<le> D" using less.prems assms(3,5) by (auto simp: gd_turn_def not_less [symmetric])
  have turn: "until (generate_d True True a) gd_done
      (\<lambda>v. if gd_match a d then gd_held True (of_nat d) v else gd_turn a (Suc d) v) u"
    using gd_turn_works [OF less.prems assms(2)] d assms(4) by simp
  show ?case
  proof (rule until_trans [OF turn])
    fix v assume v: "if gd_match a d then gd_held True (of_nat d) v else gd_turn a (Suc d) v"
    show "until (generate_d True True a) gd_done (gd_held True (gd_value a)) v"
    proof (cases "gd_match a d")
      case True
      have "(LEAST d. 1 \<le> d \<and> gd_match a d) = d"
        using less.prems True by (intro Least_equality) (auto simp: gd_turn_def not_less [symmetric])
      then show ?thesis using v True by (intro until_now) (simp add: gd_value_def)
    next
      case False
      then show ?thesis using v d by (intro less.hyps [of "Suc d"]) auto
    qed
  qed
qed

lemma gd_works:
  assumes "gd_idle u" "gd_ok a"
  shows "until (generate_d True True a) gd_done (gd_held True (gd_value a)) u"
proof -
  let ?s = "generate_d True True a"
  let ?U = "until ?s gd_done (gd_held True (gd_value a))"
  obtain D where D: "snd a \<noteq> 0" "1 \<le> D" "D < 4294967295" "gd_match a D" using assms(2) by (auto simp: gd_ok_def)
  have first: "?U u" if "gd_runs INIT_MODMULT 1 u m" "mm_held True (mm_value (gd_args a 1)) m" for u m
  proof -
    define v where "v = ?s u"
    define w where "w = ?s v"
    have v: "gd_state v = INIT_DONE" "gd_core 1 v"
      using that mm.held_done [OF that(2)] by (simp_all add: v_def gd_runs_def gd_core_def gd_simps)
    then have "gd_turn a 1 w" by (simp add: w_def gd_turn_def gd_core_def gd_simps)
    then have "?U w" using D by (rule gd_turns)
    then show ?thesis using that(1) v(2) by (simp add: v_def w_def gd_runs_def gd_core_def until_step)
  qed
  have start: "?U u" if u: "gd_state u = GD_WAIT" "gd_idle u" for u
  proof -
    define v where "v = ?s u"
    define w where "w = ?s v"
    have "mm_idle (modular_multiplication b False x (gd_mm u))" for b x
      using u mm.idle_idle mm.reset_idle by (cases b) (auto simp: gd_idle_def)
    then have v: "gd_state v = INIT_MODMULT" "\<not> modmult_ready v" "modmult_reset v" "gd_core 1 v" "mm_idle (gd_mm v)"
      using u by (simp_all add: v_def gd_idle_def gd_core_def gd_simps)
    then have w: "gd_runs INIT_MODMULT 1 w (gd_mm w)" "mm_idle (gd_mm w)"
      using mm.idle_idle [OF v(5)] mm.idle_done [OF v(5)] by (simp_all add: w_def gd_runs_def gd_core_def gd_simps)
    have "?U w" by (rule gd_waits [OF _ w D(1)]) (simp_all add: first)
    then show ?thesis using u(2) v(4) by (simp add: v_def w_def gd_idle_def gd_core_def until_step)
  qed
  show ?thesis
  proof (cases "gd_state u = GD_WAIT")
    case False
    then have "gd_state (?s u) = GD_WAIT" "gd_idle (?s u)" "\<not> gd_done u"
      using assms(1) mm.reset_idle by (auto simp: gd_idle_def gd_simps)
    then show ?thesis using start by (simp add: until_step)
  qed (use assms(1) start in simp)
qed

interpretation gd: computing_unit generate_d gd_done gd_d gd_idle gd_held gd_ok gd_value
proof (unfold_locales, goal_cases)
  case (1 r a u)
  then show ?case by (simp add: gd_idle_def gd_simps)
next
  case (2 u a)
  have "mm_idle (modular_multiplication b False x (gd_mm u))" if "mm_idle (gd_mm u)" for b x
    using that mm.idle_idle mm.reset_idle by (cases b) auto
  with 2 show ?case using mm.reset_idle by (auto simp: gd_idle_def gd_simps)
next
  case (4 u a)
  then show ?case by (rule gd_works)
next
  case (7 v u r a)
  then show ?case by (simp add: gd_held_def gd_simps)
next
  case (8 v u a)
  then show ?case by (simp add: gd_held_def gd_simps)
qed (auto simp: gd_idle_def gd_held_def)

section \<open>\<open>prime_checker_sv\<close>\<close>

datatype chk_state = CHK_RESET | CHK_WAIT | CHK_COMPUTE | CHK_FINISHED

record chk =
  chk_state :: chk_state
  isprime :: bool
  prime_checker_done :: bool

fun chk_next :: "chk_state \<Rightarrow> bool \<Rightarrow> chk_state" where
  "chk_next CHK_RESET ready = CHK_WAIT"
| "chk_next CHK_WAIT ready = (if ready then CHK_COMPUTE else CHK_WAIT)"
| "chk_next CHK_COMPUTE ready = CHK_FINISHED"
| "chk_next CHK_FINISHED ready = CHK_WAIT"

text \<open>
  The test itself. The last condition of the source is a bitwise or with the constant 2, which
  is never zero, so the else branch always answers yes.
\<close>

definition hw_prime :: "alt_u32 \<Rightarrow> bool" where
  "hw_prime c =
     (if \<not> bit c 0 then False
      else if c \<in> {3, 5, 7, 11, 13, 17, 19} then True
      else if c mod 3 = 0 \<or> c mod 5 = 0 \<or> c mod 7 = 0 \<or> c mod 11 = 0 \<or> c mod 13 = 0 \<or> c mod 17 = 0 \<or> c mod 19 = 0
      then False
      else True)"

fun chk_data :: "chk_state \<Rightarrow> alt_u32 \<Rightarrow> chk \<Rightarrow> chk" where
  "chk_data CHK_RESET c u = u\<lparr>isprime := False, prime_checker_done := False\<rparr>"
| "chk_data CHK_WAIT c u = u"
| "chk_data CHK_COMPUTE c u = u\<lparr>isprime := hw_prime c\<rparr>"
| "chk_data CHK_FINISHED c u = u\<lparr>prime_checker_done := True\<rparr>"

definition prime_checker_sv :: "bool \<Rightarrow> bool \<Rightarrow> alt_u32 \<Rightarrow> chk \<Rightarrow> chk" where
  "prime_checker_sv reset_n ready c u =
     (let st = (if reset_n then chk_state u else CHK_RESET)
      in (chk_data st c u)\<lparr>chk_state := (if reset_n then chk_next st ready else CHK_RESET)\<rparr>)"

text \<open>
  The checker is used again and again, and its flag stays up from the first time on. \<open>chk_rest\<close>:
  not in the middle of a test.
\<close>

definition chk_rest :: "chk \<Rightarrow> bool" where
  "chk_rest u \<longleftrightarrow> chk_state u \<noteq> CHK_COMPUTE \<and>
     (prime_checker_done u \<longrightarrow> chk_state u \<noteq> CHK_RESET)"

definition chk_busy :: "nat \<Rightarrow> chk \<Rightarrow> bool" where
  "chk_busy n u \<longleftrightarrow> (if prime_checker_done u then chk_state u \<in> {CHK_WAIT, CHK_FINISHED}
     else n = (case chk_state u of CHK_RESET \<Rightarrow> 4 | CHK_WAIT \<Rightarrow> 3 | CHK_COMPUTE \<Rightarrow> 2 | CHK_FINISHED \<Rightarrow> 1))"

text \<open>The flag has been seen; the start line stays up for one more edge.\<close>

definition chk_seen :: "chk \<Rightarrow> bool" where
  "chk_seen u \<longleftrightarrow> prime_checker_done u \<and> chk_state u \<in> {CHK_WAIT, CHK_COMPUTE}"

definition chk_shows :: "bool \<Rightarrow> chk \<Rightarrow> bool" where
  "chk_shows b u \<longleftrightarrow> chk_state u \<in> {CHK_WAIT, CHK_FINISHED} \<and> prime_checker_done u \<and> isprime u = b"

definition chk_last :: "bool \<Rightarrow> chk \<Rightarrow> bool" where
  "chk_last b u \<longleftrightarrow> chk_shows b u \<or> chk_state u = CHK_COMPUTE \<and> prime_checker_done u"

lemmas chk_simps = prime_checker_sv_def Let_def

lemma chk_rest_step: "chk_rest u \<Longrightarrow> chk_rest (prime_checker_sv True False c u)"
  by (cases "chk_state u") (simp_all add: chk_rest_def chk_simps)

lemma chk_early: "chk_rest u \<Longrightarrow> prime_checker_done u \<Longrightarrow> chk_seen (prime_checker_sv True False c u)"
  by (cases "chk_state u") (simp_all add: chk_rest_def chk_seen_def chk_simps)

lemma chk_begins: "chk_rest u \<Longrightarrow> \<exists>n. chk_busy n u"
  by (cases "chk_state u") (auto simp: chk_rest_def chk_busy_def)

lemma chk_busy_step:
  "chk_busy n u \<Longrightarrow> \<not> prime_checker_done u \<Longrightarrow> \<exists>m<n. chk_busy m (prime_checker_sv True True c u)"
  by (cases "chk_state u") (auto simp: chk_busy_def chk_simps)

lemma chk_busy_seen: "chk_busy n u \<Longrightarrow> prime_checker_done u \<Longrightarrow> chk_seen (prime_checker_sv True True c u)"
  by (cases "chk_state u") (simp_all add: chk_busy_def chk_seen_def chk_simps)

lemma chk_settles: "chk_seen u \<Longrightarrow> chk_last (hw_prime c) (prime_checker_sv True True c u)"
  by (cases "chk_state u") (simp_all add: chk_seen_def chk_last_def chk_shows_def chk_simps)

lemma chk_valid: "chk_last (hw_prime c) u \<Longrightarrow> chk_shows (hw_prime c) (prime_checker_sv True False c u)"
  by (cases "chk_state u") (simp_all add: chk_last_def chk_shows_def chk_simps)

lemma chk_shows_rest: "chk_shows b u \<Longrightarrow> chk_rest u"
  by (auto simp: chk_shows_def chk_rest_def)

end
