(* ===== verification/Transaction.thy ===== *)
theory Transaction
  imports Handshake Computing_Unit
begin

text \<open>
  The exchanges that start a computing unit and fetch its result. The seven of them follow one
  pattern in \<open>io_module\<close>: a state that starts the unit and waits for it, one that waits for the
  processor, one that shows the result, one that acknowledges.
\<close>

section \<open>Waiting with echo\<close>

lemma poll_echo_finishes:
  assumes key: "key_up w"
    and N: "\<And>k. N \<le> k \<Longrightarrow> to_sw_sig (fst ((tick w (to_hw_sig s) (to_hw_port s) ^^ k) (core s))) = v"
  shows "\<exists>s' k. 0 < k \<and> poll_echo w v s = Some s' \<and> rest s' = rest s \<and>
      to_hw_sig s' = to_hw_sig s \<and> to_hw_port s' = to_hw_port s \<and>
      core s' = (tick w (to_hw_sig s) (to_hw_port s) ^^ k) (core s) \<and> to_sw_sig (io s') = v"
  using N
proof (induction N arbitrary: s rule: less_induct)
  case (less N)
  let ?t = "tick w (to_hw_sig s) (to_hw_port s)" and ?n = "Suc (w_lag w (accesses s))"
  have b: "core (bus w s) = (?t ^^ ?n) (core s)" by (rule core_bus [OF key])
  show ?case
  proof (cases "to_sw_sig (io (bus w s)) = v")
    case True
    then have "poll_echo w v s = Some (bus w s)" by (simp add: poll_echo.simps Let_def)
    with True b show ?thesis by (intro exI [of _ "bus w s"] exI [of _ ?n]) simp
  next
    case False
    let ?m = "Suc (w_lag w (accesses (bus w s)))"
    define t where "t = (bus w (bus w s))\<lparr>screen := screen (bus w (bus w s)) @
      [(''to_sw_sig is %d'', [uint (to_sw_sig (io (bus w (bus w s))))])]\<rparr>"
    have r: "rest t = rest s" "to_hw_sig t = to_hw_sig s" "to_hw_port t = to_hw_port s"
      using bus_simps(1) [of w "bus w s"] bus_simps(1) [of w s]
      by (simp_all add: t_def clean_def rest_def del: bus_simps(1))
    have "core t = (?t ^^ ?m) (core (bus w s))" using core_bus [OF key, of "bus w s"] by (simp add: t_def)
    then have c: "core t = (?t ^^ (?m + ?n)) (core s)" by (simp only: b funpow_add o_apply)
    have "\<not> N \<le> ?n" using False less.prems [of ?n] b by (simp add: core_def del: funpow.simps) (metis fst_conv)
    then have "N - (?m + ?n) < N" by simp
    moreover have "to_sw_sig (fst ((tick w (to_hw_sig t) (to_hw_port t) ^^ k) (core t))) = v"
      if "N - (?m + ?n) \<le> k" for k
    proof -
      have "(?t ^^ k) (core t) = (?t ^^ (k + (?m + ?n))) (core s)" by (simp only: c funpow_add o_apply)
      moreover have "N \<le> k + (?m + ?n)" using that by simp
      ultimately show ?thesis using less.prems [of "k + (?m + ?n)"] r by (simp del: funpow.simps)
    qed
    ultimately obtain s' k where s': "0 < k" "poll_echo w v t = Some s'" "rest s' = rest s"
        "to_hw_sig s' = to_hw_sig s" "to_hw_port s' = to_hw_port s"
        "core s' = (?t ^^ k) (core t)" "to_sw_sig (io s') = v"
      using less.IH [of "N - (?m + ?n)" t] r by auto
    have "core s' = (?t ^^ (k + (?m + ?n))) (core s)" by (simp only: s'(6) c funpow_add o_apply)
    moreover have "poll_echo w v s = Some s'"
      using False s'(2) by (simp add: poll_echo.simps [of w v s] Let_def t_def)
    ultimately show ?thesis using s' by (intro exI [of _ s'] exI [of _ "k + (?m + ?n)"]) simp
  qed
qed

lemma triple_await_echo:
  assumes "key_up w" and l: "leads w sig port v P Q"
  shows "triple (at sig port P x) (await_echo w v) (at sig port Q x)"
  unfolding triple_def
proof (intro allI impI)
  fix s assume s: "at sig port P x s"
  then have P: "P (core s)" and sig: "to_hw_sig s = sig" "to_hw_port s = port" by (simp_all add: at_def)
  from l P obtain N where N: "\<And>k. N \<le> k \<Longrightarrow> to_sw_sig (fst ((tick w sig port ^^ k) (core s))) = v"
    and Q: "\<And>k. 0 < k \<Longrightarrow> to_sw_sig (fst ((tick w sig port ^^ k) (core s))) = v \<Longrightarrow>
      Q ((tick w sig port ^^ k) (core s))"
    unfolding leads_def by blast
  from poll_echo_finishes [OF assms(1), of N s v] N sig obtain s' k where s': "0 < k" "poll_echo w v s = Some s'"
      "rest s' = rest s" "to_hw_sig s' = sig" "to_hw_port s' = port"
      "core s' = (tick w sig port ^^ k) (core s)" "to_sw_sig (io s') = v" by auto
  then have "Q (core s')" using Q [of k] by (simp add: core_def) (metis fst_conv)
  with s s' show "\<exists>s'. await_echo w v s = Some (Inr s') \<and> at sig port Q x s'"
    by (simp add: await_echo_def at_def)
qed

text \<open>A write after which the hardware has moved on.\<close>

lemma ticks_reach:
  assumes "\<And>z. P z \<Longrightarrow> Q (tick w sig port z)" "stable w sig port Q" "P z" "0 < n"
  shows "Q ((tick w sig port ^^ n) z)"
proof -
  obtain m where "n = Suc m" using assms(4) by (cases n) auto
  moreover have "(tick w sig port ^^ Suc m) z = (tick w sig port ^^ m) (tick w sig port z)"
    by (simp add: funpow_swap1)
  ultimately show ?thesis using assms stable_ticks by fastforce
qed

lemma triple_put_sig_on:
  assumes "key_up w" "\<And>z. P z \<Longrightarrow> Q (tick w sig port z)" "stable w sig port Q"
  shows "triple (at sig port P x) (put_sig w v) (at v port Q x)"
proof -
  have "Q (core (bus w s))" if "at sig port P x s" for s
    using ticks_reach [OF assms(2,3)] that core_bus [OF assms(1), of s] by (simp add: at_def del: funpow.simps)
  then show ?thesis by (auto simp: triple_def put_sig_def at_def)
qed

section \<open>The seven jobs\<close>

datatype job = J_chk1 | J_chk2 | J_n | J_phi | J_d | J_enc | J_dec

fun job_cmd :: "job \<Rightarrow> nibble" where
  "job_cmd J_chk1 = 11" | "job_cmd J_chk2 = 12" | "job_cmd J_n = 9" | "job_cmd J_phi = 3"
| "job_cmd J_d = 10" | "job_cmd J_enc = 6" | "job_cmd J_dec = 7"

fun job_send :: "job \<Rightarrow> io_state" where
  "job_send J_chk1 = SEND_TO_PRIME_CHECKER_1" | "job_send J_chk2 = SEND_TO_PRIME_CHECKER_2"
| "job_send J_n = SEND_TO_RSA_N" | "job_send J_phi = SEND_TO_RSA_PHI" | "job_send J_d = SEND_TO_RSA_GEND"
| "job_send J_enc = SEND_TO_RSA_ENCRYPT" | "job_send J_dec = SEND_TO_RSA_DECRYPT"

fun job_get :: "job \<Rightarrow> io_state" where
  "job_get J_chk1 = GET_FROM_PRIME_CHECKER_1" | "job_get J_chk2 = GET_FROM_PRIME_CHECKER_2"
| "job_get J_n = GET_FROM_RSA_N" | "job_get J_phi = GET_FROM_RSA_PHI" | "job_get J_d = GET_FROM_RSA_GEND"
| "job_get J_enc = GET_FROM_RSA_ENCRYPT" | "job_get J_dec = GET_FROM_RSA_DECRYPT"

fun job_back :: "job \<Rightarrow> io_state" where
  "job_back J_chk1 = SEND_BACK_PRIME_1" | "job_back J_chk2 = SEND_BACK_PRIME_2"
| "job_back J_n = SEND_BACK_N" | "job_back J_phi = SEND_BACK_PHI" | "job_back J_d = SEND_BACK_GEND"
| "job_back J_enc = SEND_BACK_ENCRYPTED" | "job_back J_dec = SEND_BACK_DECRYPTED"

fun job_ack :: "job \<Rightarrow> io_state" where
  "job_ack J_chk1 = GOT_ACK_PRIME_1" | "job_ack J_chk2 = GOT_ACK_PRIME_2"
| "job_ack J_n = GOT_ACK_N" | "job_ack J_phi = GOT_ACK_PHI" | "job_ack J_d = GOT_ACK_GEND"
| "job_ack J_enc = GOT_ACK_ENCRYPTED" | "job_ack J_dec = GOT_ACK_DECRYPTED"

fun job_ready :: "job \<Rightarrow> io_regs \<Rightarrow> bool" where
  "job_ready J_chk1 r = prime_checker_ready1 r" | "job_ready J_chk2 r = prime_checker_ready2 r"
| "job_ready J_n r = n_ready r" | "job_ready J_phi r = phi_ready r" | "job_ready J_d r = generated_ready r"
| "job_ready J_enc r = encrypt_ready r" | "job_ready J_dec r = decrypt_ready r"

fun job_done :: "job \<Rightarrow> io_in \<Rightarrow> bool" where
  "job_done J_chk1 i = prime_checker_done1 i" | "job_done J_chk2 i = prime_checker_done2 i"
| "job_done J_n i = n_done i" | "job_done J_phi i = phi_done i" | "job_done J_d i = generated_done i"
| "job_done J_enc i = encrypt_done i" | "job_done J_dec i = decrypt_done i"

fun job_value :: "job \<Rightarrow> io_in \<Rightarrow> alt_u32" where
  "job_value J_chk1 i = of_bool (i_isprime1 i)" | "job_value J_chk2 i = of_bool (i_isprime2 i)"
| "job_value J_n i = i_n i" | "job_value J_phi i = i_phi i" | "job_value J_d i = i_d i"
| "job_value J_enc i = i_encrypted i" | "job_value J_dec i = i_decrypted i"

text \<open>The last three units start on a second command.\<close>

definition starts :: "job \<Rightarrow> nibble \<Rightarrow> bool" where
  "starts j sig \<longleftrightarrow> j \<notin> {J_d, J_enc, J_dec} \<or> sig = 5"

definition lit :: "job \<Rightarrow> io_regs \<Rightarrow> bool" where
  "lit j r \<longleftrightarrow> (\<forall>k. job_ready k r \<longleftrightarrow> k = j)"

lemma all_jobs: "(\<forall>k. P k) \<longleftrightarrow> P J_chk1 \<and> P J_chk2 \<and> P J_n \<and> P J_phi \<and> P J_d \<and> P J_enc \<and> P J_dec"
    (is "_ \<longleftrightarrow> ?R")
proof
  assume ?R
  then have "P k" for k by (cases k) simp_all
  then show "\<forall>k. P k" by blast
qed simp

lemma calm_jobs: "calm r \<longleftrightarrow> (\<forall>k. \<not> job_ready k r)"
  by (auto simp: calm_def all_jobs)

text \<open>Where the hardware is, which unit is started, and a predicate on the units.\<close>

definition spot :: "io_state \<Rightarrow> nibble \<Rightarrow> bool \<Rightarrow> job \<Rightarrow> (slot \<Rightarrow> alt_u32) \<Rightarrow> ('u \<Rightarrow> bool) \<Rightarrow>
    io_regs \<times> 'u \<Rightarrow> bool" where
  "spot st a b j v U z \<longleftrightarrow> state (fst z) = st \<and> to_sw_sig (fst z) = a \<and> slots (fst z) = v \<and>
     (if b then lit j (fst z) else calm (fst z)) \<and> U (snd z)"

lemma spot_wait: "spot WAIT 7 False j v U = region WAIT 7 v U"
  by (rule ext) (simp add: spot_def region_def)

lemma job_neq [simp]: "job_cmd j \<noteq> 8"
  by (cases j) simp_all

lemma io_wait_cmd:
  assumes "state r = WAIT" "calm r"
  shows "state (io_clock True (job_cmd j) port i r) = job_send j" "to_sw_sig (io_clock True (job_cmd j) port i r) = 7"
    "slots (io_clock True (job_cmd j) port i r) = slots r" "calm (io_clock True (job_cmd j) port i r)"
  using assms by (cases j; simp add: io_clock_def calm_def slots_ext)+

lemma io_send:
  assumes "state r = job_send j"
  shows "state (io_clock True sig port i r) = (if job_done j i then job_get j else job_send j)"
    "to_sw_sig (io_clock True sig port i r) = (if j = J_d \<and> sig = 5 then 4 else 3)"
    "slots (io_clock True sig port i r) = slots r"
    "calm r \<Longrightarrow> starts j sig \<Longrightarrow> lit j (io_clock True sig port i r)"
    "calm r \<Longrightarrow> \<not> starts j sig \<Longrightarrow> calm (io_clock True sig port i r)"
    "lit j r \<Longrightarrow> lit j (io_clock True sig port i r)"
  using assms by (cases j; simp add: io_clock_def calm_def lit_def starts_def all_jobs slots_ext)+

lemma io_get:
  assumes "state r = job_get j"
  shows "state (io_clock True sig port i r) = (if sig = 1 then job_back j else job_get j)"
    "to_sw_sig (io_clock True sig port i r) = 2" "slots (io_clock True sig port i r) = slots r"
    "calm r \<or> lit j r \<Longrightarrow> calm (io_clock True sig port i r)"
  using assms by (cases j; auto simp: io_clock_def calm_def lit_def all_jobs slots_ext)+

lemma io_back:
  assumes "state r = job_back j"
  shows "state (io_clock True sig port i r) = (if sig = 2 then job_ack j else job_back j)"
    "to_sw_sig (io_clock True sig port i r) = 1" "slots (io_clock True sig port i r) = slots r"
    "to_sw_port (io_clock True sig port i r) = job_value j i"
    "calm r \<Longrightarrow> calm (io_clock True sig port i r)"
  using assms by (cases j; simp add: io_clock_def calm_def slots_ext)+

lemma io_ack:
  assumes "state r = job_ack j"
  shows "state (io_clock True sig port i r) = (if sig = 8 then WAIT else job_ack j)"
    "to_sw_sig (io_clock True sig port i r) = 0" "slots (io_clock True sig port i r) = slots r"
    "calm r \<Longrightarrow> calm (io_clock True sig port i r)"
  using assms by (cases j; simp add: io_clock_def calm_def slots_ext)+

section \<open>The exchange\<close>

lemma leads_until:
  assumes "\<And>z. P z \<Longrightarrow> until (tick w sig port) (\<lambda>z. to_sw_sig (fst z) = v) Q z \<and> \<not> Q z"
    and "stable w sig port Q" "\<And>z. Q z \<Longrightarrow> to_sw_sig (fst z) = v"
  shows "leads w sig port v P Q"
proof (rule leadsI [OF _ assms(2,3)])
  fix z assume "P z"
  note u = assms(1) [OF this]
  from until_iter [OF conjunct1 [OF u]] obtain n where n: "Q ((tick w sig port ^^ n) z)"
      "\<forall>k<n. to_sw_sig (fst ((tick w sig port ^^ k) z)) \<noteq> v" by blast
  have "n \<noteq> 0"
  proof
    assume "n = 0"
    then show False using n(1) u by simp
  qed
  then show "\<exists>n>0. Q ((tick w sig port ^^ n) z) \<and>
      (\<forall>k. 0 < k \<longrightarrow> k < n \<longrightarrow> to_sw_sig (fst ((tick w sig port ^^ k) z)) \<noteq> v)"
    using n by (intro exI [of _ n]) simp
qed

text \<open>
  The contract of one exchange, for fixed contents \<open>v\<close> of the number registers: \<open>A\<close> before the
  unit is started, \<open>B n\<close> while it works, at most \<open>n\<close> edges more, \<open>C\<close> when its flag has just been seen, \<open>E0\<close> one
  edge later, \<open>E\<close> while it shows the result \<open>x\<close>. The flag of a prime checker is never taken
  back, so it may be up already when the unit is started again.
\<close>

locale transaction =
  fixes w :: "'u world" and j :: job and v :: "slot \<Rightarrow> alt_u32"
    and A :: "'u \<Rightarrow> bool" and B :: "nat \<Rightarrow> 'u \<Rightarrow> bool" and C :: "'u \<Rightarrow> bool" and E0 :: "'u \<Rightarrow> bool"
    and E :: "'u \<Rightarrow> bool" and x :: alt_u32
  assumes before: "A u \<Longrightarrow> calm r \<Longrightarrow> slots r = v \<Longrightarrow> A (w_step w True r u)"
    and early: "A u \<Longrightarrow> job_done j (w_out w u) \<Longrightarrow> j \<in> {J_chk1, J_chk2}"
    and early_seen: "A u \<Longrightarrow> job_done j (w_out w u) \<Longrightarrow> calm r \<Longrightarrow> slots r = v \<Longrightarrow> C (w_step w True r u)"
    and begins: "A u \<Longrightarrow> \<exists>n. B n u"
    and running: "B n u \<Longrightarrow> lit j r \<Longrightarrow> slots r = v \<Longrightarrow> \<not> job_done j (w_out w u) \<Longrightarrow>
      \<exists>m<n. B m (w_step w True r u)"
    and seen: "B n u \<Longrightarrow> lit j r \<Longrightarrow> slots r = v \<Longrightarrow> job_done j (w_out w u) \<Longrightarrow> C (w_step w True r u)"
    and settle: "C u \<Longrightarrow> lit j r \<Longrightarrow> slots r = v \<Longrightarrow> E0 (w_step w True r u)"
    and valid: "E0 u \<or> E u \<Longrightarrow> calm r \<Longrightarrow> slots r = v \<Longrightarrow> E (w_step w True r u)"
    and result: "E u \<Longrightarrow> job_value j (w_out w u) = x"
begin

abbreviation (input) got :: "io_regs \<times> 'u \<Rightarrow> bool" where
  "got \<equiv> spot (job_get j) 2 False j v (\<lambda>u. E0 u \<or> E u)"

definition shown :: "io_regs \<times> 'u \<Rightarrow> bool" where
  "shown z \<longleftrightarrow> spot (job_back j) 1 False j v E z \<and> to_sw_port (fst z) = x"

lemma tick_got: "got z \<Longrightarrow> sig \<noteq> 1 \<Longrightarrow> spot (job_get j) 2 False j v E (tick w sig port z)"
  using io_get [of "fst z" j sig port "w_out w (snd z)"] valid [of "snd z" "fst z"]
  by (simp add: spot_def)

lemma stable_got: "sig \<noteq> 1 \<Longrightarrow> stable w sig port got"
  unfolding stable_def using tick_got by (simp add: spot_def)

lemma until_got:
  assumes "B n (snd z)" "state (fst z) = job_send j" "lit j (fst z)" "slots (fst z) = v"
    "to_sw_sig (fst z) \<noteq> 2" "sig \<noteq> 1"
  shows "until (tick w sig port) (\<lambda>z. to_sw_sig (fst z) = 2) got z"
  using assms
proof (induction n arbitrary: z rule: less_induct)
  case (less n)
  let ?z = "tick w sig port z"
  note io = io_send [OF less.prems(2), of sig port "w_out w (snd z)"]
  have a: "to_sw_sig (fst ?z) \<noteq> 2" "lit j (fst ?z)" "slots (fst ?z) = v" using io less.prems by simp_all
  show ?case
  proof (cases "job_done j (w_out w (snd z))")
    case False
    then obtain m where "m < n" "B m (snd ?z)" using running [OF less.prems(1,3,4)] by auto
    then have "until (tick w sig port) (\<lambda>z. to_sw_sig (fst z) = 2) got ?z"
      using io a False less.prems(6) by (intro less.IH) simp_all
    then show ?thesis using less.prems(5) by (rule until_step [rotated])
  next
    case True
    then have c: "C (snd ?z)" "state (fst ?z) = job_get j" using seen [OF less.prems(1,3,4)] io by simp_all
    have "got (tick w sig port ?z)"
      using io_get [OF c(2), of sig port "w_out w (snd ?z)"] settle [OF c(1) a(2,3)] a less.prems(6)
      by (simp add: spot_def)
    then have "until (tick w sig port) (\<lambda>z. to_sw_sig (fst z) = 2) got ?z" using a(1) by (intro until_one)
    then show ?thesis using less.prems(5) by (rule until_step [rotated])
  qed
qed

lemma until_sending:
  assumes "A (snd z)" "state (fst z) = job_send j" "calm (fst z)" "slots (fst z) = v"
    "to_sw_sig (fst z) \<noteq> 2" "sig \<noteq> 1" "starts j sig"
  shows "until (tick w sig port) (\<lambda>z. to_sw_sig (fst z) = 2) got z"
proof -
  let ?z = "tick w sig port z"
  note io = io_send [OF assms(2), of sig port "w_out w (snd z)"]
  have a: "to_sw_sig (fst ?z) \<noteq> 2" "lit j (fst ?z)" "slots (fst ?z) = v" using io assms by simp_all
  have "until (tick w sig port) (\<lambda>z. to_sw_sig (fst z) = 2) got ?z"
  proof (cases "job_done j (w_out w (snd z))")
    case False
    then have st: "state (fst ?z) = job_send j" using io by simp
    have "A (snd ?z)" using before assms by simp
    then obtain n where "B n (snd ?z)" using begins by blast
    then show ?thesis using st a assms(6) by (intro until_got)
  next
    case True
    then have c: "C (snd ?z)" "state (fst ?z) = job_get j" using early_seen assms io by simp_all
    have "got (tick w sig port ?z)"
      using io_get [OF c(2), of sig port "w_out w (snd ?z)"] settle [OF c(1) a(2,3)] a assms(6)
      by (simp add: spot_def)
    then show ?thesis using a(1) by (intro until_one)
  qed
  then show ?thesis using assms(5) by (rule until_step [rotated])
qed

lemma tick_cmd:
  "spot WAIT 7 False j v A z \<Longrightarrow> spot (job_send j) 7 False j v A (tick w (job_cmd j) port z)"
  using io_wait_cmd [of "fst z" j port "w_out w (snd z)"] before [of "snd z" "fst z"] by (simp add: spot_def)

lemma cmd_neq: "job_cmd j \<noteq> 1"
  by (cases j) simp_all

text \<open>The units that start at once.\<close>

lemma leads_got: "starts j (job_cmd j) \<Longrightarrow> leads w (job_cmd j) port 2 (spot WAIT 7 False j v A) got"
proof (rule leads_until)
  assume s: "starts j (job_cmd j)"
  show "until (tick w (job_cmd j) port) (\<lambda>z. to_sw_sig (fst z) = 2) got z \<and> \<not> got z"
    if z: "spot WAIT 7 False j v A z" for z
  proof
    have "until (tick w (job_cmd j) port) (\<lambda>z. to_sw_sig (fst z) = 2) got (tick w (job_cmd j) port z)"
      using tick_cmd [OF z, of port] s cmd_neq by (intro until_sending) (simp_all add: spot_def)
    then show "until (tick w (job_cmd j) port) (\<lambda>z. to_sw_sig (fst z) = 2) got z"
      using z by (intro until_step [of _ z]) (simp_all add: spot_def)
    show "\<not> got z" using z by (simp add: spot_def)
  qed
  show "stable w (job_cmd j) port got" using stable_got cmd_neq by simp
qed (simp add: spot_def)

text \<open>The units that wait for the second command.\<close>

lemma tick_sending:
  assumes "\<not> starts j sig" "spot (job_send j) a False j v A z"
  shows "spot (job_send j) 3 False j v A (tick w sig port z)"
  using io_send [of "fst z" j sig port "w_out w (snd z)"] assms early before [of "snd z" "fst z"]
  by (auto simp: spot_def starts_def)

lemma leads_sending:
  assumes "\<not> starts j (job_cmd j)"
  shows "leads w (job_cmd j) port 3 (spot WAIT 7 False j v A) (spot (job_send j) 3 False j v A)"
proof (rule leads_two [where M = "spot (job_send j) 7 False j v A"])
  show "spot (job_send j) 7 False j v A z \<Longrightarrow>
      spot (job_send j) 3 False j v A (tick w (job_cmd j) port z) \<and> to_sw_sig (fst z) \<noteq> 3" for z
    using tick_sending [OF assms] by (auto simp: spot_def)
  show "stable w (job_cmd j) port (spot (job_send j) 3 False j v A)"
    unfolding stable_def using tick_sending [OF assms] by blast
qed (use tick_cmd in \<open>simp_all add: spot_def\<close>)

lemma leads_got5: "leads w 5 port 2 (spot (job_send j) 3 False j v A) got"
proof (rule leads_until)
  show "until (tick w 5 port) (\<lambda>z. to_sw_sig (fst z) = 2) got z \<and> \<not> got z"
    if z: "spot (job_send j) 3 False j v A z" for z
  proof
    show "until (tick w 5 port) (\<lambda>z. to_sw_sig (fst z) = 2) got z"
      using z by (intro until_sending) (simp_all add: spot_def starts_def)
    show "\<not> got z" using z by (simp add: spot_def)
  qed
  show "stable w 5 port got" using stable_got by simp
qed (simp add: spot_def)

text \<open>Fetching the result.\<close>

lemma stable_got_valid: "sig \<noteq> 1 \<Longrightarrow> stable w sig port (spot (job_get j) 2 False j v E)"
  unfolding stable_def using tick_got by (simp add: spot_def)

lemma tick_back:
  assumes "spot (job_back j) a False j v E z" "sig \<noteq> 2"
  shows "shown (tick w sig port z)"
  using io_back [of "fst z" j sig port "w_out w (snd z)"] assms valid [of "snd z" "fst z"] result
  by (simp add: spot_def shown_def)

lemma leads_shown: "leads w 1 port 1 (spot (job_get j) 2 False j v E) shown"
proof (rule leads_two [where M = "spot (job_back j) 2 False j v E"])
  show "spot (job_get j) 2 False j v E z \<Longrightarrow> spot (job_back j) 2 False j v E (tick w 1 port z)" for z
    using io_get [of "fst z" j 1 port "w_out w (snd z)"] valid [of "snd z" "fst z"] by (simp add: spot_def)
  show "spot (job_back j) 2 False j v E z \<Longrightarrow> shown (tick w 1 port z) \<and> to_sw_sig (fst z) \<noteq> 1" for z
    using tick_back by (auto simp: spot_def)
  show "stable w 1 port shown" unfolding stable_def using tick_back by (auto simp: shown_def)
qed (simp add: shown_def spot_def)

lemma stable_shown: "sig \<noteq> 2 \<Longrightarrow> stable w sig port shown"
  unfolding stable_def using tick_back by (auto simp: shown_def)

lemma tick_ack:
  assumes "spot (job_ack j) a False j v E z" "sig \<noteq> 8"
  shows "spot (job_ack j) 0 False j v E (tick w sig port z)"
  using io_ack [of "fst z" j sig port "w_out w (snd z)"] assms valid [of "snd z" "fst z"] by (simp add: spot_def)

lemma leads_ack: "leads w 2 port 0 shown (spot (job_ack j) 0 False j v E)"
proof (rule leads_two [where M = "spot (job_ack j) 1 False j v E"])
  show "shown z \<Longrightarrow> spot (job_ack j) 1 False j v E (tick w 2 port z)" for z
    using io_back [of "fst z" j 2 port "w_out w (snd z)"] valid [of "snd z" "fst z"]
    by (simp add: shown_def spot_def)
  show "spot (job_ack j) 1 False j v E z \<Longrightarrow>
      spot (job_ack j) 0 False j v E (tick w 2 port z) \<and> to_sw_sig (fst z) \<noteq> 0" for z
    using tick_ack [of 1 z 2 port] by (simp add: spot_def)
  show "stable w 2 port (spot (job_ack j) 0 False j v E)" unfolding stable_def using tick_ack by auto
qed (simp add: spot_def)

lemma stable_ack: "sig \<noteq> 8 \<Longrightarrow> stable w sig port (spot (job_ack j) 0 False j v E)"
  unfolding stable_def using tick_ack by auto

lemma tick_wait: "spot WAIT a False j v E z \<Longrightarrow> spot WAIT 7 False j v E (tick w 8 port z)"
  using valid [of "snd z" "fst z"] by (simp add: spot_def io_clock_def calm_def slots_ext)

lemma leads_wait: "leads w 8 port 7 (spot (job_ack j) 0 False j v E) (spot WAIT 7 False j v E)"
proof (rule leads_two [where M = "spot WAIT 0 False j v E"])
  show "spot (job_ack j) 0 False j v E z \<Longrightarrow> spot WAIT 0 False j v E (tick w 8 port z)" for z
    using io_ack [of "fst z" j 8 port "w_out w (snd z)"] valid [of "snd z" "fst z"] by (simp add: spot_def)
  show "spot WAIT 0 False j v E z \<Longrightarrow>
      spot WAIT 7 False j v E (tick w 8 port z) \<and> to_sw_sig (fst z) \<noteq> 7" for z
    using tick_wait by (auto simp: spot_def)
  show "stable w 8 port (spot WAIT 7 False j v E)" unfolding stable_def using tick_wait by blast
qed (simp add: spot_def)

lemma stable_before: "stable w 8 port (spot WAIT 7 False j v A)"
  unfolding stable_def
  using before by (auto simp: spot_def io_clock_def calm_def slots_ext)

text \<open>The statements of the driver in their order, except for what it prints.\<close>

lemmas exchange_triples =
  triple_put_sig [OF _ stable_before] triple_put_sig [OF _ stable_got]
  triple_await [OF _ leads_shown] triple_fetch [OF _ stable_shown]
  triple_put_sig [OF _ stable_shown] triple_await [OF _ leads_ack]
  triple_put_sig [OF _ stable_ack] triple_await [OF _ leads_wait]

end

end
