(* ===== verification/Coprocessor.thy ===== *)
theory Coprocessor
  imports Transaction Exp_Units Key_Units
begin

text \<open>
  The computing units as \<open>final_project.sv\<close> wires them to \<open>io_module\<close>, and the proof that all
  seven exchanges of the driver meet the contract of \<open>transaction\<close>.
\<close>

section \<open>The wiring\<close>

record rsa_units =
  u_chk1 :: chk
  u_chk2 :: chk
  u_phi :: gen
  u_n :: gen
  u_d :: gd
  u_enc :: enc
  u_dec :: enc

definition units_out :: "rsa_units \<Rightarrow> io_in" where
  "units_out u =
     \<lparr>i_phi = gen_out (u_phi u), i_n = gen_out (u_n u), i_d = gd_d (u_d u),
      i_encrypted = enc_C (u_enc u), i_decrypted = enc_C (u_dec u),
      i_isprime1 = isprime (u_chk1 u), i_isprime2 = isprime (u_chk2 u),
      encrypt_done = enc_done (u_enc u), decrypt_done = enc_done (u_dec u),
      phi_done = gen_done (u_phi u), n_done = gen_done (u_n u), generated_done = gd_done (u_d u),
      prime_checker_done1 = prime_checker_done (u_chk1 u),
      prime_checker_done2 = prime_checker_done (u_chk2 u)\<rparr>"

text \<open>
  The decrypting unit is a second \<open>rsa_encrypt\<close>; it takes the message from the output of the
  first one and the exponent from \<open>generate_d\<close>.
\<close>

definition units_step :: "bool \<Rightarrow> io_regs \<Rightarrow> rsa_units \<Rightarrow> rsa_units" where
  "units_step reset_n r u =
     \<lparr>u_chk1 = prime_checker_sv reset_n (prime_checker_ready1 r) (prime1 r) (u_chk1 u),
      u_chk2 = prime_checker_sv reset_n (prime_checker_ready2 r) (prime2 r) (u_chk2 u),
      u_phi = phi_gen reset_n (phi_ready r) (prime1 r, prime2 r) (u_phi u),
      u_n = n_gen reset_n (n_ready r) (prime1 r, prime2 r) (u_n u),
      u_d = generate_d reset_n (generated_ready r) (e_reg r, gen_out (u_phi u)) (u_d u),
      u_enc = rsa_encrypt reset_n (encrypt_ready r) (plaintext r, e_reg r, gen_out (u_n u)) (u_enc u),
      u_dec = rsa_encrypt reset_n (decrypt_ready r) (enc_C (u_enc u), gd_d (u_d u), gen_out (u_n u)) (u_dec u)\<rparr>"

definition rsa_world :: "(nat \<Rightarrow> nat) \<Rightarrow> (nat \<Rightarrow> bool) \<Rightarrow> rsa_units world" where
  "rsa_world lag key = \<lparr>w_out = units_out, w_step = units_step, w_lag = lag, w_key = key\<rparr>"

section \<open>The units between two exchanges\<close>

text \<open>
  \<open>S\<close> tells for every job whether it has been done, and its result. A unit that is used
  once is idle before that and shows its result afterwards; a prime checker rests.
\<close>

type_synonym results = "job \<Rightarrow> alt_u32 option"

fun unit_at :: "job \<Rightarrow> alt_u32 option \<Rightarrow> rsa_units \<Rightarrow> bool" where
  "unit_at J_chk1 y u = chk_rest (u_chk1 u)"
| "unit_at J_chk2 y u = chk_rest (u_chk2 u)"
| "unit_at J_n y u = (case y of None \<Rightarrow> gen_idle (u_n u) | Some x \<Rightarrow> gen_held False x (u_n u))"
| "unit_at J_phi y u = (case y of None \<Rightarrow> gen_idle (u_phi u) | Some x \<Rightarrow> gen_held False x (u_phi u))"
| "unit_at J_d y u = (case y of None \<Rightarrow> gd_idle (u_d u) | Some x \<Rightarrow> gd_held False x (u_d u))"
| "unit_at J_enc y u = (case y of None \<Rightarrow> enc_idle (u_enc u) | Some x \<Rightarrow> enc_held False x (u_enc u))"
| "unit_at J_dec y u = (case y of None \<Rightarrow> enc_idle (u_dec u) | Some x \<Rightarrow> enc_held False x (u_dec u))"

definition others :: "job \<Rightarrow> results \<Rightarrow> rsa_units \<Rightarrow> bool" where
  "others j S u \<longleftrightarrow> (\<forall>k. k \<noteq> j \<longrightarrow> unit_at k (S k) u)"

definition bank :: "results \<Rightarrow> rsa_units \<Rightarrow> bool" where
  "bank S u \<longleftrightarrow> (\<forall>k. unit_at k (S k) u)"

text \<open>What a job computes from the number registers and the earlier results, and when it can.\<close>

fun job_result :: "job \<Rightarrow> (slot \<Rightarrow> alt_u32) \<Rightarrow> results \<Rightarrow> alt_u32" where
  "job_result J_chk1 v S = of_bool (hw_prime (v S_prime1))"
| "job_result J_chk2 v S = of_bool (hw_prime (v S_prime2))"
| "job_result J_n v S = v S_prime1 * v S_prime2"
| "job_result J_phi v S = (v S_prime1 - 1) * (v S_prime2 - 1)"
| "job_result J_d v S = gd_value (v S_e, the (S J_phi))"
| "job_result J_enc v S = enc_value (v S_plaintext, v S_e, the (S J_n))"
| "job_result J_dec v S = enc_value (the (S J_enc), the (S J_d), the (S J_n))"

fun job_ok :: "job \<Rightarrow> (slot \<Rightarrow> alt_u32) \<Rightarrow> results \<Rightarrow> bool" where
  "job_ok J_chk1 v S = True"
| "job_ok J_chk2 v S = True"
| "job_ok J_n v S \<longleftrightarrow> S J_n = None \<and> v S_prime2 \<noteq> - 1"
| "job_ok J_phi v S \<longleftrightarrow> S J_phi = None \<and> v S_prime2 \<noteq> 0"
| "job_ok J_d v S \<longleftrightarrow> S J_d = None \<and> S J_phi \<noteq> None \<and> gd_ok (v S_e, the (S J_phi))"
| "job_ok J_enc v S \<longleftrightarrow> S J_enc = None \<and> S J_n \<noteq> None \<and> enc_ok (v S_plaintext, v S_e, the (S J_n))"
| "job_ok J_dec v S \<longleftrightarrow> S J_dec = None \<and> S J_n \<noteq> None \<and> S J_enc \<noteq> None \<and> S J_d \<noteq> None \<and>
     enc_ok (the (S J_enc), the (S J_d), the (S J_n))"

text \<open>The unit at work, just finished, and showing its result.\<close>

fun unit_busy :: "job \<Rightarrow> (slot \<Rightarrow> alt_u32) \<Rightarrow> results \<Rightarrow> nat \<Rightarrow> rsa_units \<Rightarrow> bool" where
  "unit_busy J_chk1 v S n u = chk_busy n (u_chk1 u)"
| "unit_busy J_chk2 v S n u = chk_busy n (u_chk2 u)"
| "unit_busy J_n v S n u = ngen.busy_for n (v S_prime1, v S_prime2) (u_n u)"
| "unit_busy J_phi v S n u = phigen.busy_for n (v S_prime1, v S_prime2) (u_phi u)"
| "unit_busy J_d v S n u = gd.busy_for n (v S_e, the (S J_phi)) (u_d u)"
| "unit_busy J_enc v S n u = enc.busy_for n (v S_plaintext, v S_e, the (S J_n)) (u_enc u)"
| "unit_busy J_dec v S n u = enc.busy_for n (the (S J_enc), the (S J_d), the (S J_n)) (u_dec u)"

fun unit_seen :: "job \<Rightarrow> alt_u32 \<Rightarrow> rsa_units \<Rightarrow> bool" where
  "unit_seen J_chk1 x u = chk_seen (u_chk1 u)"
| "unit_seen J_chk2 x u = chk_seen (u_chk2 u)"
| "unit_seen J_n x u = gen_held True x (u_n u)"
| "unit_seen J_phi x u = gen_held True x (u_phi u)"
| "unit_seen J_d x u = gd_held True x (u_d u)"
| "unit_seen J_enc x u = enc_held True x (u_enc u)"
| "unit_seen J_dec x u = enc_held True x (u_dec u)"

fun unit_last :: "job \<Rightarrow> alt_u32 \<Rightarrow> rsa_units \<Rightarrow> bool" where
  "unit_last J_chk1 x u \<longleftrightarrow> x \<in> {0, 1} \<and> chk_last (x = 1) (u_chk1 u)"
| "unit_last J_chk2 x u \<longleftrightarrow> x \<in> {0, 1} \<and> chk_last (x = 1) (u_chk2 u)"
| "unit_last j x u = unit_seen j x u"

fun unit_shows :: "job \<Rightarrow> alt_u32 \<Rightarrow> rsa_units \<Rightarrow> bool" where
  "unit_shows J_chk1 x u \<longleftrightarrow> x \<in> {0, 1} \<and> chk_shows (x = 1) (u_chk1 u)"
| "unit_shows J_chk2 x u \<longleftrightarrow> x \<in> {0, 1} \<and> chk_shows (x = 1) (u_chk2 u)"
| "unit_shows j x u = unit_at j (Some x) u"

section \<open>Their edges\<close>

lemma units_out_done:
  "job_done j (units_out u) = (case j of J_chk1 \<Rightarrow> prime_checker_done (u_chk1 u)
     | J_chk2 \<Rightarrow> prime_checker_done (u_chk2 u) | J_n \<Rightarrow> gen_done (u_n u) | J_phi \<Rightarrow> gen_done (u_phi u)
     | J_d \<Rightarrow> gd_done (u_d u) | J_enc \<Rightarrow> enc_done (u_enc u) | J_dec \<Rightarrow> enc_done (u_dec u))"
  by (cases j) (simp_all add: units_out_def)

lemma unit_at_step:
  assumes "unit_at k y u" "\<not> job_ready k r"
  shows "unit_at k y (units_step True r u)"
  using assms ngen.idle_idle ngen.held_low phigen.idle_idle phigen.held_low gd.idle_idle gd.held_low
    enc.idle_idle enc.held_low chk_rest_step
  by (cases k) (auto simp: units_step_def split: option.splits)

lemma others_step: "others j S u \<Longrightarrow> lit j r \<or> calm r \<Longrightarrow> others j S (units_step True r u)"
  unfolding others_def calm_jobs lit_def by (blast intro: unit_at_step)

lemma bank_step: "bank S u \<Longrightarrow> calm r \<Longrightarrow> bank S (units_step True r u)"
  unfolding bank_def calm_jobs by (blast intro: unit_at_step)

lemma bank_others: "bank S u \<longleftrightarrow> others j S u \<and> unit_at j (S j) u"
  unfolding bank_def others_def by metis

text \<open>The results a unit reads stand still while it works.\<close>

lemma others_outputs:
  assumes "others j S u"
  shows "j \<noteq> J_n \<Longrightarrow> S J_n \<noteq> None \<Longrightarrow> gen_out (u_n u) = the (S J_n)"
    "j \<noteq> J_phi \<Longrightarrow> S J_phi \<noteq> None \<Longrightarrow> gen_out (u_phi u) = the (S J_phi)"
    "j \<noteq> J_d \<Longrightarrow> S J_d \<noteq> None \<Longrightarrow> gd_d (u_d u) = the (S J_d)"
    "j \<noteq> J_enc \<Longrightarrow> S J_enc \<noteq> None \<Longrightarrow> enc_C (u_enc u) = the (S J_enc)"
proof -
  have at: "unit_at k (S k) u" if "k \<noteq> j" for k using assms that by (simp add: others_def)
  show "j \<noteq> J_n \<Longrightarrow> S J_n \<noteq> None \<Longrightarrow> gen_out (u_n u) = the (S J_n)"
    using at [of J_n] ngen.held_out by auto
  show "j \<noteq> J_phi \<Longrightarrow> S J_phi \<noteq> None \<Longrightarrow> gen_out (u_phi u) = the (S J_phi)"
    using at [of J_phi] phigen.held_out by auto
  show "j \<noteq> J_d \<Longrightarrow> S J_d \<noteq> None \<Longrightarrow> gd_d (u_d u) = the (S J_d)"
    using at [of J_d] gd.held_out by auto
  show "j \<noteq> J_enc \<Longrightarrow> S J_enc \<noteq> None \<Longrightarrow> enc_C (u_enc u) = the (S J_enc)"
    using at [of J_enc] enc.held_out by auto
qed

lemma unit_early_only: "unit_at j None u \<Longrightarrow> job_done j (units_out u) \<Longrightarrow> j \<in> {J_chk1, J_chk2}"
  using ngen.idle_done phigen.idle_done gd.idle_done enc.idle_done by (cases j) (auto simp: units_out_done)

lemma unit_early:
  assumes "unit_at j None u" "job_done j (units_out u)" "\<not> job_ready j r"
  shows "unit_seen j x (units_step True r u)"
  using unit_early_only [OF assms(1,2)] assms chk_early by (auto simp: units_out_done units_step_def)

lemma unit_begins:
  assumes "unit_at j None u" "job_ok j v S"
  shows "\<exists>n. unit_busy j v S n u"
  using assms ngen.starts_busy phigen.starts_busy gd.starts_busy enc.starts_busy chk_begins
  by (cases j) simp_all

lemma slots_simps: "slots r = v \<Longrightarrow> v S_prime1 = prime1 r \<and> v S_prime2 = prime2 r \<and> v S_e = e_reg r \<and>
    v S_plaintext = plaintext r"
  by (auto simp: slots_ext)

lemma unit_runs:
  assumes "unit_busy j v S n u" "others j S u" "job_ok j v S" "job_ready j r" "slots r = v"
    "\<not> job_done j (units_out u)"
  shows "\<exists>m<n. unit_busy j v S m (units_step True r u)"
  using assms others_outputs [OF assms(2)] slots_simps [OF assms(5)]
    chk_busy_step ngen.busy_for_step phigen.busy_for_step gd.busy_for_step enc.busy_for_step
  by (cases j) (auto simp: units_out_done units_step_def)

lemma unit_finishes:
  assumes "unit_busy j v S n u" "job_ready j r" "job_done j (units_out u)"
  shows "unit_seen j (job_result j v S) (units_step True r u)"
  using assms chk_busy_seen ngen.busy_for_seen [of n "(v S_prime1, v S_prime2)"]
    phigen.busy_for_seen [of n "(v S_prime1, v S_prime2)"] gd.busy_for_seen enc.busy_for_seen
  by (cases j) (simp_all add: units_out_done units_step_def)

lemma unit_settles:
  assumes "unit_seen j (job_result j v S) u" "job_ready j r" "slots r = v"
  shows "unit_last j (job_result j v S) (units_step True r u)"
proof (cases "j \<in> {J_chk1, J_chk2}")
  case True
  then show ?thesis using assms slots_simps [OF assms(3)] chk_settles by (auto simp: units_step_def)
next
  case False
  then show ?thesis using assms(1,2) ngen.held_high phigen.held_high gd.held_high enc.held_high
    by (cases j) (simp_all add: units_step_def)
qed

lemma unit_valid:
  assumes "unit_last j (job_result j v S) u" "\<not> job_ready j r" "slots r = v"
  shows "unit_shows j (job_result j v S) (units_step True r u)"
proof (cases "j \<in> {J_chk1, J_chk2}")
  case True
  then show ?thesis using assms slots_simps [OF assms(3)] chk_valid by (auto simp: units_step_def)
next
  case False
  then show ?thesis using assms(1,2) ngen.held_high phigen.held_high gd.held_high enc.held_high
    by (cases j) (simp_all add: units_step_def)
qed

lemma unit_shows_step:
  assumes "unit_shows j x u" "\<not> job_ready j r"
  shows "unit_shows j x (units_step True r u)"
proof (cases "j \<in> {J_chk1, J_chk2}")
  case True
  have "chk_shows b (prime_checker_sv True False c y)" if "chk_shows b y" for b c y
    using that by (cases "chk_state y") (simp_all add: chk_shows_def chk_simps)
  then show ?thesis using True assms by (auto simp: units_step_def)
next
  case False
  then have "unit_at j (Some x) u" using assms(1) by (cases j) simp_all
  from unit_at_step [OF this assms(2)] show ?thesis using False by (cases j) simp_all
qed

lemma unit_shows_result: "unit_shows j x u \<Longrightarrow> job_value j (units_out u) = x"
  using ngen.held_out phigen.held_out gd.held_out enc.held_out
  by (cases j) (auto simp: units_out_def chk_shows_def)

lemma unit_shows_at: "unit_shows j x u \<Longrightarrow> unit_at j (Some x) u"
  by (cases j) (auto intro: chk_shows_rest)

lemma unit_at_chk: "j \<in> {J_chk1, J_chk2} \<Longrightarrow> unit_at j y u \<longleftrightarrow> unit_at j z u"
  by auto

section \<open>The seven exchanges meet their contract\<close>

definition before_job :: "job \<Rightarrow> (slot \<Rightarrow> alt_u32) \<Rightarrow> results \<Rightarrow> rsa_units \<Rightarrow> bool" where
  "before_job j v S u \<longleftrightarrow> others j S u \<and> unit_at j None u \<and> job_ok j v S"

definition during_job :: "job \<Rightarrow> (slot \<Rightarrow> alt_u32) \<Rightarrow> results \<Rightarrow> nat \<Rightarrow> rsa_units \<Rightarrow> bool" where
  "during_job j v S n u \<longleftrightarrow> others j S u \<and> unit_busy j v S n u \<and> job_ok j v S"

definition with_result :: "(job \<Rightarrow> alt_u32 \<Rightarrow> rsa_units \<Rightarrow> bool) \<Rightarrow> job \<Rightarrow> (slot \<Rightarrow> alt_u32) \<Rightarrow>
    results \<Rightarrow> rsa_units \<Rightarrow> bool" where
  "with_result P j v S u \<longleftrightarrow> others j S u \<and> P j (job_result j v S) u"

lemma rsa_world_simps [simp]:
  "w_out (rsa_world lag key) = units_out" "w_step (rsa_world lag key) = units_step"
  "w_lag (rsa_world lag key) = lag" "w_key (rsa_world lag key) = key"
  by (simp_all add: rsa_world_def)

lemma lit_calm: "lit j r \<Longrightarrow> job_ready j r" "calm r \<Longrightarrow> \<not> job_ready j r"
  by (auto simp: lit_def calm_jobs)

lemmas job_defs = before_job_def during_job_def with_result_def rsa_world_simps

interpretation jobs: transaction "rsa_world lag key" j v "before_job j v S" "during_job j v S"
    "with_result unit_seen j v S" "with_result unit_last j v S" "with_result unit_shows j v S" "job_result j v S"
  for lag key j v S
proof (unfold_locales, goal_cases)
  case (1 u r)
  then show ?case unfolding job_defs by (meson others_step unit_at_step lit_calm)
next
  case (2 u)
  then show ?case unfolding job_defs by (meson unit_early_only)
next
  case (3 u r)
  then show ?case unfolding job_defs by (meson others_step unit_early lit_calm)
next
  case (4 u)
  then show ?case unfolding job_defs by (meson unit_begins)
next
  case (5 n u r)
  then show ?case unfolding job_defs by (meson others_step unit_runs lit_calm)
next
  case (6 n u r)
  then show ?case unfolding job_defs by (meson others_step unit_finishes lit_calm)
next
  case (7 u r)
  then show ?case unfolding job_defs by (meson others_step unit_settles lit_calm)
next
  case (8 u r)
  then show ?case unfolding job_defs by (meson others_step unit_valid unit_shows_step lit_calm)
next
  case (9 u)
  then show ?case unfolding job_defs by (meson unit_shows_result)
qed

text \<open>From the bank before a job to the bank after it.\<close>

lemma bank_before:
  assumes "bank S u" "job_ok j v S"
  shows "before_job j v S u"
proof -
  have "S j = None \<or> j \<in> {J_chk1, J_chk2}" using assms(2) by (cases j) auto
  then show ?thesis using assms unit_at_chk [of j "S j" u None] by (auto simp: before_job_def bank_others [of S u j])
qed

lemma bank_after:
  "with_result unit_shows j v S u \<Longrightarrow> bank (S(j \<mapsto> job_result j v S)) u"
  unfolding with_result_def bank_others [of _ u j] others_def by (auto intro: unit_shows_at)

end
