(* ===== verification/Key_Values.thy ===== *)
theory Key_Values
  imports Coprocessor
begin

text \<open>
  What the computing units calculate, in integers: the number test of the prime checker, the
  inverse found by \<open>generate_d\<close>, the powers of \<open>rsa_encrypt\<close>.
\<close>

section \<open>Words and integers\<close>

lemma uint_of_int32: "0 \<le> x \<Longrightarrow> x < 2 ^ 32 \<Longrightarrow> uint (word_of_int x :: alt_u32) = x"
  by (simp add: unsigned_of_int take_bit_int_eq_self)

lemma unat_of_int32: "0 \<le> x \<Longrightarrow> x < 2 ^ 32 \<Longrightarrow> unat (word_of_int x :: alt_u32) = nat x"
  using uint_of_int32 [of x] by (simp flip: nat_uint_eq)

lemma sint_of_int32: "0 \<le> x \<Longrightarrow> x < 2 ^ 31 \<Longrightarrow> sint (word_of_int x :: alt_u32) = x"
  by (simp add: signed_of_int signed_take_bit_int_eq_self)

lemma unat_of_neg32: "INT_MIN \<le> x \<Longrightarrow> x < 0 \<Longrightarrow> unat (word_of_int x :: alt_u32) = nat (2 ^ 32 + x)"
proof -
  assume "INT_MIN \<le> x" "x < 0"
  moreover have "(word_of_int (2 ^ 32 + x) :: alt_u32) = word_of_int x"
    by (simp only: word_of_int_eq_iff) (simp add: take_bit_eq_mod)
  ultimately show ?thesis using unat_of_int32 [of "2 ^ 32 + x"] by (simp del: of_int_add)
qed

lemma word_eq_of_int: "uint c = x \<Longrightarrow> c = word_of_int x"
  by (metis word_of_int_uint)

lemma of_int_neq_minus1: "0 \<le> x \<Longrightarrow> x < 2 ^ 31 \<Longrightarrow> (word_of_int x :: alt_u32) \<noteq> - 1"
  using sint_of_int32 [of x] by (auto dest: arg_cong [of _ _ sint])

section \<open>The number test\<close>

definition test_divisors :: "int set" where
  "test_divisors = {3, 5, 7, 11, 13, 17, 19}"

lemma mod_eq_0_word:
  assumes "0 \<le> x" "x < 2 ^ 32" "0 \<le> k" "k < 2 ^ 32"
  shows "(word_of_int x :: alt_u32) mod word_of_int k = 0 \<longleftrightarrow> k dvd x"
proof -
  have "uint ((word_of_int x :: alt_u32) mod word_of_int k) = x mod k"
    using assms by (simp add: uint_mod uint_of_int32)
  then show ?thesis by (simp add: dvd_eq_mod_eq_0 word_uint_eq_iff)
qed

lemma hw_prime_value:
  assumes "0 \<le> x" "x < 2 ^ 32"
  shows "hw_prime (word_of_int x) \<longleftrightarrow> odd x \<and> (x \<in> test_divisors \<or> (\<forall>k\<in>test_divisors. \<not> k dvd x))"
proof -
  have m: "(word_of_int x :: alt_u32) mod numeral k = 0 \<longleftrightarrow> numeral k dvd x" if "(numeral k :: int) < 2 ^ 32" for k
    using mod_eq_0_word [OF assms, of "numeral k"] that by simp
  have e: "(word_of_int x :: alt_u32) = numeral k \<longleftrightarrow> x = numeral k" if "(numeral k :: int) < 2 ^ 32" for k
    using uint_of_int32 [OF assms] uint_of_int32 [of "numeral k"] that
    by (metis of_int_numeral zero_le_numeral)
  have b: "bit (word_of_int x :: alt_u32) 0 \<longleftrightarrow> odd x" by (subst bit_word_of_int_iff) (simp add: bit_0)
  show ?thesis by (simp add: hw_prime_def test_divisors_def m e b)
qed

lemma test_divisors_prime:
  "prime_checker 3 = 1" "prime_checker 5 = 1" "prime_checker 7 = 1" "prime_checker 11 = 1"
  "prime_checker 13 = 1" "prime_checker 17 = 1" "prime_checker 19 = 1"
  by code_simp+

lemma hw_prime_accepts:
  assumes "is_prime (nat x)" "odd x" "x < 2 ^ 32"
  shows "hw_prime (word_of_int x)"
proof -
  have x: "1 < x" using is_prime_gt1 [OF assms(1)] by simp
  have "k = x" if "k \<in> test_divisors" "k dvd x" for k
  proof -
    have k: "1 < k" using that(1) by (auto simp: test_divisors_def)
    then have "nat k dvd nat x" using that(2) x by (simp add: nat_dvd_iff)
    then have "nat k = 1 \<or> nat k = nat x" using assms(1) by (simp add: is_prime_def)
    then show ?thesis using k x by auto
  qed
  then show ?thesis using hw_prime_value [of x] assms x by auto
qed

text \<open>Below the square of the next prime, 23, the divisors suffice: only 1 and 2 are judged wrongly.\<close>

lemma small_divisor:
  assumes "1 < x" "x < 529" "\<not> is_prime (nat x)"
  obtains k where "k \<in> insert 2 test_divisors" "k dvd x"
proof -
  have "\<exists>k. 2 \<le> k \<and> k < x \<and> k dvd x" using no_divisor_is_prime [of x] assms by auto
  then obtain a where a: "2 \<le> a" "a < x" "a dvd x" by blast
  then obtain b where b: "x = a * b" by (elim dvdE)
  have b2: "2 \<le> b"
  proof (rule ccontr)
    assume "\<not> 2 \<le> b"
    then have "a * b \<le> a * 1" using a(1) by (intro mult_left_mono) simp_all
    with a b show False by simp
  qed
  have "\<not> (23 \<le> a \<and> 23 \<le> b)"
  proof
    assume "23 \<le> a \<and> 23 \<le> b"
    then have "23 * 23 \<le> a * b" by (intro mult_mono) auto
    with b assms(2) show False by simp
  qed
  then obtain c where c: "2 \<le> c" "c < 23" "c dvd x" using a b b2 by (metis dvd_triv_right not_le)
  have "2 dvd c \<or> 3 dvd c \<or> c \<in> {5, 7, 11, 13, 17, 19}" using c(1,2) unfolding insert_iff empty_iff by presburger
  then have "\<exists>k \<in> insert 2 test_divisors. k dvd c" unfolding test_divisors_def by auto
  then show thesis using that c(3) dvd_trans by blast
qed

text \<open>
  C10. The number test of the coprocessor accepts every odd prime of 32 bits, and below 529 it
  accepts an odd number only if it is prime or 1; it rejects 2, and accepts 1 and 529.
\<close>

theorem hw_prime_correct:
  "(is_prime (nat x) \<and> odd x \<and> x < 2 ^ 32 \<longrightarrow> hw_prime (word_of_int x)) \<and>
   (1 < y \<and> y < 529 \<and> hw_prime (word_of_int y) \<longrightarrow> is_prime (nat y)) \<and>
   \<not> hw_prime 2 \<and> hw_prime 1 \<and> hw_prime 529"
proof (intro conjI impI)
  show "hw_prime (word_of_int x)" if "is_prime (nat x) \<and> odd x \<and> x < 2 ^ 32"
    using that hw_prime_accepts by blast
  show "is_prime (nat y)" if y: "1 < y \<and> y < 529 \<and> hw_prime (word_of_int y)"
  proof (rule ccontr)
    assume np: "\<not> is_prime (nat y)"
    then obtain k where k: "k \<in> insert 2 test_divisors" "k dvd y" using small_divisor y by blast
    have h: "odd y" "y \<in> test_divisors \<or> (\<forall>k\<in>test_divisors. \<not> k dvd y)"
      using hw_prime_value [of y] y by auto
    then have "y \<in> test_divisors" using k by auto
    then have "prime_checker y = 1" by (auto simp: test_divisors_def intro: test_divisors_prime)
    then show False using np y by (simp add: prime_checker_value split: if_splits)
  qed
qed (simp_all add: hw_prime_def bit_0)

theorem hw_prime_correct_witness: "hw_prime 7 \<and> is_prime 23 \<and> hw_prime 529"
proof -
  have "is_prime 7" using test_divisors_prime(3) by (simp add: prime_checker_value split: if_splits)
  moreover have "hw_prime 23" by (simp add: hw_prime_def bit_0)
  ultimately show ?thesis using hw_prime_correct [of 7 23] by simp
qed

section \<open>The private key\<close>

lemma gd_match_exact:
  assumes "0 < e" "e * int k < 2 ^ 32" "0 < phi" "phi < 2 ^ 32"
  shows "gd_match (word_of_int e, word_of_int phi) k \<longleftrightarrow> int k * e mod phi = 1"
proof -
  have "(word_of_int e :: alt_u32) * of_nat k = word_of_int (e * int k)" by simp
  moreover have "uint (word_of_int (e * int k) mod word_of_int phi :: alt_u32) = e * int k mod phi"
    using assms uint_of_int32 [of "e * int k"] uint_of_int32 [of phi] by (simp add: uint_mod del: of_int_mult)
  ultimately show ?thesis by (simp add: gd_match_def word_uint_eq_iff mult.commute)
qed

lemma gd_value_exact:
  assumes e: "1 < e" "e < phi" "phi * e \<le> INT_MAX" and d: "gen_d e phi = Inr d"
  shows "gd_ok (word_of_int e, word_of_int phi)" "gd_value (word_of_int e, word_of_int phi) = word_of_int d"
    "1 \<le> d" "d < phi"
proof -
  have co: "coprime e phi" using gen_d_inverts [OF e d] mod_inverse_coprime by blast
  obtain d' where d': "gen_d e phi = Inr d'" "1 \<le> d'" "d' < phi" "d' * e mod phi = 1"
      "\<And>k. 1 \<le> k \<Longrightarrow> k < d' \<Longrightarrow> k * e mod phi \<noteq> 1"
    using gen_d_least [OF e co] by blast
  then have [simp]: "d' = d" using d by simp
  have phi: "0 < phi" "phi < 2 ^ 32" "phi \<le> INT_MAX"
  proof -
    have "phi * 1 \<le> phi * e" using e by (intro mult_left_mono) auto
    then have "phi \<le> INT_MAX" using e by linarith
    then show "0 < phi" "phi < 2 ^ 32" "phi \<le> INT_MAX" using e by simp_all
  qed
  have m: "gd_match (word_of_int e, word_of_int phi) k \<longleftrightarrow> int k * e mod phi = 1" if "int k \<le> d" for k
  proof -
    have "e * int k \<le> e * phi" using that d' e by (intro mult_left_mono) auto
    then have "e * int k < 2 ^ 32" using e(3) by (simp add: mult.commute [of phi])
    then show ?thesis using e phi by (intro gd_match_exact) auto
  qed
  show "1 \<le> d" "d < phi" using d' by simp_all
  have match: "gd_match (word_of_int e, word_of_int phi) (nat d)" using m [of "nat d"] d' by simp
  have "nat d < 4294967295" using d' phi by simp
  moreover have "(word_of_int phi :: alt_u32) \<noteq> 0" using uint_of_int32 [of phi] phi by auto
  ultimately show "gd_ok (word_of_int e, word_of_int phi)"
    using match d' unfolding gd_ok_def by (auto intro!: exI [of _ "nat d"])
  have "(LEAST k. 1 \<le> k \<and> gd_match (word_of_int e, word_of_int phi) k) = nat d"
  proof (rule Least_equality)
    show "1 \<le> nat d \<and> gd_match (word_of_int e, word_of_int phi) (nat d)" using match d' by simp
    show "nat d \<le> k" if "1 \<le> k \<and> gd_match (word_of_int e, word_of_int phi) k" for k
    proof (rule ccontr)
      assume "\<not> nat d \<le> k"
      then have "int k < d" by simp
      then show False using m [of k] d'(5) [of "int k"] that by simp
    qed
  qed
  then show "gd_value (word_of_int e, word_of_int phi) = word_of_int d" using d' by (simp add: gd_value_def)
qed

section \<open>The messages\<close>

lemma enc_value_power:
  assumes "0 \<le> m" "m < n" "n \<le> 46341"
  shows "enc_value (word_of_int m, e, word_of_int n) = word_of_int (m ^ max 1 (unat e) mod n)"
    "enc_ok (word_of_int m, e, word_of_int n)"
proof -
  have u: "unat (word_of_int m :: alt_u32) = nat m" "unat (word_of_int n :: alt_u32) = nat n"
    using assms by (simp_all add: unat_of_int32)
  have nz: "(word_of_int n :: alt_u32) \<noteq> 0" using u assms by auto
  have "n * m \<le> 46341 * 46341" using assms by (intro mult_mono) auto
  then have "nat (n * m) < 2 ^ 32" by simp
  then have "nat n * nat m < 2 ^ 32" using assms by (simp add: nat_mult_distrib)
  then have "unat (enc_value (word_of_int m, e, word_of_int n)) = nat m ^ max 1 (unat e) mod nat n"
    using enc_value_exact [OF nz, of "word_of_int m" e] u by simp
  also have "\<dots> = nat (m ^ max 1 (unat e) mod n)" using assms by (simp add: nat_mod_distrib nat_power_eq)
  finally have "uint (enc_value (word_of_int m, e, word_of_int n)) = m ^ max 1 (unat e) mod n"
    using assms by (simp add: uint_nat)
  then show "enc_value (word_of_int m, e, word_of_int n) = word_of_int (m ^ max 1 (unat e) mod n)"
    by (rule word_eq_of_int)
  show "enc_ok (word_of_int m, e, word_of_int n)"
    using nz of_int_neq_minus1 [of m] assms by (simp add: enc_ok_def)
qed

lemma enc_value_int:
  assumes "0 \<le> m" "m < n" "n \<le> 46341" "1 \<le> e" "e \<le> INT_MAX"
  shows "enc_value (word_of_int m, word_of_int e, word_of_int n) = word_of_int (m ^ nat e mod n)"
    "enc_ok (word_of_int m, word_of_int e, word_of_int n)"
proof -
  have "max 1 (unat (word_of_int e :: alt_u32)) = nat e" using assms by (simp add: unat_of_int32)
  then show "enc_value (word_of_int m, word_of_int e, word_of_int n) = word_of_int (m ^ nat e mod n)"
    using enc_value_power(1) [OF assms(1-3), of "word_of_int e"] by simp
qed (rule enc_value_power(2) [OF assms(1-3)])

text \<open>
  The software finds no key for an exponent below 1 (its remainders are never positive then),
  and for 1 it finds 0, where the unit finds 1.
\<close>

lemma c_rem_nonpos:
  assumes "c_rem x phi = Inr s" "x \<le> 0"
  shows "s \<le> 0"
proof -
  have "phi \<noteq> 0" "s = x smod phi" using assms(1) by (auto simp: c_rem_def split: if_splits)
  then show ?thesis using assms(2) smod_int_compares(4,7) [of x phi] by (cases "0 < phi") auto
qed

lemma gen_d_loop_nonpos: "e \<le> 0 \<Longrightarrow> 1 \<le> d \<Longrightarrow> s \<le> 0 \<Longrightarrow> gen_d_loop e phi d s \<noteq> Inr r"
proof (induction e phi d s rule: gen_d_loop.induct)
  case (1 e phi d s)
  show ?case
  proof
    assume "gen_d_loop e phi d s = Inr r"
    then obtain x s' d' where x: "c_mul d e = Inr x" "c_rem x phi = Inr s'" "c_add d 1 = Inr d'"
        "gen_d_loop e phi d' s' = Inr r"
      using "1.prems"(3) by (subst (asm) gen_d_loop.simps) (auto simp: res_bind_eq_Inr)
    have "d * e \<le> 0" using "1.prems" by (simp add: mult_nonneg_nonpos)
    then have "x \<le> 0" "d' = d + 1" using x by (simp_all add: c_mul_def c_add_def c_int_eq_Inr)
    moreover from this have "s' \<le> 0" using c_rem_nonpos [OF x(2)] by simp
    ultimately show False using "1.IH" [OF _ x(1-3)] "1.prems" x(4) by simp
  qed
qed

lemma gen_d_positive:
  assumes "gen_d e phi = Inr d"
  shows "1 \<le> e"
proof (rule ccontr)
  assume "\<not> 1 \<le> e"
  then have e: "e \<le> 0" by simp
  obtain x s where x: "c_mul 1 e = Inr x" "c_rem x phi = Inr s" "gen_d_loop e phi 1 s = Inr d"
    using assms by (auto simp: gen_d_def res_bind_eq_Inr)
  then have "x \<le> 0" using e by (simp add: c_mul_def c_int_eq_Inr)
  then have "s \<le> 0" using c_rem_nonpos [OF x(2)] by simp
  then show False using gen_d_loop_nonpos [OF e] x(3) by fastforce
qed

lemma gen_d_one: "1 < phi \<Longrightarrow> gen_d 1 phi = Inr 0"
  by (simp add: gen_d_def c_mul_def c_int_def int_ok_def c_simps gen_d_loop.simps [of _ _ _ 1] c_sub_def)

lemma gd_one:
  assumes "1 < phi" "phi \<le> INT_MAX"
  shows "gd_ok (1, word_of_int phi)" "gd_value (1, word_of_int phi) = 1"
proof -
  have m: "gd_match (1, word_of_int phi) 1"
    using gd_match_exact [of 1 1 phi] assms by simp
  then show "gd_ok (1, word_of_int phi)"
    using uint_of_int32 [of phi] assms by (auto simp: gd_ok_def intro!: exI [of _ "1 :: nat"])
  have "(LEAST k. 1 \<le> k \<and> gd_match (1, word_of_int phi) k) = 1" using m by (intro Least_equality) auto
  then show "gd_value (1, word_of_int phi) = 1" by (simp add: gd_value_def)
qed

end
