(* ===== verification/Exchange.thy ===== *)
theory Exchange
  imports Coprocessor
begin

text \<open>
  One exchange of the driver as a whole: the statements that start a unit, wait for it and fetch
  its result, first under the contract of \<open>transaction\<close>, then on the real coprocessor.
\<close>

section \<open>One exchange of the driver\<close>

definition says :: "string list \<Rightarrow> 'u stmt list" where
  "says ts = map (\<lambda>t. say t (\<lambda>_. [])) ts"

definition said :: "string list \<Rightarrow> printed list" where
  "said ts = map (\<lambda>t. (t, [])) ts"

lemma triple_says:
  "''to_sw_sig is %d'' \<notin> set ts \<Longrightarrow>
   triple (at sig port P (k, o', l)) (seq (says ts)) (at sig port P (k, o' @ said ts, l))"
proof (induction ts arbitrary: o')
  case Nil
  then show ?case by (simp add: says_def said_def triple_def)
next
  case (Cons t ts)
  have "triple (at sig port P (k, o' @ [(t, [])], l)) (seq (says ts))
      (at sig port P (k, o' @ said (t # ts), l))"
    using Cons.IH [of "o' @ [(t, [])]"] Cons.prems by (simp add: said_def)
  from triple_seq_Cons [OF triple_say this [folded append.simps]] show ?case
    using Cons.prems unfolding says_def list.map by (auto simp del: seq.simps)
qed

text \<open>
  The common end of every exchange: the driver reads the result, says so and waits until the
  hardware is ready for the next command.
\<close>

definition fetch_stmts :: "'u world \<Rightarrow> (int \<Rightarrow> locals \<Rightarrow> locals) \<Rightarrow> 'u stmt list" where
  "fetch_stmts w upd = [fetch w upd, put_sig w 2, await w 0, put_sig w 8, await w 7]"

definition ask_stmts :: "'u world \<Rightarrow> 'u stmt list" where
  "ask_stmts w = [put_sig w 1, await w 1]"

context transaction
begin

lemma triple_ask:
  assumes "key_up w" "sig \<noteq> 1"
  shows "triple (at sig port got y) (seq (ask_stmts w)) (at 1 port shown y)"
proof -
  have "stable w sig port (spot (job_get j) 2 False j v E)" using stable_got_valid assms(2) .
  then have "triple (at sig port got y) (put_sig w 1) (at 1 port (spot (job_get j) 2 False j v E) y)"
    using tick_got [OF _ assms(2)] by (intro triple_put_sig_on [OF assms(1)]) simp_all
  then show ?thesis unfolding ask_stmts_def
    by (rule triple_seq_Cons [OF _ triple_seq_Cons [OF triple_await [OF assms(1) leads_shown] triple_seq_Nil]])
qed

lemma triple_fetch_stmts:
  assumes "key_up w"
  shows "triple (at 1 port shown (k, o', l)) (seq (fetch_stmts w upd))
    (at 8 port (spot WAIT 7 False j v E) (k, o', upd (sint x) l))"
proof -
  let ?y = "(k, o', upd (sint x) l)"
  have "triple (at 1 port shown (k, o', l)) (fetch w upd) (at 1 port shown ?y)"
    using stable_shown [of 1] by (intro triple_fetch [OF assms]) (simp_all add: shown_def)
  moreover have "triple (at 1 port shown ?y) (put_sig w 2) (at 2 port shown ?y)"
    using stable_shown [of 1] by (intro triple_put_sig [OF assms]) simp
  moreover note triple_await [OF assms leads_ack]
  moreover have "triple (at 2 port (spot (job_ack j) 0 False j v E) ?y) (put_sig w 8)
      (at 8 port (spot (job_ack j) 0 False j v E) ?y)"
    using stable_ack [of 2] by (intro triple_put_sig [OF assms]) simp
  moreover note triple_await [OF assms leads_wait]
  ultimately show ?thesis unfolding fetch_stmts_def
    by (rule triple_seq_Cons [OF _ triple_seq_Cons [OF _ triple_seq_Cons [OF _ triple_seq_Cons [OF _
          triple_seq_Cons [OF _ triple_seq_Nil]]]]])
qed

text \<open>The units that start with the command, and those that wait for a second one.\<close>

lemma triple_now:
  assumes key: "key_up w" and s: "starts j (job_cmd j)"
    and t: "''to_sw_sig is %d'' \<notin> set a" "''to_sw_sig is %d'' \<notin> set b"
  shows "triple (at 8 port (spot WAIT 7 False j v A) (k, o', l))
    (seq (put_sig w (job_cmd j) # says a @ await w 2 # ask_stmts w @ says b @ fetch_stmts w upd))
    (at 8 port (spot WAIT 7 False j v E) (k, o' @ said a @ said b, upd (sint x) l))"
proof -
  let ?o = "o' @ said a"
  note triple_put_sig [OF key stable_before, of port "(k, o', l)" "job_cmd j"]
  moreover note triple_says [OF t(1), of "job_cmd j" port "spot WAIT 7 False j v A" k o' l]
  moreover note triple_await [OF key leads_got [OF s], of port "(k, ?o, l)"]
  moreover note triple_ask [OF key cmd_neq, of port "(k, ?o, l)"]
  moreover note triple_says [OF t(2), of 1 port shown k ?o l]
  moreover note triple_fetch_stmts [OF key, of port k "?o @ said b" l upd]
  ultimately show ?thesis unfolding append_assoc
    by (rule triple_seq_Cons [OF _ triple_seq_append [OF _ triple_seq_Cons [OF _ triple_seq_append [OF _
          triple_seq_append [OF _ ]]]]])
qed

lemma triple_later:
  assumes key: "key_up w" and s: "\<not> starts j (job_cmd j)" and b: "''to_sw_sig is %d'' \<notin> set b"
    and c: "c \<in> {await w 3, await_echo w 3}"
  shows "triple (at 8 port (spot WAIT 7 False j v A) (k, o', l))
    (seq (put_sig w (job_cmd j) # c # put_sig w 5 # await w 2 # says b @ ask_stmts w @ fetch_stmts w upd))
    (at 8 port (spot WAIT 7 False j v E) (k, o' @ said b, upd (sint x) l))"
proof -
  let ?S = "spot (job_send j) 3 False j v A"
  note triple_put_sig [OF key stable_before, of port "(k, o', l)" "job_cmd j"]
  moreover have "triple (at (job_cmd j) port (spot WAIT 7 False j v A) (k, o', l)) c
      (at (job_cmd j) port ?S (k, o', l))"
    using c triple_await [OF key leads_sending [OF s]] triple_await_echo [OF key leads_sending [OF s]] by blast
  moreover have "stable w (job_cmd j) port ?S" unfolding stable_def using tick_sending [OF s] by blast
  then have "triple (at (job_cmd j) port ?S (k, o', l)) (put_sig w 5) (at 5 port ?S (k, o', l))"
    by (rule triple_put_sig [OF key])
  moreover note triple_await [OF key leads_got5, of port "(k, o', l)"]
  moreover note triple_says [OF b, of 5 port got k o' l]
  moreover have "triple (at 5 port got (k, o' @ said b, l)) (seq (ask_stmts w)) (at 1 port shown (k, o' @ said b, l))"
    by (rule triple_ask [OF key]) simp
  moreover note triple_fetch_stmts [OF key, of port k "o' @ said b" l upd]
  ultimately show ?thesis
    by (rule triple_seq_Cons [OF _ triple_seq_Cons [OF _ triple_seq_Cons [OF _ triple_seq_Cons [OF _
          triple_seq_append [OF _ triple_seq_append]]]]])
qed

end

section \<open>The exchanges on the coprocessor\<close>

text \<open>The driver and the hardware between two exchanges: the port keeps the last number sent.\<close>

definition idle_at :: "(slot \<Rightarrow> alt_u32) \<Rightarrow> results \<Rightarrow> int list \<times> printed list \<times> locals \<Rightarrow> rsa_units soc \<Rightarrow> bool" where
  "idle_at v S y s \<longleftrightarrow> at 8 (to_hw_port s) (region WAIT 7 v (bank S)) y s"

lemma triple_idle:
  assumes "\<And>port. \<exists>port'. triple (at 8 port (region WAIT 7 v (bank S)) y) c (at 8 port' (region WAIT 7 v' (bank S')) y')"
  shows "triple (idle_at v S y) c (idle_at v' S' y')"
  using assms unfolding triple_def idle_at_def by (metis (lifting) at_def)

lemma at_bank_before:
  "job_ok j v S \<Longrightarrow> at 8 port (region WAIT 7 v (bank S)) y s \<Longrightarrow>
   at 8 port (spot WAIT 7 False j v (before_job j v S)) y s"
  unfolding spot_wait by (auto simp: at_def region_def bank_before)

lemma at_bank_after:
  "at 8 port (spot WAIT 7 False j v (with_result unit_shows j v S)) y s \<Longrightarrow>
   at 8 port (region WAIT 7 v (bank (S(j \<mapsto> job_result j v S)))) y s"
  unfolding spot_wait by (auto simp: at_def region_def bank_after)

lemma quiet_bank: "quiet (rsa_world lag key) (bank S)"
  by (simp add: quiet_def bank_step)

lemma session_send:
  assumes "key_up (rsa_world lag key)"
  shows "triple (idle_at v S (k, o', l)) (seq (send_stmts (rsa_world lag key) s f))
     (idle_at (v(s := word_of_int (f l))) S (k, o', l))"
  by (rule triple_idle) (blast intro: triple_send [OF assms quiet_bank])

lemma session_now:
  assumes "key_up (rsa_world lag key)" "job_ok j v S" "starts j (job_cmd j)"
    "''to_sw_sig is %d'' \<notin> set a" "''to_sw_sig is %d'' \<notin> set b"
  defines "w \<equiv> rsa_world lag key"
  shows "triple (idle_at v S (k, o', l))
    (seq (put_sig w (job_cmd j) # says a @ await w 2 # ask_stmts w @ says b @ fetch_stmts w upd))
    (idle_at v (S(j \<mapsto> job_result j v S)) (k, o' @ said a @ said b, upd (sint (job_result j v S)) l))"
  using triple_conseq [OF jobs.triple_now [OF assms(1,3-5)] at_bank_before [OF assms(2)] at_bank_after]
  unfolding w_def by (intro triple_idle exI)

lemma session_later:
  assumes "key_up (rsa_world lag key)" "job_ok j v S" "\<not> starts j (job_cmd j)" "''to_sw_sig is %d'' \<notin> set b"
  defines "w \<equiv> rsa_world lag key"
  assumes "c \<in> {await w 3, await_echo w 3}"
  shows "triple (idle_at v S (k, o', l))
    (seq (put_sig w (job_cmd j) # c # put_sig w 5 # await w 2 # says b @ ask_stmts w @ fetch_stmts w upd))
    (idle_at v (S(j \<mapsto> job_result j v S)) (k, o' @ said b, upd (sint (job_result j v S)) l))"
  using triple_conseq [OF jobs.triple_later [OF assms(1,3,4) assms(6) [unfolded w_def]]
      at_bank_before [OF assms(2)] at_bank_after]
  unfolding w_def by (intro triple_idle exI)

end
