(* ===== verification/Hw_Session.thy ===== *)
theory Hw_Session
  imports Exchange Key_Values
begin

text \<open>
  The whole session of \<open>hardware_encrypt\<close> on the real coprocessor, part by part, from the
  exchanges it is made of.
\<close>

section \<open>Statements between two exchanges\<close>

lemma idle_say:
  "fmt \<noteq> ''to_sw_sig is %d'' \<Longrightarrow>
   triple (idle_at v S (k, o', l)) (say fmt args) (idle_at v S (k, o' @ [(fmt, args l)], l))"
  by (rule triple_idle) (blast intro: triple_say)

lemma idle_scan: "triple (idle_at v S (x # k, o', l)) (scan upd) (idle_at v S (k, o', upd x l))"
  by (rule triple_idle) (blast intro: triple_scan)

lemma idle_assign: "triple (idle_at v S (k, o', l)) (assign upd) (idle_at v S (k, o', upd l))"
  by (rule triple_idle) (blast intro: triple_assign)

lemma idle_loc: "idle_at v S (k, o', l) s \<Longrightarrow> loc s = l"
  by (auto simp: idle_at_def at_def rest_def)

lemma idle_if:
  "triple (idle_at v S (k, o', l)) (if b l then c else d) Q \<Longrightarrow>
   triple (idle_at v S (k, o', l)) (if_stmt b c d) Q"
  unfolding triple_def if_stmt_def by (cases "b l") (auto dest: idle_loc)

lemma idle_while_end: "\<not> b l \<Longrightarrow> triple (idle_at v S (k, o', l)) (while_stmt b c) (idle_at v S (k, o', l))"
  unfolding triple_def by (auto dest: idle_loc simp: while_stmt.simps)

lemma idle_while_turn:
  assumes "b l" "triple (idle_at v S (k, o', l)) c R" "triple R (while_stmt b c) Q"
  shows "triple (idle_at v S (k, o', l)) (while_stmt b c) Q"
  unfolding triple_def
proof (intro allI impI)
  fix s assume s: "idle_at v S (k, o', l) s"
  then obtain s1 where "c s = Some (Inr s1)" "R s1" using assms(2) unfolding triple_def by blast
  moreover obtain s' where "while_stmt b c s1 = Some (Inr s')" "Q s'"
    using assms(3) calculation(2) unfolding triple_def by blast
  ultimately show "\<exists>s'. while_stmt b c s = Some (Inr s') \<and> Q s'"
    using assms(1) idle_loc [OF s] by (simp add: while_stmt.simps [of b c s])
qed

text \<open>
  A question that is repeated until the answer is good: \<open>h\<close> stores an answer in the locals, \<open>g\<close>
  in the number registers.
\<close>

lemma idle_retry:
  assumes turn: "\<And>v k o' l x. J l \<Longrightarrow> b l \<Longrightarrow> triple (idle_at v S (x # k, o', l)) c (idle_at (g x v) S (k, o' @ out x, h x l))"
    and b: "\<And>x l. b (h x l) \<longleftrightarrow> \<not> good x" and J: "\<And>x l. J l \<Longrightarrow> J (h x l)"
    and last: "\<And>x y l. h x (h y l) = h x l" "\<And>x y v. g x (g y v) = g x v"
    and l: "J l" "b l" and xs: "\<forall>x\<in>set xs. \<not> good x" and p: "good p"
  shows "triple (idle_at v S (xs @ p # k, o', l)) (while_stmt b c)
    (idle_at (g p v) S (k, o' @ concat (map out xs) @ out p, h p l))"
  using l xs
proof (induction xs arbitrary: v o' l)
  case Nil
  have "triple (idle_at (g p v) S (k, o' @ out p, h p l)) (while_stmt b c) (idle_at (g p v) S (k, o' @ out p, h p l))"
    using b p by (intro idle_while_end) simp
  from idle_while_turn [OF Nil.prems(2) turn [OF Nil.prems(1,2)] this] show ?case by simp
next
  case (Cons x xs)
  have "triple (idle_at (g x v) S (xs @ p # k, o' @ out x, h x l)) (while_stmt b c)
      (idle_at (g p v) S (k, o' @ concat (map out (x # xs)) @ out p, h p l))"
    using Cons.IH [of "h x l" "g x v" "o' @ out x"] Cons.prems b J last by simp
  from idle_while_turn [OF Cons.prems(2) turn [OF Cons.prems(1,2)] this] show ?case by simp
qed

section \<open>The primes\<close>

lemma bank_chk: "j \<in> {J_chk1, J_chk2} \<Longrightarrow> bank (S(j := y)) = bank S"
  unfolding bank_def by (intro ext all_cong1) auto

lemma idle_chk: "j \<in> {J_chk1, J_chk2} \<Longrightarrow> idle_at v (S(j := y)) x = idle_at v S x"
  by (intro ext) (simp add: idle_at_def bank_chk del: insert_iff)

lemma sint_of_bool [simp]: "sint (of_bool b :: alt_u32) = of_bool b"
  by (cases b) simp_all

definition bad_number :: "alt_u32 \<Rightarrow> printed list" where
  "bad_number x = (if hw_prime x then [] else said [''The number you entered is not a prime!!!''])"

definition ask1 :: "int \<Rightarrow> printed list" where
  "ask1 x = said [''Please enter the first prime number'', ''Transmitting the first prime number....''] @
     bad_number (word_of_int x)"

definition ask2 :: "int \<Rightarrow> printed list" where
  "ask2 x = said [''Please enter the second prime number''] @ bad_number (word_of_int x)"

lemma idle_judge:
  assumes "\<And>l. bad l \<longleftrightarrow> \<not> P l"
  shows "triple (idle_at v S (k, o', l))
    (if_stmt bad (say ''The number you entered is not a prime!!!'' (\<lambda>l. [])) (seq []))
    (idle_at v S (k, o' @ (if P l then [] else said [''The number you entered is not a prime!!!'']), l))"
  using idle_say [of "''The number you entered is not a prime!!!''" v S k o' l "\<lambda>_. []"] assms
  by (intro idle_if) (auto simp: said_def triple_def)

lemma idle_end:
  "v = v' \<Longrightarrow> S = S' \<Longrightarrow> k = k' \<Longrightarrow> o' = o'' \<Longrightarrow> l = l' \<Longrightarrow>
   triple (idle_at v S (k, o', l)) (seq []) (idle_at v' S' (k', o'', l'))"
  by (simp add: triple_def)

text \<open>A checker's exchange leaves the results as they are.\<close>

lemma session_check:
  assumes "key_up (rsa_world lag key)" "j \<in> {J_chk1, J_chk2}"
  defines "w \<equiv> rsa_world lag key"
  shows "triple (idle_at v S (k, o', l))
    (seq ([put_sig w (job_cmd j), await w 2, put_sig w 1, await w 1] @ fetch_stmts w upd))
    (idle_at v S (k, o', upd (sint (job_result j v S)) l))"
proof -
  have "job_ok j v S" "starts j (job_cmd j)" using assms(2) by (auto simp: starts_def)
  from session_now [OF assms(1) this, of "[]" "[]" k o' l upd] show ?thesis
    by (simp add: idle_chk [OF assms(2)] w_def says_def said_def ask_stmts_def del: seq.simps)
qed

lemma hw_prime1_turn:
  assumes "key_up (rsa_world lag key)"
  shows "triple (idle_at v S (x # k, o', l)) (hw_prime1_pass (rsa_world lag key))
    (idle_at (v(S_prime1 := word_of_int x)) S
      (k, o' @ ask1 x, l\<lparr>l_p1 := x, l_isprime1 := of_bool (hw_prime (word_of_int x))\<rparr>))"
proof -
  let ?w = "rsa_world lag key"
  have e: "hw_prime1_pass ?w = seq (say ''Please enter the first prime number'' (\<lambda>l. []) #
      scan (\<lambda>x. l_p1_update (\<lambda>_. x)) # say ''Transmitting the first prime number....'' (\<lambda>l. []) #
      send_stmts ?w S_prime1 l_p1 @
      ([put_sig ?w (job_cmd J_chk1), await ?w 2, put_sig ?w 1, await ?w 1] @
        fetch_stmts ?w (\<lambda>x. l_isprime1_update (\<lambda>_. x))) @
      [if_stmt (\<lambda>l. l_isprime1 l = 0) (say ''The number you entered is not a prime!!!'' (\<lambda>l. [])) (seq [])])"
    unfolding hw_prime1_pass_def send_stmts_def fetch_stmts_def by (simp del: seq.simps)
  show ?thesis unfolding e
    by (rule triple_seq_Cons [OF idle_say], simp, rule triple_seq_Cons [OF idle_scan],
        rule triple_seq_Cons [OF idle_say], simp, rule triple_seq_append [OF session_send [OF assms]],
        rule triple_seq_append [OF session_check [OF assms]], simp,
        rule triple_seq_Cons [OF idle_judge [where P = "\<lambda>l. l_isprime1 l \<noteq> 0"]], simp,
        rule idle_end) (simp_all add: ask1_def bad_number_def said_def)
qed

lemma hw_prime2_turn:
  assumes "key_up (rsa_world lag key)"
  shows "triple (idle_at v S (x # k, o', l)) (hw_prime2_pass (rsa_world lag key))
    (idle_at (v(S_prime2 := word_of_int x)) S
      (k, o' @ ask2 x, l\<lparr>l_p2 := x, l_isprime2 := of_bool (hw_prime (word_of_int x))\<rparr>))"
proof -
  let ?w = "rsa_world lag key"
  have e: "hw_prime2_pass ?w = seq (say ''Please enter the second prime number'' (\<lambda>l. []) #
      scan (\<lambda>x. l_p2_update (\<lambda>_. x)) # send_stmts ?w S_prime2 l_p2 @
      ([put_sig ?w (job_cmd J_chk2), await ?w 2, put_sig ?w 1, await ?w 1] @
        fetch_stmts ?w (\<lambda>x. l_isprime2_update (\<lambda>_. x))) @
      [if_stmt (\<lambda>l. l_isprime2 l = 0) (say ''The number you entered is not a prime!!!'' (\<lambda>l. [])) (seq [])])"
    unfolding hw_prime2_pass_def send_stmts_def fetch_stmts_def by (simp del: seq.simps)
  show ?thesis unfolding e
    by (rule triple_seq_Cons [OF idle_say], simp, rule triple_seq_Cons [OF idle_scan],
        rule triple_seq_append [OF session_send [OF assms]],
        rule triple_seq_append [OF session_check [OF assms]], simp,
        rule triple_seq_Cons [OF idle_judge [where P = "\<lambda>l. l_isprime2 l \<noteq> 0"]], simp,
        rule idle_end) (simp_all add: ask2_def bad_number_def said_def)
qed

text \<open>Each prime is asked for until the coprocessor accepts it.\<close>

lemma hw_prime1_works:
  assumes "key_up (rsa_world lag key)" "\<forall>x\<in>set xs. \<not> hw_prime (word_of_int x)" "hw_prime (word_of_int p)"
  shows "triple (idle_at v S (xs @ p # k, o', l)) (hw_prime1 (rsa_world lag key))
    (idle_at (v(S_prime1 := word_of_int p)) S
      (k, o' @ concat (map ask1 xs) @ ask1 p, l\<lparr>l_p1 := p, l_isprime1 := 1\<rparr>))"
  unfolding hw_prime1_def
  by (rule triple_seq_Cons [OF idle_assign], rule triple_seq_Cons [OF idle_retry [where
        g = "\<lambda>x v. v(S_prime1 := word_of_int x)" and good = "\<lambda>x. hw_prime (word_of_int x)" and J = "\<lambda>l. True"
        and h = "\<lambda>x l. l\<lparr>l_p1 := x, l_isprime1 := of_bool (hw_prime (word_of_int x))\<rparr>" and out = ask1]],
      rule hw_prime1_turn [OF assms(1)]) (use assms in \<open>auto intro: idle_end simp del: seq.simps\<close>)

lemma hw_prime2_works:
  assumes "key_up (rsa_world lag key)" "\<forall>x\<in>set xs. \<not> hw_prime (word_of_int x)" "hw_prime (word_of_int p)"
  shows "triple (idle_at v S (xs @ p # k, o', l)) (hw_prime2 (rsa_world lag key))
    (idle_at (v(S_prime2 := word_of_int p)) S
      (k, o' @ concat (map ask2 xs) @ ask2 p, l\<lparr>l_p2 := p, l_isprime2 := 1\<rparr>))"
  unfolding hw_prime2_def
  by (rule triple_seq_Cons [OF idle_assign], rule triple_seq_Cons [OF idle_retry [where
        g = "\<lambda>x v. v(S_prime2 := word_of_int x)" and good = "\<lambda>x. hw_prime (word_of_int x)" and J = "\<lambda>l. True"
        and h = "\<lambda>x l. l\<lparr>l_p2 := x, l_isprime2 := of_bool (hw_prime (word_of_int x))\<rparr>" and out = ask2]],
      rule hw_prime2_turn [OF assms(1)]) (use assms in \<open>auto intro: idle_end simp del: seq.simps\<close>)

section \<open>The keys\<close>

text \<open>The job succeeds with a number that the driver reads without loss.\<close>

definition gives :: "job \<Rightarrow> (slot \<Rightarrow> alt_u32) \<Rightarrow> results \<Rightarrow> int \<Rightarrow> bool" where
  "gives j v S x \<longleftrightarrow> job_ok j v S \<and> job_result j v S = word_of_int x \<and> sint (word_of_int x :: alt_u32) = x"

lemma givesD: "gives j v S x \<Longrightarrow> job_ok j v S" "gives j v S x \<Longrightarrow> job_result j v S = word_of_int x"
  "gives j v S x \<Longrightarrow> sint (word_of_int x :: alt_u32) = x"
  by (simp_all add: gives_def)

lemma hw_get_n_works:
  assumes "key_up (rsa_world lag key)" "gives J_n v S n"
  shows "triple (idle_at v S (k, o', l)) (hw_get_n (rsa_world lag key))
    (idle_at v (S(J_n \<mapsto> word_of_int n))
      (k, o' @ said [''At state send_to_rsa_n'', ''Got to send back n''] @ [(''Generated n is %d'', [n])],
       l\<lparr>l_n := n\<rparr>))"
proof -
  let ?w = "rsa_world lag key"
  have e: "hw_get_n ?w = seq ((put_sig ?w (job_cmd J_n) # says [''At state send_to_rsa_n''] @ await ?w 2 #
      ask_stmts ?w @ says [''Got to send back n''] @ fetch_stmts ?w (\<lambda>x. l_n_update (\<lambda>_. x))) @
      [say ''Generated n is %d'' (\<lambda>l. [l_n l])])"
    unfolding hw_get_n_def ask_stmts_def fetch_stmts_def says_def by (simp del: seq.simps)
  show ?thesis unfolding e
    by (rule triple_seq_append [OF session_now [OF assms(1) givesD(1) [OF assms(2)]]], simp add: starts_def, simp, simp,
        rule triple_seq_Cons [OF idle_say], simp, rule idle_end) (simp_all add: said_def givesD [OF assms(2)] del: job_result.simps)
qed

lemma hw_get_phi_works:
  assumes "key_up (rsa_world lag key)" "gives J_phi v S n"
  shows "triple (idle_at v S (k, o', l)) (hw_get_phi (rsa_world lag key))
    (idle_at v (S(J_phi \<mapsto> word_of_int n))
      (k, o' @ said [''At state send_to_rsa_phi'', ''Got to send back phi''] @ [(''Generated phi is %d'', [n])],
       l\<lparr>l_phi := n\<rparr>))"
proof -
  let ?w = "rsa_world lag key"
  have e: "hw_get_phi ?w = seq ((put_sig ?w (job_cmd J_phi) # says [''At state send_to_rsa_phi''] @ await ?w 2 #
      ask_stmts ?w @ says [''Got to send back phi''] @ fetch_stmts ?w (\<lambda>x. l_phi_update (\<lambda>_. x))) @
      [say ''Generated phi is %d'' (\<lambda>l. [l_phi l])])"
    unfolding hw_get_phi_def ask_stmts_def fetch_stmts_def says_def by (simp del: seq.simps)
  show ?thesis unfolding e
    by (rule triple_seq_append [OF session_now [OF assms(1) givesD(1) [OF assms(2)]]], simp add: starts_def, simp, simp,
        rule triple_seq_Cons [OF idle_say], simp, rule idle_end) (simp_all add: said_def givesD [OF assms(2)] del: job_result.simps)
qed

definition ask_e :: "int \<Rightarrow> int \<Rightarrow> printed list" where
  "ask_e phi x = [(''Please enter a prime number that is between 1 and %d for public key (e)'', [phi])] @
     (if e_checker x phi = 0 then said [''Your number for e is invalid''] else [])"

lemma hw_ask_e_turn:
  assumes "l_phi l = phi"
  shows "triple (idle_at v S (x # k, o', l)) hw_ask_e_pass
    (idle_at v S (k, o' @ ask_e phi x, l\<lparr>l_pk := x, l_e_bool := e_checker x phi\<rparr>))"
proof -
  have "triple (idle_at v S (k, o'', l')) (if_stmt (\<lambda>l. l_e_bool l = 0) (say ''Your number for e is invalid'' (\<lambda>l. [])) (seq []))
     (idle_at v S (k, o'' @ (if l_e_bool l' = 0 then said [''Your number for e is invalid''] else []), l'))" for o'' l'
    using idle_say [of "''Your number for e is invalid''" v S k o'' l' "\<lambda>_. []"]
    by (intro idle_if) (auto simp: said_def triple_def)
  note judge = this
  show ?thesis unfolding hw_ask_e_pass_def
    by (rule triple_seq_Cons [OF idle_say], simp, rule triple_seq_Cons [OF idle_scan],
        rule triple_seq_Cons [OF idle_assign], rule triple_seq_Cons [OF judge], rule idle_end)
      (simp_all add: ask_e_def assms)
qed

lemma hw_ask_e_works:
  assumes "l_phi l = phi" "\<forall>x\<in>set xs. e_checker x phi = 0" "e_checker e phi \<noteq> 0"
  shows "triple (idle_at v S (xs @ e # k, o', l)) hw_ask_e
    (idle_at v S (k, o' @ concat (map (ask_e phi) xs) @ ask_e phi e, l\<lparr>l_pk := e, l_e_bool := e_checker e phi\<rparr>))"
  unfolding hw_ask_e_def
  by (rule triple_seq_Cons [OF idle_assign], rule triple_seq_Cons [OF idle_retry [where
        g = "\<lambda>x v. v" and good = "\<lambda>x. e_checker x phi \<noteq> 0" and J = "\<lambda>l. l_phi l = phi"
        and h = "\<lambda>x l. l\<lparr>l_pk := x, l_e_bool := e_checker x phi\<rparr>" and out = "ask_e phi"]],
      rule hw_ask_e_turn) (use assms in \<open>auto intro: idle_end simp del: seq.simps\<close>)

lemma hw_send_e_works:
  assumes "key_up (rsa_world lag key)" "l_pk l = e"
  shows "triple (idle_at v S (k, o', l)) (hw_send_e (rsa_world lag key))
    (idle_at (v(S_e := word_of_int e)) S (k, o', l))"
  using session_send [OF assms(1), of v S k o' l S_e l_pk] assms(2)
  by (simp add: hw_send_e_def send_stmts_def del: seq.simps)

lemma hw_get_d_works:
  assumes "key_up (rsa_world lag key)" "gives J_d v S d"
  shows "triple (idle_at v S (k, o', l)) (hw_get_d (rsa_world lag key))
    (idle_at v (S(J_d \<mapsto> word_of_int d))
      (k, o' @ said [''Generating private key...'', ''Retrieving private key''] @ [(''The private key is %d'', [d])],
       l\<lparr>l_d := d\<rparr>))"
proof -
  let ?w = "rsa_world lag key"
  have e: "hw_get_d ?w = seq (say ''Generating private key...'' (\<lambda>l. []) #
      (put_sig ?w (job_cmd J_d) # await ?w 3 # put_sig ?w 5 # await ?w 2 # says [''Retrieving private key''] @
       ask_stmts ?w @ fetch_stmts ?w (\<lambda>x. l_d_update (\<lambda>_. x))) @ [say ''The private key is %d'' (\<lambda>l. [l_d l])])"
    unfolding hw_get_d_def ask_stmts_def fetch_stmts_def says_def by (simp del: seq.simps)
  show ?thesis unfolding e
    by (rule triple_seq_Cons [OF idle_say], simp, rule triple_seq_append [OF session_later [OF assms(1) givesD(1) [OF assms(2)]]],
        simp add: starts_def, simp, simp, rule triple_seq_Cons [OF idle_say], simp, rule idle_end)
      (simp_all add: said_def givesD [OF assms(2)] del: job_result.simps)
qed

section \<open>The messages\<close>

lemma hw_send_plaintext_works:
  assumes "key_up (rsa_world lag key)"
  shows "triple (idle_at v S (m # k, o', l)) (hw_send_plaintext (rsa_world lag key))
    (idle_at (v(S_plaintext := word_of_int m)) S (k, o' @ said [''Please enter the plain text''], l\<lparr>l_pt := m\<rparr>))"
proof -
  let ?w = "rsa_world lag key"
  have e: "hw_send_plaintext ?w = seq (say ''Please enter the plain text'' (\<lambda>l. []) #
      scan (\<lambda>x. l_pt_update (\<lambda>_. x)) # send_stmts ?w S_plaintext l_pt @ [])"
    unfolding hw_send_plaintext_def send_stmts_def by (simp del: seq.simps)
  show ?thesis unfolding e
    by (rule triple_seq_Cons [OF idle_say], simp, rule triple_seq_Cons [OF idle_scan],
        rule triple_seq_append [OF session_send [OF assms]], rule idle_end) (simp_all add: said_def)
qed

lemma hw_get_ciphertext_works:
  assumes "key_up (rsa_world lag key)" "gives J_enc v S c"
  shows "triple (idle_at v S (k, o', l)) (hw_get_ciphertext (rsa_world lag key))
    (idle_at v (S(J_enc \<mapsto> word_of_int c))
      (k, o' @ said [''Encrypting...'', ''Retrieving Ciphertext''] @ [(''The encrypted message is %d'', [c])] @
         said [''RSA Encryption is done!''], l\<lparr>l_ct := c\<rparr>))"
proof -
  let ?w = "rsa_world lag key"
  have e: "hw_get_ciphertext ?w = seq (say ''Encrypting...'' (\<lambda>l. []) #
      (put_sig ?w (job_cmd J_enc) # await_echo ?w 3 # put_sig ?w 5 # await ?w 2 # says [''Retrieving Ciphertext''] @
       ask_stmts ?w @ fetch_stmts ?w (\<lambda>x. l_ct_update (\<lambda>_. x))) @
      [say ''The encrypted message is %d'' (\<lambda>l. [l_ct l]), say ''RSA Encryption is done!'' (\<lambda>l. [])])"
    unfolding hw_get_ciphertext_def ask_stmts_def fetch_stmts_def says_def by (simp del: seq.simps)
  show ?thesis unfolding e
    by (rule triple_seq_Cons [OF idle_say], simp, rule triple_seq_append [OF session_later [OF assms(1) givesD(1) [OF assms(2)]]],
        simp add: starts_def, simp, simp, rule triple_seq_Cons [OF idle_say], simp,
        rule triple_seq_Cons [OF idle_say], simp, rule idle_end)
      (simp_all add: said_def givesD [OF assms(2)] del: job_result.simps)
qed

lemma hw_get_decrypted_works:
  assumes "key_up (rsa_world lag key)" "gives J_dec v S m"
  shows "triple (idle_at v S (k, o', l)) (hw_get_decrypted (rsa_world lag key))
    (idle_at v (S(J_dec \<mapsto> word_of_int m))
      (k, o' @ said [''Decrypting...'', ''Retrieving Plaintext''] @ [(''The decrypted message is %d'', [m])] @
         said [''Decryption is done''], l\<lparr>l_new_pt := m\<rparr>))"
proof -
  let ?w = "rsa_world lag key"
  have e: "hw_get_decrypted ?w = seq (say ''Decrypting...'' (\<lambda>l. []) #
      (put_sig ?w (job_cmd J_dec) # await_echo ?w 3 # put_sig ?w 5 # await ?w 2 # says [''Retrieving Plaintext''] @
       ask_stmts ?w @ fetch_stmts ?w (\<lambda>x. l_new_pt_update (\<lambda>_. x))) @
      [say ''The decrypted message is %d'' (\<lambda>l. [l_new_pt l]), say ''Decryption is done'' (\<lambda>l. [])])"
    unfolding hw_get_decrypted_def ask_stmts_def fetch_stmts_def says_def by (simp del: seq.simps)
  show ?thesis unfolding e
    by (rule triple_seq_Cons [OF idle_say], simp, rule triple_seq_append [OF session_later [OF assms(1) givesD(1) [OF assms(2)]]],
        simp add: starts_def, simp, simp, rule triple_seq_Cons [OF idle_say], simp,
        rule triple_seq_Cons [OF idle_say], simp, rule idle_end)
      (simp_all add: said_def givesD [OF assms(2)] del: job_result.simps)
qed

section \<open>The whole session\<close>

text \<open>What the session shows, apart from the echoed answers; the rejected entries are \<open>xs\<close>, \<open>ys\<close> and \<open>zs\<close>.\<close>

definition hw_transcript :: "int list \<Rightarrow> int \<Rightarrow> int list \<Rightarrow> int \<Rightarrow> int list \<Rightarrow> int \<Rightarrow> int \<Rightarrow> int \<Rightarrow> int \<Rightarrow> printed list" where
  "hw_transcript xs p ys q zs e d c m =
     said [''RSA Hardware Encryption''] @ concat (map ask1 xs) @ ask1 p @ concat (map ask2 ys) @ ask2 q @
     said [''At state send_to_rsa_n'', ''Got to send back n''] @ [(''Generated n is %d'', [p * q])] @
     said [''At state send_to_rsa_phi'', ''Got to send back phi''] @
     [(''Generated phi is %d'', [(p - 1) * (q - 1)])] @
     concat (map (ask_e ((p - 1) * (q - 1))) zs) @ ask_e ((p - 1) * (q - 1)) e @
     said [''Generating private key...'', ''Retrieving private key''] @ [(''The private key is %d'', [d])] @
     said [''Please enter the plain text'', ''Encrypting...'', ''Retrieving Ciphertext''] @
     [(''The encrypted message is %d'', [c])] @
     said [''RSA Encryption is done!'', ''Decrypting...'', ''Retrieving Plaintext''] @
     [(''The decrypted message is %d'', [m])] @ said [''Decryption is done'']"

text \<open>The seven jobs of the session succeed, and what they show.\<close>

lemma prime_bounds:
  fixes p q :: int
  assumes "2 \<le> p" "2 \<le> q" "p * q \<le> 46341"
  shows "p \<le> 46341" "q \<le> 46341"
proof -
  have "p * 1 \<le> p * q" "1 * q \<le> p * q" using assms by (auto intro: mult_mono)
  then show "p \<le> 46341" "q \<le> 46341" using assms by linarith+
qed

lemma job_n:
  assumes "2 \<le> p" "2 \<le> q" "p * q \<le> 46341" "v S_prime1 = word_of_int p" "v S_prime2 = word_of_int q" "S J_n = None"
  shows "gives J_n v S (p * q)"
  using assms prime_bounds [OF assms(1-3)] of_int_neq_minus1 [of q] sint_of_int32 [of "p * q"] by (simp add: gives_def)

lemma job_phi:
  assumes "2 \<le> p" "2 \<le> q" "p * q \<le> 46341" "v S_prime1 = word_of_int p" "v S_prime2 = word_of_int q" "S J_phi = None"
  shows "gives J_phi v S ((p - 1) * (q - 1))"
proof -
  have "0 \<le> (p - 1) * (q - 1)" "(p - 1) * (q - 1) \<le> p * q" using assms(1,2) by (simp_all add: mult_mono)
  moreover have "(word_of_int q :: alt_u32) \<noteq> 0"
    using uint_of_int32 [of q] prime_bounds [OF assms(1-3)] assms(2) by auto
  ultimately show ?thesis using assms sint_of_int32 [of "(p - 1) * (q - 1)"] by (simp add: gives_def)
qed

lemma job_d:
  assumes "1 < e" "e < phi" "phi * e \<le> INT_MAX" "gen_d e phi = Inr d" "phi \<le> INT_MAX"
    and "v S_e = word_of_int e" "S J_phi = Some (word_of_int phi)" "S J_d = None"
  shows "gives J_d v S d"
  using gd_value_exact [OF assms(1-4)] assms(5-8) sint_of_int32 [of d] by (simp add: gives_def)

lemma job_message:
  assumes "0 \<le> m" "m < n" "n \<le> 46341" "1 \<le> e" "e \<le> INT_MAX" "m ^ nat e mod n = c" "S J_n = Some (word_of_int n)"
  shows "S J_enc = None \<Longrightarrow> v S_plaintext = word_of_int m \<Longrightarrow> v S_e = word_of_int e \<Longrightarrow> gives J_enc v S c"
    "S J_dec = None \<Longrightarrow> S J_enc = Some (word_of_int m) \<Longrightarrow> S J_d = Some (word_of_int e) \<Longrightarrow> gives J_dec v S c"
proof -
  have "0 \<le> c" "c < n" using assms(1,2,6) by auto
  then have "sint (word_of_int c :: alt_u32) = c" using assms(3) by (intro sint_of_int32) simp_all
  then show "S J_enc = None \<Longrightarrow> v S_plaintext = word_of_int m \<Longrightarrow> v S_e = word_of_int e \<Longrightarrow> gives J_enc v S c"
    "S J_dec = None \<Longrightarrow> S J_enc = Some (word_of_int m) \<Longrightarrow> S J_d = Some (word_of_int e) \<Longrightarrow> gives J_dec v S c"
    using enc_value_int [OF assms(1-5)] assms(6,7) by (simp_all add: gives_def)
qed

lemma hardware_encrypt_works:
  assumes key: "key_up (rsa_world lag key)"
    and pq: "is_prime (nat p)" "is_prime (nat q)" "p \<noteq> q" "p * q \<le> 46341" "odd p" "odd q"
    and e: "is_prime (nat e)" "e < (p - 1) * (q - 1)" and d: "gen_d e ((p - 1) * (q - 1)) = Inr d"
    and m: "0 \<le> m" "m < p * q"
    and bad: "\<forall>x\<in>set xs. \<not> hw_prime (word_of_int x)" "\<forall>x\<in>set ys. \<not> hw_prime (word_of_int x)"
      "\<forall>x\<in>set zs. e_checker x ((p - 1) * (q - 1)) = 0"
  shows "\<exists>v S l'. triple (idle_at v0 (\<lambda>_. None) (xs @ p # ys @ q # zs @ e # m # later, o', l))
    (hardware_encrypt (rsa_world lag key))
    (idle_at v S (later, o' @ hw_transcript xs p ys q zs e d (m ^ nat e mod (p * q)) m, l'))"
proof -
  let ?n = "p * q" and ?phi = "(p - 1) * (q - 1)" and ?W = "word_of_int :: int \<Rightarrow> alt_u32"
  define c where "c = m ^ nat e mod ?n"
  have e1: "1 < e" using is_prime_gt1 [OF e(1)] by simp
  note kb = key_bounds [OF pq(1,2,4) e1 e(2)]
  have hp: "hw_prime (?W p)" "hw_prime (?W q)" using pq hw_prime_accepts prime_bounds [OF kb(1,2) pq(4)] by simp_all
  have phi: "?phi \<le> INT_MAX" and c: "0 \<le> c" "c < ?n" using kb pq(4) m by (simp_all add: c_def)
  have bound: "1 \<le> e" "e \<le> INT_MAX" "1 \<le> d" "d \<le> INT_MAX"
    using e1 e(2) phi gd_value_exact(3,4) [OF e1 e(2) kb(4) d] by simp_all
  have undo: "c ^ nat d mod ?n = m"
    using crypt_inverts [OF pq(1-4) e1 e(2) d m] encrypt_small [OF c pq(4), of d] by (simp add: c_def)
  have ec: "e_checker e ?phi \<noteq> 0" using e by (simp add: e_checker_value)
  have "triple (idle_at v0 (\<lambda>_. None) (xs @ p # ys @ q # zs @ e # m # later, o', l))
    (hardware_encrypt (rsa_world lag key))
    (idle_at (v0(S_prime1 := ?W p, S_prime2 := ?W q, S_e := ?W e, S_plaintext := ?W m))
      (Map.empty(J_n \<mapsto> ?W ?n, J_phi \<mapsto> ?W ?phi, J_d \<mapsto> ?W d, J_enc \<mapsto> ?W c, J_dec \<mapsto> ?W m))
      (later, o' @ hw_transcript xs p ys q zs e d c m,
       l\<lparr>l_p1 := p, l_isprime1 := 1, l_p2 := q, l_isprime2 := 1, l_n := ?n, l_phi := ?phi, l_pk := e,
         l_e_bool := e_checker e ?phi, l_d := d, l_pt := m, l_ct := c, l_new_pt := m\<rparr>))"
    unfolding hardware_encrypt_def
    by (rule triple_seq_Cons [OF idle_say], simp, rule triple_seq_Cons [OF hw_prime1_works [OF key bad(1) hp(1)]],
        rule triple_seq_Cons [OF hw_prime2_works [OF key bad(2) hp(2)]],
        rule triple_seq_Cons [OF hw_get_n_works [OF key job_n [OF kb(1,2) pq(4)]]], simp, simp, simp,
        rule triple_seq_Cons [OF hw_get_phi_works [OF key job_phi [OF kb(1,2) pq(4)]]], simp, simp, simp,
        rule triple_seq_Cons [OF hw_ask_e_works [OF _ bad(3) ec]], simp,
        rule triple_seq_Cons [OF hw_send_e_works [OF key]], simp,
        rule triple_seq_Cons [OF hw_get_d_works [OF key job_d [OF e1 e(2) kb(4) d phi]]], simp, simp, simp,
        rule triple_seq_Cons [OF hw_send_plaintext_works [OF key]],
        rule triple_seq_Cons [OF hw_get_ciphertext_works [OF key job_message(1) [OF m pq(4) bound(1,2) c_def [symmetric]]]],
        simp, simp, simp, simp,
        rule triple_seq_Cons [OF hw_get_decrypted_works [OF key job_message(2) [OF c pq(4) bound(3,4) undo]]],
        simp, simp, simp, simp, rule idle_end) (simp_all add: hw_transcript_def said_def)
  then show ?thesis unfolding c_def by blast
qed

section \<open>From the reset button\<close>

text \<open>An edge with the button pressed makes every unit idle.\<close>

lemma reset_bank: "bank (\<lambda>_. None) (units_step False r u)"
  using ngen.reset_idle phigen.reset_idle gd.reset_idle enc.reset_idle
  by (simp add: bank_def all_jobs units_step_def chk_rest_def chk_simps)

definition after_reset :: "io_regs \<times> rsa_units \<Rightarrow> bool" where
  "after_reset z \<longleftrightarrow> state (fst z) = RESET \<and> calm (fst z) \<and> bank (\<lambda>_. None) (snd z)"

text \<open>
  The reset does not clear three of the start lines, so they have to be low already.
\<close>

lemma reset_edge:
  assumes "\<not> generated_ready (io s)" "\<not> prime_checker_ready1 (io s)" "\<not> prime_checker_ready2 (io s)"
  shows "after_reset (core (soc_cycle (rsa_world lag key) False s))"
  using assms reset_bank
  by (simp add: after_reset_def core_def soc_cycle_def io_clock_def io_reset_def calm_def)

lemma tick_reset:
  assumes "after_reset z" "sig \<noteq> 8"
  shows "after_reset (tick (rsa_world lag key) sig port z) \<and> to_sw_sig (fst (tick (rsa_world lag key) sig port z)) = 3"
  using assms bank_step [of "\<lambda>_. None" "snd z" "fst z"]
  by (simp add: after_reset_def io_clock_def calm_def)

definition reset_shown :: "io_regs \<times> rsa_units \<Rightarrow> bool" where
  "reset_shown z \<longleftrightarrow> after_reset z \<and> to_sw_sig (fst z) = 3"

lemma leads_reset: "leads (rsa_world lag key) 0 port 3 after_reset reset_shown"
proof (rule leadsI)
  show "\<exists>n>0. reset_shown ((tick (rsa_world lag key) 0 port ^^ n) z) \<and>
      (\<forall>k. 0 < k \<longrightarrow> k < n \<longrightarrow> to_sw_sig (fst ((tick (rsa_world lag key) 0 port ^^ k) z)) \<noteq> 3)"
    if "after_reset z" for z
    using tick_reset [OF that] by (intro exI [of _ 1]) (simp add: reset_shown_def)
qed (use tick_reset in \<open>auto simp: stable_def reset_shown_def\<close>)

definition waiting :: "io_regs \<times> rsa_units \<Rightarrow> bool" where
  "waiting z \<longleftrightarrow> (\<exists>v. region WAIT 7 v (bank (\<lambda>_. None)) z)"

lemma leads_waiting: "leads (rsa_world lag key) 8 port 7 reset_shown waiting"
proof (rule leads_two [where M = "\<lambda>z. \<exists>v. region WAIT 3 v (bank (\<lambda>_. None)) z"])
  let ?t = "tick (rsa_world lag key) 8 port"
  show "\<exists>v. region WAIT 3 v (bank (\<lambda>_. None)) (?t z)" if "reset_shown z" for z
    using that bank_step [of "\<lambda>_. None" "snd z" "fst z"]
    by (simp add: reset_shown_def after_reset_def region_def io_clock_def calm_def)
  show "waiting (?t z) \<and> to_sw_sig (fst z) \<noteq> 7" if "\<exists>v. region WAIT 3 v (bank (\<lambda>_. None)) z" for z
    using that region_wait [OF quiet_bank] unfolding waiting_def by (force simp: region_def)
  show "stable (rsa_world lag key) 8 port waiting"
    unfolding stable_def waiting_def using region_wait [OF quiet_bank] by blast
qed (auto simp: waiting_def region_def)

text \<open>The pass of \<open>main\<close> up to the question for the option.\<close>

lemma main_starts:
  assumes key: "key_up (rsa_world lag key)"
  defines "w \<equiv> rsa_world lag key"
  shows "triple (at 0 port after_reset (x # k, o', l))
    (seq [put_sig w 0, put_port w (\<lambda>l. 0), say ''Press reset for options!'' (\<lambda>l. []), await w 3,
       say ''Need to go to wait'' (\<lambda>l. []), put_sig w 8, await w 7,
       say ''Enter 0 for hardware encrypt/decrypt, 1 for software encrypt/decrypt'' (\<lambda>l. []),
       scan (\<lambda>x. l_option_update (\<lambda>_. x))])
    (\<lambda>s. \<exists>v. idle_at v (\<lambda>_. None) (k, o' @ said [''Press reset for options!'', ''Need to go to wait'',
       ''Enter 0 for hardware encrypt/decrypt, 1 for software encrypt/decrypt''], l\<lparr>l_option := x\<rparr>) s)"
proof -
  have st: "stable (rsa_world lag key) 0 port after_reset" "stable (rsa_world lag key) 0 port reset_shown" for port
    using tick_reset unfolding stable_def reset_shown_def by auto
  have fin: "triple (at 8 port waiting (k, o'', l')) (seq [])
      (\<lambda>s. \<exists>v. idle_at v (\<lambda>_. None) (k, o'', l') s)" for port o'' l'
    by (auto simp: triple_def at_def waiting_def idle_at_def)
  show ?thesis unfolding w_def
    by (rule triple_seq_Cons [OF triple_put_sig [OF key st(1)]],
        rule triple_seq_Cons [OF triple_put_port [OF key st(1)]],
        rule triple_seq_Cons [OF triple_say], simp,
        rule triple_seq_Cons [OF triple_await [OF key leads_reset]],
        rule triple_seq_Cons [OF triple_say], simp,
        rule triple_seq_Cons [OF triple_put_sig [OF key st(2)]],
        rule triple_seq_Cons [OF triple_await [OF key leads_waiting]],
        rule triple_seq_Cons [OF triple_say], simp, rule triple_seq_Cons [OF triple_scan],
        rule triple_conseq [OF fin]) (simp_all add: said_def)
qed

text \<open>
  C1. The whole session on the hardware. After a reset the operator chooses the coprocessor,
  types distinct odd primes with product at most 46341 (after any number of rejected ones), a
  prime exponent below \<open>phi\<close> for which the key search of the software succeeds, and a message
  below \<open>n\<close>. Then the pass of \<open>main\<close> ends, however many clock edges lie between two accesses
  of the processor, and shows \<open>n\<close>, \<open>phi\<close>, the private key the software would compute, the
  ciphertext, and the message decrypted again.
\<close>

theorem hardware_session:
  fixes lag :: "nat \<Rightarrow> nat"
  assumes "\<forall>k. key k"
    and "\<not> generated_ready (io s)" "\<not> prime_checker_ready1 (io s)" "\<not> prime_checker_ready2 (io s)"
    and "to_hw_sig s = 0" "keyboard s = 0 # xs @ p # ys @ q # zs @ e # m # later"
    and "is_prime (nat p)" "is_prime (nat q)" "p \<noteq> q" "p * q \<le> 46341" "odd p" "odd q"
    and "is_prime (nat e)" "e < (p - 1) * (q - 1)" "gen_d e ((p - 1) * (q - 1)) = Inr d"
    and "0 \<le> m" "m < p * q"
    and "\<forall>x\<in>set xs. \<not> hw_prime (word_of_int x)" "\<forall>x\<in>set ys. \<not> hw_prime (word_of_int x)"
      "\<forall>x\<in>set zs. e_checker x ((p - 1) * (q - 1)) = 0"
  defines "w \<equiv> rsa_world lag key"
  shows "\<exists>s'. main_pass w (soc_cycle w False s) = Some (Inr s') \<and> keyboard s' = later \<and>
    clean (screen s') = clean (screen s) @
      said [''Press reset for options!'', ''Need to go to wait'',
        ''Enter 0 for hardware encrypt/decrypt, 1 for software encrypt/decrypt''] @
      hw_transcript xs p ys q zs e d (m ^ nat e mod (p * q)) m"
proof -
  have key: "key_up w" using assms(1) by (simp add: key_up_def w_def)
  let ?head = "[put_sig w 0, put_port w (\<lambda>l. 0), say ''Press reset for options!'' (\<lambda>l. []), await w 3,
       say ''Need to go to wait'' (\<lambda>l. []), put_sig w 8, await w 7,
       say ''Enter 0 for hardware encrypt/decrypt, 1 for software encrypt/decrypt'' (\<lambda>l. []),
       scan (\<lambda>x. l_option_update (\<lambda>_. x))]"
  let ?choice = "if_stmt (\<lambda>l. l_option l = 0) (hardware_encrypt w)
        (if_stmt (\<lambda>l. l_option l = 1) call_software_encrypt (seq []))"
  let ?k = "xs @ p # ys @ q # zs @ e # m # later"
  let ?out = "clean (screen s) @ said [''Press reset for options!'', ''Need to go to wait'',
        ''Enter 0 for hardware encrypt/decrypt, 1 for software encrypt/decrypt'']"
  let ?post = "\<lambda>s'. keyboard s' = later \<and>
      clean (screen s') = ?out @ hw_transcript xs p ys q zs e d (m ^ nat e mod (p * q)) m"
  have "at 0 (to_hw_port s) after_reset (0 # ?k, clean (screen s), loc s) (soc_cycle w False s)"
    using reset_edge [OF assms(2-4), of lag key] assms(5,6) by (simp add: at_def w_def rest_def soc_cycle_def)
  then obtain s1 v where s1: "seq ?head (soc_cycle w False s) = Some (Inr s1)"
      "idle_at v (\<lambda>_. None) (?k, ?out, (loc s)\<lparr>l_option := 0\<rparr>) s1"
    using main_starts [OF key [unfolded w_def], folded w_def] unfolding triple_def by blast
  obtain v' S l' where "triple (idle_at v (\<lambda>_. None) (?k, ?out, (loc s)\<lparr>l_option := 0\<rparr>)) (hardware_encrypt w)
      (idle_at v' S (later, ?out @ hw_transcript xs p ys q zs e d (m ^ nat e mod (p * q)) m, l'))"
    using hardware_encrypt_works [OF key [unfolded w_def] assms(7-20)] unfolding w_def by blast
  then have "triple (idle_at v (\<lambda>_. None) (?k, ?out, (loc s)\<lparr>l_option := 0\<rparr>)) (hardware_encrypt w) ?post"
    by (rule triple_conseq) (auto simp: idle_at_def at_def rest_def)
  then have "triple (idle_at v (\<lambda>_. None) (?k, ?out, (loc s)\<lparr>l_option := 0\<rparr>)) ?choice ?post"
    by (intro idle_if) simp
  then obtain s' where "?choice s1 = Some (Inr s')" "?post s'" using s1(2) unfolding triple_def by blast
  moreover have "main_pass w = seq (?head @ [?choice])" by (simp add: main_pass_def del: seq.simps)
  ultimately show ?thesis using s1(1) by (simp add: seq_append del: append.simps)
qed

section \<open>A board at power-up\<close>

text \<open>Contents the registers may have before the first reset; the session does not depend on them.\<close>

definition mul_zero :: mul where
  "mul_zero = \<lparr>mul_state = MUL_RESET, mul_counter = 0, temp_sum = 0, mul_out = 0, mult_done = False\<rparr>"

definition modu_zero :: modu where
  "modu_zero = \<lparr>mod_state = MODU_RESET, sub_hold = 0, numerator_hold = 0, denominator_hold = 0, mod_result = 0,
     modular_done = False\<rparr>"

definition gen_zero :: gen where
  "gen_zero = \<lparr>gen_state = GEN_RESET, gen_mult_ready = False, gen_in1 = 0, gen_in2 = 0, gen_out = 0,
     gen_done = False, gen_mult = mul_zero\<rparr>"

definition modmult_zero :: modmult where
  "modmult_zero = \<lparr>mm_state = MM_RESET, mm_result = 0, mm_mult_ready = False, mm_modular_ready = False,
     modmult_done = False, mm_d = 0, mm_e = 0, mm_phi = 0, mm_modular = modu_zero, mm_mult = mul_zero\<rparr>"

definition modexp_zero :: modexp where
  "modexp_zero = \<lparr>me_state = ME_RESET, me_counter = 0, multiplier_reset = False, modulo_reset = False,
     me_mult_ready = False, me_modular_ready = False, modexp_done = False, me_result = 0, me_C = 0, me_M = 0,
     me_n = 0, me_modular = modu_zero, me_mult = mul_zero\<rparr>"

definition enc_zero :: enc where
  "enc_zero = \<lparr>enc_state = ENC_RESET, Cin = 0, enc_C = 0, modexp_ready = False, enc_modular_ready = False,
     enc_done = False, enc_modexp = modexp_zero, enc_modular = modu_zero\<rparr>"

definition gd_zero :: gd where
  "gd_zero = \<lparr>gd_state = GD_RESET, s_holder = 0, dholder = 0, gd_d = 0, modmult_ready = False,
     modmult_reset = False, gd_done = False, gd_mm = modmult_zero\<rparr>"

definition chk_zero :: chk where
  "chk_zero = \<lparr>chk_state = CHK_RESET, isprime = False, prime_checker_done = False\<rparr>"

definition io_zero :: io_regs where
  "io_zero = \<lparr>state = RESET, to_sw_sig = 0, to_sw_port = 0, prime1 = 0, prime2 = 0, n_hold = 0, plaintext = 0,
     ciphertext = 0, e_reg = 0, encrypt_ready = False, decrypt_ready = False, phi_ready = False, n_ready = False,
     generated_ready = False, prime_checker_ready1 = False, prime_checker_ready2 = False\<rparr>"

definition power_up :: "int list \<Rightarrow> rsa_units soc" where
  "power_up keys =
     \<lparr>io = io_zero,
      units = \<lparr>u_chk1 = chk_zero, u_chk2 = chk_zero, u_phi = gen_zero, u_n = gen_zero, u_d = gd_zero,
               u_enc = enc_zero, u_dec = enc_zero\<rparr>,
      to_hw_sig = 0, to_hw_port = 0, accesses = 0, keyboard = keys, screen = [],
      loc = \<lparr>l_p1 = 0, l_p2 = 0, l_pk = 0, l_pt = 0, l_ct = 0, l_phi = 0, l_n = 0, l_d = 0, l_new_pt = 0,
             l_isprime1 = 0, l_isprime2 = 0, l_e_bool = 0, l_option = 0\<rparr>\<rparr>"

lemma is_prime_7: "is_prime 7"
  using test_divisors_prime(3) by (simp add: prime_checker_value split: if_splits)

theorem hardware_session_witness:
  "\<exists>s'. main_pass (rsa_world (\<lambda>k. k mod 3) (\<lambda>_. True))
      (soc_cycle (rsa_world (\<lambda>k. k mod 3) (\<lambda>_. True)) False (power_up [0, 9, 3, 2, 11, 4, 7, 5])) = Some (Inr s') \<and>
    keyboard s' = [] \<and>
    clean (screen s') =
      said [''Press reset for options!'', ''Need to go to wait'',
        ''Enter 0 for hardware encrypt/decrypt, 1 for software encrypt/decrypt''] @
      hw_transcript [9] 3 [2] 11 [4] 7 3 14 5"
proof -
  have "\<not> hw_prime (word_of_int 9)" "\<not> hw_prime (word_of_int 2)" by (simp_all add: hw_prime_def bit_0)
  moreover have "e_checker 4 20 = 0" by code_simp
  ultimately show ?thesis
    using hardware_session [of "\<lambda>_. True" "power_up [0, 9, 3, 2, 11, 4, 7, 5]" "[9]" 3 "[2]" 11 "[4]" 7 5 "[]" 3
        "\<lambda>k. k mod 3"] is_prime_small is_prime_7 gen_d_7_20
    by (simp add: power_up_def io_zero_def clean_def)
qed

section \<open>The units against the software\<close>

text \<open>
  C8. The encrypting unit against \<open>encrypt\<close>, for a message \<open>0 <= m < n\<close>, a modulus
  \<open>n <= 46341\<close> (so that no product wraps in either) and any 32-bit exponent: after a reset and
  with its start line held up the unit raises its flag after finitely many edges and shows
  the message raised to the exponent read without a sign, but to 1 for the exponent 0, while
  \<open>encrypt\<close> multiplies as often as the signed exponent says. So they agree for every exponent
  from 1 on. For the exponents 0 and below, which \<open>e_checker\<close> accepts, they do not: the software
  gives \<open>1 mod n\<close>, the unit at 0 the message itself and below 0 a huge power.
\<close>

theorem encrypt_unit_agrees:
  assumes "0 \<le> m" "m < n" "n \<le> 46341" "INT_MIN \<le> e" "e \<le> INT_MAX"
  defines "run \<equiv> rsa_encrypt True True (word_of_int m, word_of_int e, word_of_int n)"
  shows "\<exists>k C. encrypt m e n = Inr C \<and> C = (if 1 \<le> e then m ^ nat e mod n else 1 mod n) \<and>
    enc_done ((run ^^ k) (rsa_encrypt False r a u)) \<and>
    (\<forall>i<k. \<not> enc_done ((run ^^ i) (rsa_encrypt False r a u))) \<and>
    enc_C ((run ^^ k) (rsa_encrypt False r a u)) =
      word_of_int (if 1 \<le> e then C else if e = 0 then m else m ^ nat (2 ^ 32 + e) mod n)"
proof -
  note v = enc_value_power [OF assms(1-3), of "word_of_int e"]
  obtain k where k: "enc_held True (word_of_int (m ^ max 1 (unat (word_of_int e :: alt_u32)) mod n))
        ((run ^^ k) (rsa_encrypt False r a u))"
      "\<forall>i<k. \<not> enc_done ((run ^^ i) (rsa_encrypt False r a u))"
    using until_iter [OF enc.works [OF enc.reset_idle v(2)]] unfolding v(1) run_def by blast
  have "m ^ max 1 (unat (word_of_int e :: alt_u32)) mod n =
      (if 1 \<le> e then m ^ nat e mod n else if e = 0 then m else m ^ nat (2 ^ 32 + e) mod n)"
    using assms(1,2,4,5) unat_of_int32 [of e] unat_of_neg32 [of e] by (auto simp: max_def)
  then show ?thesis
    using k encrypt_small [OF assms(1-3), of e] enc.held_done [OF k(1)] enc.held_out [OF k(1)]
    by (intro exI [of _ k] exI [of _ "m ^ nat e mod n"]) auto
qed

theorem encrypt_unit_agrees_witness:
  "(\<exists>k. enc_C ((rsa_encrypt True True (5, 7, 33) ^^ k) (rsa_encrypt False False (0, 0, 0) enc_zero)) = 14) \<and>
   (\<exists>k. enc_C ((rsa_encrypt True True (5, 0, 33) ^^ k) (rsa_encrypt False False (0, 0, 0) enc_zero)) = 5) \<and>
   encrypt 5 0 33 = Inr 1"
proof -
  have "encrypt 5 7 33 = Inr 14" "encrypt 5 0 33 = Inr 1" by (simp_all add: encrypt_small)
  then show ?thesis
    using encrypt_unit_agrees [of 5 33 7 False "(0, 0, 0)" enc_zero]
      encrypt_unit_agrees [of 5 33 0 False "(0, 0, 0)" enc_zero] by auto
qed

text \<open>
  C9. \<open>generate_d\<close> against the software's search: for \<open>e < phi\<close> with \<open>phi * e\<close> in the range of
  \<open>int\<close>, whenever \<open>gen_d\<close> returns a number at all, which it never does for an exponent below
  1, the unit finishes after finitely many edges; it shows the same number if \<open>e\<close> is not 1.
  For the exponent 1, which \<open>e_checker\<close> accepts, the software returns 0, which is no inverse,
  and the unit shows the inverse 1.
\<close>

theorem key_unit_agrees:
  assumes "e < phi" "phi * e \<le> INT_MAX" "gen_d e phi = Inr d"
  defines "run \<equiv> generate_d True True (word_of_int e, word_of_int phi)"
  shows "\<exists>k. gd_done ((run ^^ k) (generate_d False r a u)) \<and>
    (\<forall>i<k. \<not> gd_done ((run ^^ i) (generate_d False r a u))) \<and>
    gd_d ((run ^^ k) (generate_d False r a u)) = word_of_int (if e = 1 then 1 else d) \<and>
    1 \<le> e \<and> (e = 1 \<longrightarrow> d = 0)"
proof -
  have e: "1 \<le> e" using assms(3) by (rule gen_d_positive)
  have v: "gd_ok (word_of_int e, word_of_int phi) \<and>
      gd_value (word_of_int e, word_of_int phi) = word_of_int (if e = 1 then 1 else d)"
  proof (cases "e = 1")
    case True
    then show ?thesis using gd_one [of phi] assms(1,2) by simp
  qed (use e gd_value_exact [OF _ assms(1-3)] in simp)
  obtain k where k: "gd_held True (word_of_int (if e = 1 then 1 else d)) ((run ^^ k) (generate_d False r a u))"
      "\<forall>i<k. \<not> gd_done ((run ^^ i) (generate_d False r a u))"
    using until_iter [OF gd.works [OF gd.reset_idle conjunct1 [OF v]]] unfolding conjunct2 [OF v] run_def by blast
  moreover have "e = 1 \<longrightarrow> d = 0" using gen_d_one [of phi] assms(1,3) by auto
  ultimately show ?thesis using gd.held_done [OF k(1)] gd.held_out [OF k(1)] e by blast
qed

theorem key_unit_agrees_witness:
  "(\<exists>k. gd_d ((generate_d True True (7, 20) ^^ k) (generate_d False False (0, 0) gd_zero)) = 3) \<and>
   (\<exists>k. gd_d ((generate_d True True (1, 20) ^^ k) (generate_d False False (0, 0) gd_zero)) = 1)"
  using key_unit_agrees [of 7 20 3 False "(0, 0)" gd_zero] gen_d_7_20
    key_unit_agrees [of 1 20 0 False "(0, 0)" gd_zero] gen_d_one [of 20] by auto

end
