(* ===== verification/Heap.thy ===== *)
theory Heap
  imports Irq
begin

text \<open>
  The program break of \<open>alt_sbrk.c\<close>: the address \<open>heap_end\<close>, moved under disabled interrupts
  and bounded by the linker's \<open>__alt_heap_limit\<close>. Addresses are 32-bit words, so the sum the
  code compares can wrap around. The library is built without the stack check.
\<close>

definition align_up :: "alt_u32 \<Rightarrow> alt_u32" where
  "align_up p = (p + 3) AND NOT 3"

definition alt_sbrk :: "alt_u32 \<Rightarrow> int \<Rightarrow> alt_u32 \<times> cpu \<Rightarrow> alt_u32 \<times> alt_u32 \<times> cpu" where
  "alt_sbrk heap_limit incr s =
     (let (heap_end, c) = s;
          (context, c) = alt_irq_disable_all c;
          heap_end = align_up heap_end
      in if heap_end + word_of_int incr > heap_limit
         then (word_of_int (- 1), heap_end, alt_irq_enable_all context c)
         else (let prev_heap_end = heap_end;
                   heap_end = heap_end + word_of_int incr
               in (prev_heap_end, heap_end, alt_irq_enable_all context c)))"

text \<open>A sequence of requests and the blocks they get.\<close>

fun sbrk_all :: "alt_u32 \<Rightarrow> int list \<Rightarrow> alt_u32 \<times> cpu \<Rightarrow> (alt_u32 \<times> int) list \<times> alt_u32 \<times> cpu" where
  "sbrk_all limit [] s = ([], s)"
| "sbrk_all limit (n # ns) s =
     (let (p, s) = alt_sbrk limit n s; (bs, s) = sbrk_all limit ns s
      in (if p = - 1 then bs else (p, n) # bs, s))"

section \<open>Alignment\<close>

lemma and_not_3: "(w :: alt_u32) AND NOT 3 = push_bit 2 (drop_bit 2 w)"
proof -
  have 3: "(3 :: alt_u32) = mask 2" by (simp add: mask_eq_decr_exp)
  have "Suc (Suc (n - 2)) = n" if "2 \<le> n" for n :: nat using that by arith
  moreover have "2 \<le> n \<longleftrightarrow> \<not> n < 2" for n :: nat by arith
  ultimately show ?thesis unfolding 3 by (intro bit_word_eqI) (auto simp: bit_simps)
qed

lemma unat_and_not_3: "unat (w AND - 4 :: alt_u32) = 4 * (unat w div 4)"
proof -
  have "4 * (unat w div 4) < 4294967296" using unat32_lt [of w] by linarith
  then have "unat (4 * (w div 4)) = 4 * (unat w div 4)"
    by (simp add: unat_word_ariths unat_div_distrib)
  then show ?thesis using and_not_3 [of w] by (simp add: push_bit_eq_mult drop_bit_eq_div mult.commute)
qed

lemma align_up_small:
  assumes "unat p < 2 ^ 31"
  shows "unat p \<le> unat (align_up p)" "unat (align_up p) < unat p + 4" "4 dvd unat (align_up p)"
    "unat (align_up p) = 4 * ((unat p + 3) div 4)"
proof -
  have "unat (p + 3) = unat p + 3" using assms by (simp add: unat_plus32)
  then have e: "unat (align_up p) = 4 * ((unat p + 3) div 4)" by (simp add: align_up_def unat_and_not_3)
  then show "unat p \<le> unat (align_up p)" "unat (align_up p) < unat p + 4" "4 dvd unat (align_up p)"
    "unat (align_up p) = 4 * ((unat p + 3) div 4)" by presburger+
qed

lemma align_up_aligned: "4 dvd unat p \<Longrightarrow> unat p < 2 ^ 31 \<Longrightarrow> align_up p = p"
  using align_up_small(1,2,4) [of p] by (auto simp: word_unat_eq_iff elim!: dvdE)

lemma alt_sbrk_cpu [simp]: "snd (snd (alt_sbrk limit n (e, c))) = c"
  using disable_enable [of c] by (simp add: alt_sbrk_def Let_def case_prod_beta)

text \<open>Below 2^31 a request is granted exactly when it fits.\<close>

lemma alt_sbrk_nonneg:
  assumes e: "unat e \<le> unat limit" "unat limit < 2 ^ 31" and n: "0 \<le> n" "n \<le> INT_MAX"
  shows "alt_sbrk limit n (e, c) =
    (if unat (align_up e) + nat n \<le> unat limit
     then (align_up e, align_up e + word_of_int n, c) else (- 1, align_up e, c))"
    "unat (align_up e) + nat n \<le> unat limit \<Longrightarrow>
       unat (align_up e + word_of_int n) = unat (align_up e) + nat n"
proof -
  have n': "unat (word_of_int n :: alt_u32) = nat n" using n by (simp add: unat_eq_nat_uint uint_word_of_int)
  have "unat (align_up e) \<le> 2 ^ 31" using align_up_small(4) [of e] e by simp
  then have b: "unat (align_up e) + nat n < 2 ^ 32" using n by simp
  then have s: "unat (align_up e + word_of_int n) = unat (align_up e) + nat n"
    if "unat (align_up e) + nat n < 2 ^ 32" using that n' by (simp add: unat_plus32)
  show "unat (align_up e) + nat n \<le> unat limit \<Longrightarrow>
      unat (align_up e + word_of_int n) = unat (align_up e) + nat n"
    using e(2) by (intro s) simp
  show "alt_sbrk limit n (e, c) =
    (if unat (align_up e) + nat n \<le> unat limit
     then (align_up e, align_up e + word_of_int n, c) else (- 1, align_up e, c))"
    using s [OF b] n' disable_enable [of c] e(2)
    by (simp add: alt_sbrk_def Let_def word_less_nat_alt case_prod_beta)
qed

section \<open>Properties\<close>

lemma not_all_ones: "unat p \<le> 2 ^ 31 \<Longrightarrow> p \<noteq> - 1" for p :: alt_u32
  by (auto simp: unsigned_minus_1_eq_mask mask_eq_exp_minus_1)

lemma sbrk_all_blocks:
  assumes "unat e \<le> unat limit" "unat limit < 2 ^ 31 \<and> 4 dvd unat limit" "\<forall>n\<in>set ns. 0 \<le> n \<and> n \<le> INT_MAX"
    "sbrk_all limit ns (e, c) = (bs, e', c')"
  shows "(\<forall>(p, n)\<in>set bs. 4 dvd unat p \<and> unat e \<le> unat p \<and> unat p + nat n \<le> unat e' \<and> n \<in> set ns) \<and>
    sorted_wrt (\<lambda>(p, n) (q, m). unat p + nat n \<le> unat q) bs \<and>
    unat e \<le> unat e' \<and> unat e' \<le> unat limit \<and> c' = c"
  using assms
proof (induction ns arbitrary: e bs)
  case (Cons n ns)
  let ?a = "align_up e"
  have a: "unat e \<le> unat ?a" "4 dvd unat ?a" using align_up_small [of e] Cons.prems(1,2) by auto
  have al: "unat ?a \<le> unat limit" using align_up_small(4) [of e] Cons.prems(1,2) by (auto elim: dvdE)
  have n: "0 \<le> n" "n \<le> INT_MAX" using Cons.prems(3) by auto
  have lim: "unat limit < 2 ^ 31" using Cons.prems(2) by simp
  show ?case
  proof (cases "unat ?a + nat n \<le> unat limit")
    case True
    let ?e = "?a + word_of_int n"
    note sb = alt_sbrk_nonneg(1) [OF Cons.prems(1) lim n, of c]
    have e: "unat ?e = unat ?a + nat n" by (rule alt_sbrk_nonneg(2) [OF Cons.prems(1) lim n True])
    have "?a \<noteq> - 1" using al lim by (intro not_all_ones) simp
    then obtain bs' where bs': "sbrk_all limit ns (?e, c) = (bs', e', c')" "bs = (?a, n) # bs'"
      using Cons.prems(4) sb True by (auto split: prod.splits)
    have "unat ?e \<le> unat limit" using True e by simp
    from Cons.IH [OF this Cons.prems(2) _ bs'(1)] Cons.prems(3) a e bs'(2) show ?thesis
      by (fastforce intro: order_trans)
  next
    case False
    then have "sbrk_all limit ns (?a, c) = (bs, e', c')"
      using Cons.prems(4) alt_sbrk_nonneg(1) [OF Cons.prems(1) lim n, of c] by (auto split: prod.splits)
    from Cons.IH [OF al Cons.prems(2) _ this] Cons.prems(3) a show ?thesis
      by (fastforce intro: order_trans)
  qed
qed simp

text \<open>
  C39. The heap, for a limit that is word aligned and below 2^31, a break not above it and sizes
  that are not negative. Whatever sizes are requested one after another, the blocks granted are
  aligned to words, lie between the break and the limit, follow one another without
  overlapping, and the interrupt state is restored; the next request is refused exactly when
  it does not fit below the limit. (The comment in the source says that no bounds are checked
  and that memory is allocated beyond the physical one.)
\<close>

theorem sbrk_blocks:
  assumes "unat e \<le> unat limit" "unat limit < 2 ^ 31" "4 dvd unat limit"
    "\<forall>n\<in>set (ns @ [m]). 0 \<le> n \<and> n \<le> INT_MAX"
    "sbrk_all limit ns (e, c) = (bs, e', c')"
  shows "(\<forall>(p, n)\<in>set bs. 4 dvd unat p \<and> unat e \<le> unat p \<and> unat p + nat n \<le> unat e') \<and>
    sorted_wrt (\<lambda>(p, n) (q, m). unat p + nat n \<le> unat q) bs \<and> unat e' \<le> unat limit \<and> c' = c \<and>
    (fst (alt_sbrk limit m (e', c')) = - 1 \<longleftrightarrow> unat limit < 4 * ((unat e' + 3) div 4) + nat m)"
proof -
  note all = sbrk_all_blocks [OF assms(1) conjI [OF assms(2,3)] _ assms(5)]
  have e': "unat e' \<le> unat limit" using all assms(4) by simp
  have "unat (align_up e') = 4 * ((unat e' + 3) div 4)" using align_up_small(4) [of e'] e' assms(2) by simp
  moreover have "align_up e' \<noteq> - 1" using align_up_small(4) [of e'] e' assms(2) by (intro not_all_ones) simp
  ultimately show ?thesis
    using all assms(2,4) alt_sbrk_nonneg(1) [OF e' assms(2), of m c']
    by (auto simp: not_le)
qed

definition demo_cpu :: cpu where
  "demo_cpu = \<lparr>cpu_status = 1, cpu_ienable = 0\<rparr>"

theorem sbrk_blocks_witness:
  "sbrk_all 0x10000020 [5, 40, 8] (0x10000000, demo_cpu) =
     ([(0x10000000, 5), (0x10000008, 8)], 0x10000010, demo_cpu) \<and>
   fst (alt_sbrk 0x10000020 17 (0x10000010, demo_cpu)) = - 1"
proof -
  have run: "sbrk_all 0x10000020 [5, 40, 8] (0x10000000, demo_cpu) =
      ([(0x10000000, 5), (0x10000008, 8)], 0x10000010, demo_cpu)"
    using disable_enable [of demo_cpu] by (simp add: alt_sbrk_def align_up_def Let_def case_prod_beta)
  then show ?thesis using sbrk_blocks [of "0x10000000" "0x10000020" "[5, 40, 8]" 17, OF _ _ _ _ run] by simp
qed

end
