(* ===== verification/Gmon.thy ===== *)
theory Gmon
  imports Heap Clock
begin

text \<open>
  Profiling, \<open>alt_gmon.c\<close>: the call graph that \<open>__mcount_record\<close> builds in slabs taken from
  the heap, and the program counter samples that an alarm collects. \<open>low_pc\<close>, \<open>high_pc\<close> and the heap
  limit are the linker's. An address stands for a pointer, 0 for \<open>NULL\<close>; the records found at
  an address are the functions \<open>fns\<close> and \<open>arcs\<close>, the sample counters the function \<open>buckets\<close>.
\<close>

record mcount_fn_arc =
  arc_next :: alt_u32
  from_pc :: alt_u32
  arc_count :: alt_u32

record mcount_fn_entry =
  fn_next :: alt_u32
  self_pc :: alt_u32
  arc_head :: alt_u32

record linker =
  low_pc :: alt_u32
  high_pc :: alt_u32
  heap_limit :: alt_u32
  sample_alarm :: nat
  sample_callback :: nat

abbreviation (input) PCSAMPLE_BYTES_PER_BUCKET :: alt_u32 where "PCSAMPLE_BYTES_PER_BUCKET \<equiv> 32"
abbreviation (input) HASH_BUCKETS :: nat where "HASH_BUCKETS \<equiv> 64"
abbreviation (input) MCOUNT_SLAB_INCREMENT :: int where "MCOUNT_SLAB_INCREMENT \<equiv> 1020"

text \<open>Both records are three words long.\<close>

abbreviation (input) mcount_rec_size :: alt_u32 where "mcount_rec_size \<equiv> 12"

record 'w gmon =
  g_clock :: "'w clock"
  g_break :: alt_u32
  pcsample_need_init :: bool
  mcount_fn_head :: "nat \<Rightarrow> alt_u32"
  s_pcsamples :: alt_u32
  alt_gmon_data :: "alt_u32 list"
  mcount_slab_ptr :: alt_u32
  mcount_slab_size :: int
  fns :: "alt_u32 \<Rightarrow> mcount_fn_entry"
  arcs :: "alt_u32 \<Rightarrow> mcount_fn_arc"
  buckets :: "nat \<Rightarrow> 16 word"

text \<open>The static initialisers; \<open>head\<close> is the address of \<open>__mcount_fn_head\<close>.\<close>

definition gmon_data_init :: "linker \<Rightarrow> alt_u32 \<Rightarrow> alt_u32 list" where
  "gmon_data_init l head =
     [0x6e6f6d67, 9, 0, low_pc l, high_pc l, PCSAMPLE_BYTES_PER_BUCKET, 0, head, head + 4 * 64]"

definition gmon_sbrk :: "linker \<Rightarrow> int \<Rightarrow> 'w gmon \<Rightarrow> alt_u32 \<times> 'w gmon" where
  "gmon_sbrk l incr g =
     (let (p, e, c) = alt_sbrk (heap_limit l) incr (g_break g, clock_cpu (g_clock g))
      in (p, g\<lparr>g_break := e, g_clock := with_cpu (\<lambda>_. c) (g_clock g)\<rparr>))"

text \<open>The comparison is unsigned; a failed \<open>sbrk\<close> is not noticed.\<close>

definition mcount_allocate :: "linker \<Rightarrow> alt_u32 \<Rightarrow> 'w gmon \<Rightarrow> alt_u32 \<times> 'w gmon" where
  "mcount_allocate l len g =
     (let g = (if len > word_of_int (mcount_slab_size g)
               then (let (p, g) = gmon_sbrk l MCOUNT_SLAB_INCREMENT g
                     in g\<lparr>mcount_slab_ptr := p, mcount_slab_size := MCOUNT_SLAB_INCREMENT\<rparr>)
               else g);
          data = mcount_slab_ptr g
      in (data, g\<lparr>mcount_slab_ptr := data + len,
                 mcount_slab_size := sint (word_of_int (mcount_slab_size g) - len)\<rparr>))"

definition nios2_pcsample_init :: "linker \<Rightarrow> 'w gmon \<Rightarrow> bool \<times> 'w gmon" where
  "nios2_pcsample_init l g =
     (let prof_rate = alt_ticks_per_second (g_clock g)
      in if prof_rate = 0 then (True, g)
         else (let pcsamples_size = (high_pc l - low_pc l) div PCSAMPLE_BYTES_PER_BUCKET;
                   (p, g) = gmon_sbrk l (sint (pcsamples_size * 2)) g;
                   g = g\<lparr>s_pcsamples := p\<rparr>
               in (False,
                   if p \<noteq> 0
                   then g\<lparr>buckets := (\<lambda>i. if i < unat pcsamples_size then 0 else buckets g i),
                          alt_gmon_data := (alt_gmon_data g)[2 := p, 6 := prof_rate],
                          g_clock := snd (alt_alarm_start (Some (sample_alarm l)) 1
                                            (sample_callback l) 0 (g_clock g))\<rparr>
                   else g)))"

text \<open>The alarm's callback: one sample of the interrupted program counter.\<close>

definition nios2_pcsample :: "linker \<Rightarrow> alt_u32 \<Rightarrow> 'w gmon \<Rightarrow> alt_u32 \<times> 'w gmon" where
  "nios2_pcsample l pc g =
     (if low_pc l \<le> pc \<and> pc < high_pc l \<and> s_pcsamples g \<noteq> 0
      then (let bucket = unat ((pc - low_pc l) div PCSAMPLE_BYTES_PER_BUCKET)
            in (1, g\<lparr>buckets := (buckets g)(bucket := buckets g bucket + 1)\<rparr>))
      else (1, g))"

text \<open>
  A function called for the first time from a place: \<open>fn_entry\<close> is its entry or \<open>NULL\<close>, \<open>b\<close> the
  hash bucket.
\<close>

definition mcount_new_entry :: "linker \<Rightarrow> alt_u32 \<Rightarrow> nat \<Rightarrow> 'w gmon \<Rightarrow> alt_u32 \<times> 'w gmon" where
  "mcount_new_entry l pc b g =
     (let (fn, g) = mcount_allocate l mcount_rec_size g
      in (fn, g\<lparr>fns := (fns g)(fn := \<lparr>fn_next = mcount_fn_head g b, self_pc = pc, arc_head = 0\<rparr>),
               mcount_fn_head := (mcount_fn_head g)(b := fn)\<rparr>))"

definition mcount_record :: "linker \<Rightarrow> alt_u32 \<Rightarrow> alt_u32 \<Rightarrow> alt_u32 \<Rightarrow> nat \<Rightarrow> 'w gmon \<Rightarrow> 'w gmon" where
  "mcount_record l pc caller fn_entry b g =
     (let g = (if pcsample_need_init g
               then (let (r, g) = nios2_pcsample_init l (g\<lparr>pcsample_need_init := False\<rparr>)
                     in g\<lparr>pcsample_need_init := r\<rparr>)
               else g);
          (context, c) = alt_irq_disable_all (clock_cpu (g_clock g));
          g = g\<lparr>g_clock := with_cpu (\<lambda>_. c) (g_clock g)\<rparr>;
          (fn, g) = (if fn_entry = 0 then mcount_new_entry l pc b g else (fn_entry, g));
          (arc, g) = mcount_allocate l mcount_rec_size g;
          g = g\<lparr>arcs := (arcs g)(arc := \<lparr>arc_next = arc_head (fns g fn), from_pc = caller, arc_count = 1\<rparr>),
                fns := (fns g)(fn := (fns g fn)\<lparr>arc_head := arc\<rparr>)\<rparr>
      in g\<lparr>g_clock := with_cpu (alt_irq_enable_all context) (g_clock g)\<rparr>)"

end
