(* ===== verification/Caches.thy ===== *)
theory Caches
  imports HAL_Prelude
begin

text \<open>
  Flushing of the caches: \<open>alt_dcache_flush.c\<close>, \<open>alt_dcache_flush_all.c\<close>,
  \<open>alt_dcache_flush_no_writeback.c\<close>, \<open>alt_icache_flush.c\<close>, \<open>alt_icache_flush_all.c\<close>. The sizes
  of \<open>system.h\<close> are arguments: on this board both are 0 and every function is empty. A run yields
  the cache instructions in their order; \<open>None\<close>: the loop over the lines never ends.
\<close>

section \<open>The functions\<close>

record cache_config =
  NIOS2_DCACHE_SIZE :: alt_u32
  NIOS2_DCACHE_LINE_SIZE :: alt_u32
  NIOS2_ICACHE_SIZE :: alt_u32
  NIOS2_ICACHE_LINE_SIZE :: alt_u32
  NIOS2_FLUSHDA_SUPPORTED :: bool
  NIOS2_INITDA_SUPPORTED :: bool

text \<open>
  \<open>flushd\<close> and \<open>flushi\<close> flush the line an address is mapped to, \<open>flushda\<close> and \<open>initda\<close> the line
  that holds the address, if there is one; \<open>flushp\<close> flushes the pipeline.
\<close>

datatype cache_op = Flushd alt_u32 | Flushda alt_u32 | Initda alt_u32 | Flushi alt_u32 | Flushp

partial_function (option) flush_lines ::
    "(alt_u32 \<Rightarrow> cache_op) \<Rightarrow> alt_u32 \<Rightarrow> alt_u32 \<Rightarrow> alt_u32 \<Rightarrow> cache_op list \<Rightarrow> (alt_u32 \<times> cache_op list) option" where
  "flush_lines op line limit i ops =
     (if i < limit then flush_lines op line limit (i + line) (ops @ [op i]) else Some (i, ops))"

text \<open>The loop and the line that is left over when the start is unaligned.\<close>

definition flush_range :: "(alt_u32 \<Rightarrow> cache_op) \<Rightarrow> alt_u32 \<Rightarrow> alt_u32 \<Rightarrow> alt_u32 \<Rightarrow> cache_op list option" where
  "flush_range op line start len =
     Option.bind (flush_lines op line (start + len) start []) (\<lambda>(i, ops).
       Some (if start AND (line - 1) \<noteq> 0 then ops @ [op i] else ops))"

definition alt_dcache_flush :: "cache_config \<Rightarrow> alt_u32 \<Rightarrow> alt_u32 \<Rightarrow> cache_op list option" where
  "alt_dcache_flush c start len =
     (if NIOS2_DCACHE_SIZE c > 0 then
        (let len = (if \<not> NIOS2_FLUSHDA_SUPPORTED c \<and> len > NIOS2_DCACHE_SIZE c then NIOS2_DCACHE_SIZE c else len)
         in flush_range (if NIOS2_FLUSHDA_SUPPORTED c then Flushda else Flushd) (NIOS2_DCACHE_LINE_SIZE c) start len)
      else Some [])"

definition alt_dcache_flush_all :: "cache_config \<Rightarrow> cache_op list option" where
  "alt_dcache_flush_all c =
     (if NIOS2_DCACHE_SIZE c > 0
      then map_option snd (flush_lines Flushd (NIOS2_DCACHE_LINE_SIZE c) (NIOS2_DCACHE_SIZE c) 0 [])
      else Some [])"

definition alt_dcache_flush_no_writeback :: "cache_config \<Rightarrow> alt_u32 \<Rightarrow> alt_u32 \<Rightarrow> cache_op list option" where
  "alt_dcache_flush_no_writeback c start len =
     (if NIOS2_INITDA_SUPPORTED c then flush_range Initda (NIOS2_DCACHE_LINE_SIZE c) start len else Some [])"

definition alt_icache_flush :: "cache_config \<Rightarrow> alt_u32 \<Rightarrow> alt_u32 \<Rightarrow> cache_op list option" where
  "alt_icache_flush c start len =
     (if NIOS2_ICACHE_SIZE c > 0 then
        (let len = (if len > NIOS2_ICACHE_SIZE c then NIOS2_ICACHE_SIZE c else len)
         in Option.bind (flush_range Flushi (NIOS2_ICACHE_LINE_SIZE c) start len) (\<lambda>ops. Some (ops @ [Flushp])))
      else Some [])"

definition alt_icache_flush_all :: "cache_config \<Rightarrow> cache_op list option" where
  "alt_icache_flush_all c =
     (if NIOS2_ICACHE_SIZE c > 0 then alt_icache_flush c 0 (NIOS2_ICACHE_SIZE c) else Some [])"

section \<open>What is flushed\<close>

text \<open>The loop, as long as the last step does not leave the address space.\<close>

lemma flush_lines_run:
  assumes "unat start + n * unat line < 2 ^ 32" "n = 0 \<or> start + of_nat (n - 1) * line < limit"
    "limit \<le> start + of_nat n * line"
  shows "flush_lines op line limit start ops =
    Some (start + of_nat n * line, ops @ map (\<lambda>k. op (start + of_nat k * line)) [0..<n])"
  using assms
proof (induction n arbitrary: start ops)
  case (Suc n)
  let ?s = "start + line"
  have n0: "unat start + (unat line + n * unat line) < 2 ^ 32" using Suc.prems(1) by simp
  then have s: "unat ?s = unat start + unat line" by (simp add: unat_word_ariths)
  have le: "start \<le> start + of_nat n * line"
  proof -
    have "n * unat line < 2 ^ 32" "unat start + n * unat line < 2 ^ 32" using n0 by linarith+
    then have "unat (of_nat n * line) = n * unat line"
      by (simp add: unat_word_ariths unat_of_nat take_bit_eq_mod mod_mult_left_eq)
    then show ?thesis using n0 by (simp add: word_le_nat_alt unat_word_ariths)
  qed
  have "start < limit" using Suc.prems(2) le by simp
  then have "flush_lines op line limit start ops = flush_lines op line limit ?s (ops @ [op start])"
    by (simp add: flush_lines.simps [of _ _ _ start])
  also have "\<dots> = Some (?s + of_nat n * line, (ops @ [op start]) @ map (\<lambda>k. op (?s + of_nat k * line)) [0..<n])"
  proof (rule Suc.IH)
    show "unat ?s + n * unat line < 2 ^ 32" using n0 s by simp
    show "n = 0 \<or> ?s + of_nat (n - 1) * line < limit"
      using Suc.prems(2) by (cases n) (simp_all add: algebra_simps)
    show "limit \<le> ?s + of_nat n * line" using Suc.prems(3) by (simp add: algebra_simps)
  qed
  finally show ?case
    by (simp add: algebra_simps upt_conv_Cons map_Suc_upt [symmetric] comp_def del: upt_Suc map_Suc_upt)
next
  case 0
  then have "\<not> start < limit" by (simp add: not_less)
  then show ?case by (simp add: flush_lines.simps [of _ _ _ start])
qed

text \<open>How many steps that is.\<close>

definition steps :: "nat \<Rightarrow> nat \<Rightarrow> nat" where
  "steps l len = (len + l - 1) div l"

lemma steps_bounds:
  assumes "0 < l"
  shows "len \<le> steps l len * l" "steps l len * l < len + l" "0 < len \<Longrightarrow> (steps l len - 1) * l < len"
proof -
  have m: "steps l len * l + (len + l - 1) mod l = len + l - 1" "(len + l - 1) mod l < l"
    using assms by (simp_all add: steps_def)
  then show "len \<le> steps l len * l" "steps l len * l < len + l" by linarith+
  have "(steps l len - 1) * l = steps l len * l - l" by (simp add: diff_mult_distrib)
  then show "(steps l len - 1) * l < len" if "0 < len" using m that by linarith
qed

lemma flush_lines_steps:
  assumes l: "0 < unat line" and fits: "unat start + unat len + unat line \<le> 2 ^ 32"
  shows "flush_lines op line (start + len) start [] =
    Some (start + of_nat (steps (unat line) (unat len)) * line,
      map (\<lambda>k. op (start + of_nat k * line)) [0..<steps (unat line) (unat len)])"
proof -
  let ?n = "steps (unat line) (unat len)"
  note b = steps_bounds [OF l, of "unat len"]
  have u: "unat (start + of_nat k * line) = unat start + k * unat line" if "k \<le> ?n" for k
  proof -
    have "k * unat line \<le> ?n * unat line" using that by simp
    then have "k * unat line < 2 ^ 32" "unat start + k * unat line < 2 ^ 32" using b(2) fits by linarith+
    then show ?thesis by (simp add: unat_word_ariths unat_of_nat take_bit_eq_mod mod_mult_left_eq)
  qed
  have e: "unat (start + len) = unat start + unat len" using fits l by (simp add: unat_word_ariths)
  have "flush_lines op line (start + len) start [] =
    Some (start + of_nat ?n * line, [] @ map (\<lambda>k. op (start + of_nat k * line)) [0..<?n])"
  proof (rule flush_lines_run)
    show "unat start + ?n * unat line < 2 ^ 32" using b(2) fits by linarith
    show "start + len \<le> start + of_nat ?n * line" using u [of ?n] b(1) e by (simp add: word_le_nat_alt)
    show "?n = 0 \<or> start + of_nat (?n - 1) * line < start + len"
    proof (cases "unat len = 0")
      case True
      then show ?thesis using b(2) l by (cases ?n) auto
    next
      case False
      then have "(?n - 1) * unat line < unat len" using b(3) by simp
      then show ?thesis using u [of "?n - 1"] e by (simp add: word_less_nat_alt)
    qed
  qed
  then show ?thesis by simp
qed

text \<open>The lines that are flushed: of the range, and one more if its start is not aligned.\<close>

definition flushed_at :: "alt_u32 \<Rightarrow> alt_u32 \<Rightarrow> alt_u32 \<Rightarrow> alt_u32 list" where
  "flushed_at line start len =
     (let n = steps (unat line) (unat len)
      in map (\<lambda>k. start + of_nat k * line) [0..<if start AND (line - 1) \<noteq> 0 then Suc n else n])"

lemma flush_range_eq:
  assumes "0 < unat line" "unat start + unat len + unat line \<le> 2 ^ 32"
  shows "flush_range op line start len = Some (map op (flushed_at line start len))"
  by (simp add: flush_range_def flush_lines_steps [OF assms] flushed_at_def Let_def comp_def)

lemma unaligned: "b < 32 \<Longrightarrow> start AND (2 ^ b - 1) \<noteq> 0 \<longleftrightarrow> unat start mod 2 ^ b \<noteq> 0" for start :: alt_u32
proof -
  assume "b < 32"
  have "start AND (2 ^ b - 1) = take_bit b start" by (simp add: take_bit_eq_mask mask_eq_exp_minus_1)
  moreover have "unat (take_bit b start) = unat start mod 2 ^ b"
    unfolding unsigned_take_bit_eq by (rule take_bit_eq_mod)
  ultimately show ?thesis by (metis unat_eq_zero)
qed

lemma unat_line: "b < 32 \<Longrightarrow> unat (2 ^ b :: alt_u32) = 2 ^ b"
proof -
  assume "b < 32"
  then have "(2 :: nat) ^ b < 2 ^ 32" by (intro power_strict_increasing) simp_all
  then have "unat (of_nat (2 ^ b) :: alt_u32) = 2 ^ b" by (simp only: unat_of_nat take_bit_nat_eq_self_iff) simp
  then show ?thesis by simp
qed

text \<open>Every byte of the range lies in a line that is flushed.\<close>

lemma flushed_at_covers:
  assumes line: "line = 2 ^ b" "b < 32" and fits: "unat start + unat len + 2 ^ b \<le> 2 ^ 32"
    and a: "unat start \<le> a" "a < unat start + unat len"
  shows "\<exists>x\<in>set (flushed_at line start len). unat x div 2 ^ b = a div 2 ^ b"
proof -
  define l :: nat where "l = 2 ^ b"
  define n where "n = steps l (unat len)"
  have l: "unat line = l" "0 < l" using unat_line line by (simp_all add: l_def)
  define q where "q = unat start div l"
  define r where "r = unat start mod l"
  define k where "k = (r + (a - unat start)) div l"
  have s: "unat start = q * l + r" "r < l" using l(2) by (simp_all add: q_def r_def)
  have ad: "a = q * l + (r + (a - unat start))" using a(1) s(1) by linarith
  have "a div l = q + k" unfolding k_def by (subst ad) (use l(2) in simp)
  moreover have k: "k < (if start AND (line - 1) \<noteq> 0 then Suc n else n)"
  proof -
    have n: "unat len \<le> n * l" unfolding n_def by (rule steps_bounds [OF l(2)])
    have "k < m" if "r + (a - unat start) < m * l" for m
      using that l(2) by (simp add: k_def less_mult_imp_div_less)
    moreover have "r + (a - unat start) < Suc n * l" using s(2) a n by simp
    moreover have "r + (a - unat start) < n * l" if "r = 0" using that a n by linarith
    ultimately show ?thesis using unaligned [OF line(2), of start] line(1) by (simp add: r_def l_def)
  qed
  moreover have "unat (start + of_nat k * line) = unat start + k * l"
  proof -
    have "k \<le> n" using k by (simp split: if_splits)
    then have "k * l \<le> n * l" by simp
    moreover have "n * l < unat len + l" unfolding n_def by (rule steps_bounds [OF l(2)])
    moreover have "unat start + unat len + l \<le> 2 ^ 32" using fits by (simp add: l_def)
    ultimately have "k * l < 2 ^ 32" "unat start + k * l < 2 ^ 32" by linarith+
    then show ?thesis using l(1) by (simp add: unat_word_ariths unat_of_nat take_bit_eq_mod mod_mult_left_eq)
  qed
  moreover have "(unat start + k * l) div l = q + k" using l(2) by (simp add: q_def)
  ultimately show ?thesis
    by (intro bexI [of _ "start + of_nat k * line"]) (simp_all add: flushed_at_def l n_def [symmetric] l_def [symmetric])
qed

text \<open>
  A direct-mapped cache of \<open>S\<close> bytes keeps an address in the place \<open>line_index S l\<close>. Addresses
  that differ by a multiple of \<open>S\<close> share it, so flushing \<open>S\<close> bytes flushes everything.
\<close>

definition line_index :: "nat \<Rightarrow> nat \<Rightarrow> nat \<Rightarrow> nat" where
  "line_index S l a = (a div l) mod (S div l)"

lemma line_index_wrap: "0 < l \<Longrightarrow> l dvd S \<Longrightarrow> line_index S l (a + m * S) = line_index S l a"
proof -
  assume l: "0 < l" "l dvd S"
  then have "a + m * S = a + (m * (S div l)) * l" by simp
  then have "(a + m * S) div l = a div l + m * (S div l)" using l(1) by (simp only: div_mult_self1)
  then show ?thesis by (simp add: line_index_def)
qed

lemma trimmed_covers:
  assumes line: "line = 2 ^ b" "b < 32" and S: "2 ^ b dvd unat S" "0 < unat S"
    and fits: "unat start + unat len + 2 ^ b \<le> 2 ^ 32" and a: "unat start \<le> a" "a < unat start + unat len"
  shows "\<exists>x\<in>set (flushed_at line start (if len > S then S else len)).
    line_index (unat S) (2 ^ b) (unat x) = line_index (unat S) (2 ^ b) a"
proof (cases "len > S")
  case False
  obtain x where "x \<in> set (flushed_at line start len)" "unat x div 2 ^ b = a div 2 ^ b"
    using flushed_at_covers [OF line fits a] by blast
  then show ?thesis using False by (intro bexI [of _ x]) (simp_all add: line_index_def)
next
  case True
  define d where "d = a - unat start"
  let ?a = "unat start + d mod unat S"
  have "unat S < unat len" using True by (simp add: word_less_nat_alt)
  then have "unat start + unat S + 2 ^ b \<le> 2 ^ 32" using fits by linarith
  from flushed_at_covers [OF line this, of ?a] S(2) obtain x where
    x: "x \<in> set (flushed_at line start S)" "unat x div 2 ^ b = ?a div 2 ^ b" by auto
  have "a = ?a + (d div unat S) * unat S" using a(1) by (simp add: d_def)
  then have "line_index (unat S) (2 ^ b) a = line_index (unat S) (2 ^ b) ?a"
    using line_index_wrap [of "2 ^ b" "unat S" ?a "d div unat S"] S(1) by simp
  with x(2) have "line_index (unat S) (2 ^ b) (unat x) = line_index (unat S) (2 ^ b) a"
    by (simp only: line_index_def)
  then show ?thesis using x(1) True by (intro bexI [of _ x]) simp_all
qed

text \<open>
  Flushing a range, away from the end of the address space and with lines of a power of two: the
  call returns, and the line of every byte of the range is flushed, by its address or by its
  place in the cache.
\<close>

lemma dcache_flush_covers:
  assumes line: "NIOS2_DCACHE_LINE_SIZE c = 2 ^ b" "b < 32"
    and S: "2 ^ b dvd unat (NIOS2_DCACHE_SIZE c)" "0 < unat (NIOS2_DCACHE_SIZE c)"
    and fits: "unat start + unat len + 2 ^ b \<le> 2 ^ 32" and a: "unat start \<le> a" "a < unat start + unat len"
  shows "\<exists>ops x. alt_dcache_flush c start len = Some ops \<and>
    (if NIOS2_FLUSHDA_SUPPORTED c then Flushda x \<in> set ops \<and> unat x div 2 ^ b = a div 2 ^ b
     else Flushd x \<in> set ops \<and> line_index (unat (NIOS2_DCACHE_SIZE c)) (2 ^ b) (unat x) =
       line_index (unat (NIOS2_DCACHE_SIZE c)) (2 ^ b) a)"
proof -
  let ?S = "NIOS2_DCACHE_SIZE c"
  let ?len = "if \<not> NIOS2_FLUSHDA_SUPPORTED c \<and> len > ?S then ?S else len"
  have l: "unat (NIOS2_DCACHE_LINE_SIZE c) = 2 ^ b" using unat_line [OF line(2)] line(1) by simp
  then have lp: "0 < unat (NIOS2_DCACHE_LINE_SIZE c)" by simp
  have "unat ?len \<le> unat len" by (simp add: word_less_nat_alt)
  then have fits': "unat start + unat ?len + unat (NIOS2_DCACHE_LINE_SIZE c) \<le> 2 ^ 32" using fits l by linarith
  have pos: "?S > 0" using S(2) by (simp add: word_less_nat_alt)
  have "alt_dcache_flush c start len = Some (map (if NIOS2_FLUSHDA_SUPPORTED c then Flushda else Flushd)
      (flushed_at (NIOS2_DCACHE_LINE_SIZE c) start ?len))"
    unfolding alt_dcache_flush_def Let_def flush_range_eq [OF lp fits'] using pos by simp
  then show ?thesis
    using flushed_at_covers [OF line fits a] trimmed_covers [OF line S fits a]
    by (cases "NIOS2_FLUSHDA_SUPPORTED c") (auto simp: image_iff Bex_def)
qed

lemma icache_flush_covers:
  assumes line: "NIOS2_ICACHE_LINE_SIZE c = 2 ^ b" "b < 32"
    and S: "2 ^ b dvd unat (NIOS2_ICACHE_SIZE c)" "0 < unat (NIOS2_ICACHE_SIZE c)"
    and fits: "unat start + unat len + 2 ^ b \<le> 2 ^ 32" and a: "unat start \<le> a" "a < unat start + unat len"
  shows "\<exists>ops x. alt_icache_flush c start len = Some (ops @ [Flushp]) \<and> Flushi x \<in> set ops \<and>
    line_index (unat (NIOS2_ICACHE_SIZE c)) (2 ^ b) (unat x) = line_index (unat (NIOS2_ICACHE_SIZE c)) (2 ^ b) a"
proof -
  let ?S = "NIOS2_ICACHE_SIZE c"
  let ?len = "if len > ?S then ?S else len"
  have l: "unat (NIOS2_ICACHE_LINE_SIZE c) = 2 ^ b" using unat_line [OF line(2)] line(1) by simp
  then have lp: "0 < unat (NIOS2_ICACHE_LINE_SIZE c)" by simp
  have "unat ?len \<le> unat len" by (simp add: word_less_nat_alt)
  then have fits': "unat start + unat ?len + unat (NIOS2_ICACHE_LINE_SIZE c) \<le> 2 ^ 32" using fits l by linarith
  have "?S > 0" using S(2) by (simp add: word_less_nat_alt)
  then have "alt_icache_flush c start len = Some (map Flushi (flushed_at (NIOS2_ICACHE_LINE_SIZE c) start ?len) @ [Flushp])"
    unfolding alt_icache_flush_def Let_def flush_range_eq [OF lp fits'] by simp
  then show ?thesis using trimmed_covers [OF line S fits a] by (auto simp: image_iff Bex_def)
qed

lemma dcache_flush_all_covers:
  assumes line: "NIOS2_DCACHE_LINE_SIZE c = 2 ^ b" "b < 32"
    and S: "2 ^ b dvd unat (NIOS2_DCACHE_SIZE c)" "0 < unat (NIOS2_DCACHE_SIZE c)"
      "unat (NIOS2_DCACHE_SIZE c) + 2 ^ b \<le> 2 ^ 32"
  shows "\<exists>ops x. alt_dcache_flush_all c = Some ops \<and> Flushd x \<in> set ops \<and>
    line_index (unat (NIOS2_DCACHE_SIZE c)) (2 ^ b) (unat x) = line_index (unat (NIOS2_DCACHE_SIZE c)) (2 ^ b) a"
proof -
  let ?S = "NIOS2_DCACHE_SIZE c" and ?l = "NIOS2_DCACHE_LINE_SIZE c"
  have l: "unat ?l = 2 ^ b" using unat_line [OF line(2)] line(1) by simp
  then have lp: "0 < unat ?l" by simp
  have fits: "unat (0 :: alt_u32) + unat ?S + unat ?l \<le> 2 ^ 32" using S(3) l by simp
  have "alt_dcache_flush_all c = Some (map Flushd (flushed_at ?l 0 ?S))"
    using flush_lines_steps [OF lp fits, of Flushd] S(2)
    by (simp add: alt_dcache_flush_all_def flushed_at_def Let_def comp_def word_less_nat_alt)
  moreover obtain x where x: "x \<in> set (flushed_at ?l 0 ?S)" "unat x div 2 ^ b = (a mod unat ?S) div 2 ^ b"
    using flushed_at_covers [OF line, of 0 ?S "a mod unat ?S"] S(2,3) by auto
  moreover have "line_index (unat ?S) (2 ^ b) a = line_index (unat ?S) (2 ^ b) (a mod unat ?S)"
    using line_index_wrap [of "2 ^ b" "unat ?S" "a mod unat ?S" "a div unat ?S"] S(1) by simp
  ultimately show ?thesis
    by (intro exI [of _ "map Flushd (flushed_at ?l 0 ?S)"] exI [of _ x]) (simp only: line_index_def set_map image_eqI simp_thms)
qed

text \<open>
  At the end of the address space the arithmetic of the loop wraps around. A range that ends with
  the last byte is not flushed at all; one that ends inside the last line is never done.
\<close>

lemma flush_to_the_end: "start AND (line - 1) = 0 \<Longrightarrow> start + len = 0 \<Longrightarrow> flush_range op line start len = Some []"
  by (simp add: flush_range_def flush_lines.simps [of _ _ _ start])

lemma flush_last_line:
  assumes line: "line = 2 ^ b" "b < 32" and aligned: "2 ^ b dvd unat i" and limit: "2 ^ 32 - 2 ^ b < unat limit"
  shows "flush_lines op line limit i ops = None"
proof -
  have "line = 2 ^ b \<longrightarrow> 2 ^ b dvd unat i \<longrightarrow> 2 ^ 32 - 2 ^ b < unat limit \<longrightarrow> False"
    if "flush_lines op line limit i ops = Some r" for op line limit i ops r
  proof (rule flush_lines.raw_induct [OF _ that], goal_cases)
    case (1 w op line limit i ops r)
    show ?case
    proof (intro impI)
      assume h: "line = 2 ^ b" "2 ^ b dvd unat i" "2 ^ 32 - 2 ^ b < unat limit"
      obtain q where q: "unat i = 2 ^ b * q" using h(2) by (rule dvdE)
      have p: "(2 :: nat) ^ 32 = 2 ^ b * 2 ^ (32 - b)" using line(2) by (simp add: power_add [symmetric])
      have "2 ^ b * q < 2 ^ b * 2 ^ (32 - b)" using unat32_lt [of i] unfolding q p [symmetric] by simp
      then have "2 ^ b * Suc q \<le> 2 ^ b * 2 ^ (32 - b)" by (intro mult_le_mono2) simp
      then have "unat i + 2 ^ b \<le> 2 ^ 32" unfolding q p by (simp only: mult_Suc_right add.commute)
      then have "i < limit" using h(3) by (simp add: word_less_nat_alt)
      then have w: "w op line limit (i + line) (ops @ [op i]) = Some r" using 1(2) by simp
      have "2 ^ b dvd unat (i + line)"
      proof -
        have "(2 :: nat) ^ b dvd 2 ^ 32" using line(2) by (intro le_imp_power_dvd) simp
        then show ?thesis
          using h(1,2) unat_line [OF line(2)] dvd_mod_iff [of "2 ^ b" "2 ^ 32" "unat i + 2 ^ b"]
          by (simp add: unat_word_ariths)
      qed
      then show False using 1(1) [OF w] h by blast
    qed
  qed
  then show ?thesis using assms by (cases "flush_lines op line limit i ops") blast+
qed

end
