(* ===== verification/Runtime.thy ===== *)
theory Runtime
  imports Fd_Table
begin

text \<open>
  The rest of the run-time library: loading of sections (\<open>alt_load.c\<close>), the system calls that
  only report an error, signals (\<open>alt_kill.c\<close>), exceptions with their handlers, addresses that bypass the
  data cache, the system identifier, and the DMA channels and flash devices with their
  registries. A call that sets \<open>errno\<close> takes the old value and returns the new one.
\<close>

section \<open>Loading sections\<close>

text \<open>
  A section is copied word by word until the destination pointer meets the end exactly;
  \<open>None\<close>: it never does.
\<close>

partial_function (option) load_words ::
    "alt_u32 \<Rightarrow> alt_u32 \<Rightarrow> alt_u32 \<Rightarrow> (alt_u32 \<Rightarrow> alt_u32) \<Rightarrow> (alt_u32 \<Rightarrow> alt_u32) option" where
  "load_words from to limit mem =
     (if to = limit then Some mem else load_words (from + 4) (to + 4) limit (mem(to := mem from)))"

definition alt_load_section ::
    "alt_u32 \<Rightarrow> alt_u32 \<Rightarrow> alt_u32 \<Rightarrow> (alt_u32 \<Rightarrow> alt_u32) \<Rightarrow> (alt_u32 \<Rightarrow> alt_u32) option" where
  "alt_load_section from to limit mem = (if to \<noteq> from then load_words from to limit mem else Some mem)"

text \<open>The three sections in their order; each is (from, to, end). The caches do not exist.\<close>

definition alt_load ::
    "alt_u32 \<times> alt_u32 \<times> alt_u32 \<Rightarrow> alt_u32 \<times> alt_u32 \<times> alt_u32 \<Rightarrow> alt_u32 \<times> alt_u32 \<times> alt_u32 \<Rightarrow>
     (alt_u32 \<Rightarrow> alt_u32) \<Rightarrow> (alt_u32 \<Rightarrow> alt_u32) option" where
  "alt_load rwdata exceptions rodata mem =
     Option.bind (case rwdata of (f, t, e) \<Rightarrow> alt_load_section f t e mem) (\<lambda>mem.
     Option.bind (case exceptions of (f, t, e) \<Rightarrow> alt_load_section f t e mem) (\<lambda>mem.
     case rodata of (f, t, e) \<Rightarrow> alt_load_section f t e mem))"

text \<open>
  The words of a section where it is stored and where it goes; a section that is stored in its
  place is not copied.
\<close>

type_synonym load_section = "alt_u32 \<times> alt_u32 \<times> alt_u32"

definition word_at :: "alt_u32 \<Rightarrow> nat \<Rightarrow> alt_u32" where
  "word_at a i = a + 4 * of_nat i"

definition sec_len :: "load_section \<Rightarrow> nat" where
  "sec_len x = (case x of (from, to, limit) \<Rightarrow> unat (limit - to) div 4)"

definition sec_aligned :: "load_section \<Rightarrow> bool" where
  "sec_aligned x = (case x of (from, to, limit) \<Rightarrow> to = from \<or> 4 dvd unat (limit - to))"

definition sources :: "load_section \<Rightarrow> alt_u32 set" where
  "sources x = word_at (fst x) ` {..<sec_len x}"

definition targets :: "load_section \<Rightarrow> alt_u32 set" where
  "targets x = (if fst (snd x) = fst x then {} else word_at (fst (snd x)) ` {..<sec_len x})"

definition holds_image :: "load_section \<Rightarrow> (alt_u32 \<Rightarrow> alt_u32) \<Rightarrow> (alt_u32 \<Rightarrow> alt_u32) \<Rightarrow> bool" where
  "holds_image x rom mem \<longleftrightarrow> (\<forall>i < sec_len x. mem (word_at (fst (snd x)) i) = rom (word_at (fst x) i))"

lemma word_at_simps: "word_at a 0 = a" "word_at (a + 4) i = word_at a (Suc i)"
  by (simp_all add: word_at_def algebra_simps)

lemma sec_len_bound: "sec_len x < 2 ^ 30"
  using unat32_lt [of "snd (snd x) - fst (snd x)"] by (simp add: sec_len_def split_beta)

lemma word_at_neq: "0 < n \<Longrightarrow> n < 2 ^ 30 \<Longrightarrow> a \<noteq> word_at a n"
proof
  assume n: "0 < n" "n < 2 ^ 30" and "a = word_at a n"
  then have "(of_nat (4 * n) :: alt_u32) = 0" by (simp add: word_at_def)
  then have "unat (of_nat (4 * n) :: alt_u32) = 0" by simp
  moreover have "unat (of_nat (4 * n) :: alt_u32) = 4 * n"
    using n(2) by (simp only: unat_of_nat take_bit_nat_eq_self_iff) simp
  ultimately show False using n(1) by simp
qed

lemma limit_word_at: "4 dvd unat (limit - to) \<Longrightarrow> limit = word_at to (sec_len (from, to, limit))"
proof -
  assume "4 dvd unat (limit - to)"
  then have "4 * (unat (limit - to) div 4) = unat (limit - to)" by simp
  then have "of_nat (4 * (unat (limit - to) div 4)) = limit - to" by simp
  then have "(4 :: alt_u32) * of_nat (unat (limit - to) div 4) = limit - to" by (simp only: of_nat_mult of_nat_numeral)
  then show ?thesis by (simp add: word_at_def sec_len_def)
qed

text \<open>The loop ends exactly when the end can be met in steps of a word.\<close>

lemma load_words_copies:
  "n < 2 ^ 30 \<Longrightarrow> load_words from to (word_at to n) mem =
     Some (fold (\<lambda>i m. m(word_at to i := m (word_at from i))) [0..<n] mem)"
proof (induction n arbitrary: "from" to mem)
  case (Suc n)
  have "to \<noteq> word_at to (Suc n)" using Suc.prems by (intro word_at_neq) simp_all
  then have "load_words from to (word_at to (Suc n)) mem =
      load_words (from + 4) (to + 4) (word_at (to + 4) n) (mem(to := mem from))"
    by (simp add: load_words.simps [of "from" to] word_at_simps)
  also have "\<dots> = Some (fold (\<lambda>i m. m(word_at (to + 4) i := m (word_at (from + 4) i))) [0..<n] (mem(to := mem from)))"
    using Suc.prems by (intro Suc.IH) simp
  also have "fold (\<lambda>i m. m(word_at (to + 4) i := m (word_at (from + 4) i))) [0..<n] (mem(to := mem from)) =
      fold (\<lambda>i m. m(word_at to i := m (word_at from i))) [0..<Suc n] mem"
    by (simp add: upt_conv_Cons map_Suc_upt [symmetric] fold_map word_at_simps comp_def del: upt_Suc map_Suc_upt)
  finally show ?case .
qed (simp add: load_words.simps word_at_simps)

lemma aligned_step: "4 dvd unat (w - 4) \<longleftrightarrow> 4 dvd unat w" for w :: alt_u32
proof -
  have u: "4 dvd unat v \<longleftrightarrow> 4 dvd uint v" for v :: alt_u32
    using of_nat_dvd_iff [where 'a = int, of 4 "unat v"] by simp
  have "4 dvd uint (w - 4) \<longleftrightarrow> 4 dvd (uint w - 4) mod 2 ^ 32" by (simp add: uint_word_ariths)
  also have "\<dots> \<longleftrightarrow> 4 dvd uint w - 4" by (rule dvd_mod_iff) simp
  also have "\<dots> \<longleftrightarrow> 4 dvd uint w" by presburger
  finally show ?thesis by (simp only: u)
qed

lemma load_words_aligned: "load_words from to limit mem = Some r \<Longrightarrow> 4 dvd unat (limit - to)"
proof (rule load_words.raw_induct [where P = "\<lambda>_ to limit _ _. 4 dvd unat (limit - to)"], goal_cases)
  case (1 w "from" to limit mem r)
  show ?case
  proof (cases "to = limit")
    case False
    then have "w (from + 4) (to + 4) limit (mem(to := mem from)) = Some r" using 1(3) by simp
    from 1(2) [OF this] show ?thesis using aligned_step [of "limit - to"] by (simp only: diff_diff_eq)
  qed simp
qed

lemma word_at_inj: "i < j \<Longrightarrow> j < 2 ^ 30 \<Longrightarrow> word_at a i \<noteq> word_at a j"
proof -
  assume ij: "i < j" "j < 2 ^ 30"
  then have "word_at a j = word_at (word_at a i) (j - i)" by (simp add: word_at_def algebra_simps of_nat_diff)
  then show ?thesis using word_at_neq [of "j - i" "word_at a i"] ij by simp
qed

lemma fold_copies:
  assumes "n < 2 ^ 30" "word_at to ` {..<n} \<inter> word_at from ` {..<n} = {}"
  shows "let m = fold (\<lambda>i m. m(word_at to i := m (word_at from i))) [0..<n] mem
    in (\<forall>i < n. m (word_at to i) = mem (word_at from i)) \<and> (\<forall>a. a \<notin> word_at to ` {..<n} \<longrightarrow> m a = mem a)"
  using assms
proof (induction n)
  case (Suc n)
  define m where "m = fold (\<lambda>i m. m(word_at to i := m (word_at from i))) [0..<n] mem"
  have IH: "\<forall>i < n. m (word_at to i) = mem (word_at from i)" "\<forall>a. a \<notin> word_at to ` {..<n} \<longrightarrow> m a = mem a"
    using Suc unfolding m_def Let_def by (auto simp: lessThan_Suc)
  have step: "fold (\<lambda>i m. m(word_at to i := m (word_at from i))) [0..<Suc n] mem = m(word_at to n := m (word_at from n))"
    by (simp add: m_def)
  have "word_at from n \<notin> word_at to ` {..<n}" using Suc.prems(2) by (auto simp: lessThan_Suc)
  then have "m (word_at from n) = mem (word_at from n)" using IH(2) by blast
  moreover have "word_at to i \<noteq> word_at to n" if "i < n" for i using word_at_inj that Suc.prems(1) by simp
  ultimately show ?case using IH unfolding step Let_def by (auto simp: less_Suc_eq lessThan_Suc)
qed simp

lemma section_loads:
  assumes "x = (from, to, limit)" "sec_aligned x" "targets x \<inter> sources x = {}"
  shows "\<exists>m. alt_load_section from to limit mem = Some m \<and> holds_image x mem m \<and> (\<forall>a. a \<notin> targets x \<longrightarrow> m a = mem a)"
proof (cases "to = from")
  case True
  then show ?thesis using assms(1) by (simp add: alt_load_section_def holds_image_def)
next
  case False
  then have l: "limit = word_at to (sec_len x)"
    using assms(1,2) limit_word_at [of limit to "from"] by (simp add: sec_aligned_def)
  let ?m = "fold (\<lambda>i m. m(word_at to i := m (word_at from i))) [0..<sec_len x] mem"
  have "alt_load_section from to limit mem = Some ?m"
    using False load_words_copies [OF sec_len_bound, of "from" to x mem] l by (simp add: alt_load_section_def)
  then show ?thesis
    using fold_copies [OF sec_len_bound, of to x "from" mem] assms(1,3) False
    by (intro exI [of _ ?m]) (simp add: targets_def sources_def holds_image_def Let_def)
qed

lemma section_diverges:
  "\<not> sec_aligned (from, to, limit) \<Longrightarrow> alt_load_section from to limit mem = None"
  using load_words_aligned [of "from" to limit mem] by (cases "load_words from to limit mem")
    (auto simp: sec_aligned_def alt_load_section_def)

lemma holds_image_keep:
  assumes "holds_image x rom m" "holds_image y rom m'" "\<forall>a. a \<notin> targets y \<longrightarrow> m' a = m a"
    and "x \<noteq> y \<Longrightarrow> targets y \<inter> word_at (fst (snd x)) ` {..<sec_len x} = {}"
  shows "holds_image x rom m'"
proof (cases "x = y")
  case False
  then have "word_at (fst (snd x)) i \<notin> targets y" if "i < sec_len x" for i using assms(4) that by blast
  then show ?thesis using assms(1,3) by (simp add: holds_image_def)
qed (use assms(2) in simp)

lemma holds_image_rom:
  "holds_image x m m' \<Longrightarrow> \<forall>a. a \<notin> T \<longrightarrow> m a = rom a \<Longrightarrow> sources x \<inter> T = {} \<Longrightarrow> holds_image x rom m'"
  by (auto simp: holds_image_def sources_def)

text \<open>
  C40. Loading. \<open>alt_load\<close> ends exactly when every section that has to be moved is a whole number
  of words (otherwise its loop runs past the end for ever). If no section is loaded over another
  one or over what is still to be read, each section then holds its stored words, and no other
  word of the memory has changed.
\<close>

theorem alt_load_sections:
  assumes disjoint: "\<And>x y. x \<in> {rwdata, exceptions, rodata} \<Longrightarrow> y \<in> {rwdata, exceptions, rodata} \<Longrightarrow>
      targets x \<inter> sources y = {} \<and> (x \<noteq> y \<longrightarrow> targets x \<inter> word_at (fst (snd y)) ` {..<sec_len y} = {})"
  shows "if sec_aligned rwdata \<and> sec_aligned exceptions \<and> sec_aligned rodata
    then \<exists>m. alt_load rwdata exceptions rodata mem = Some m \<and>
      holds_image rwdata mem m \<and> holds_image exceptions mem m \<and> holds_image rodata mem m \<and>
      (\<forall>a. a \<notin> targets rwdata \<union> targets exceptions \<union> targets rodata \<longrightarrow> m a = mem a)
    else alt_load rwdata exceptions rodata mem = None"
proof -
  obtain f1 t1 l1 f2 t2 l2 f3 t3 l3 where x: "rwdata = (f1, t1, l1)" "exceptions = (f2, t2, l2)" "rodata = (f3, t3, l3)"
    by (metis prod_cases3)
  let ?step1 = "alt_load_section f1 t1 l1 mem"
  note apart = disjoint [THEN conjunct1] and over = disjoint [THEN conjunct2, rule_format]
  have load: "alt_load rwdata exceptions rodata mem =
      Option.bind ?step1 (\<lambda>m. Option.bind (alt_load_section f2 t2 l2 m) (alt_load_section f3 t3 l3))"
    by (simp add: alt_load_def x)
  show ?thesis
  proof (cases "sec_aligned rwdata \<and> sec_aligned exceptions \<and> sec_aligned rodata")
    case False
    have "alt_load rwdata exceptions rodata mem = None"
    proof (rule ccontr)
      assume "alt_load rwdata exceptions rodata mem \<noteq> None"
      then obtain a b c where "?step1 = Some a" "alt_load_section f2 t2 l2 a = Some b" "alt_load_section f3 t3 l3 b = Some c"
        unfolding load by (auto simp: bind_eq_Some_conv)
      then show False using False section_diverges unfolding x by (metis option.distinct(1))
    qed
    then show ?thesis using False by simp
  next
    case True
    obtain a where a: "?step1 = Some a" "holds_image rwdata mem a" "\<forall>w. w \<notin> targets rwdata \<longrightarrow> a w = mem w"
      using section_loads [OF x(1) _ apart [of rwdata rwdata]] True by auto
    obtain b where b: "alt_load_section f2 t2 l2 a = Some b" "holds_image exceptions a b"
      "\<forall>w. w \<notin> targets exceptions \<longrightarrow> b w = a w"
      using section_loads [OF x(2) _ apart [of exceptions exceptions]] True by auto
    obtain c where c: "alt_load_section f3 t3 l3 b = Some c" "holds_image rodata b c"
      "\<forall>w. w \<notin> targets rodata \<longrightarrow> c w = b w"
      using section_loads [OF x(3) _ apart [of rodata rodata]] True by auto
    have rom2: "holds_image exceptions mem b"
      using holds_image_rom [OF b(2) a(3)] apart [of rwdata exceptions] by (simp add: Int_commute)
    have bm: "\<forall>w. w \<notin> targets rwdata \<union> targets exceptions \<longrightarrow> b w = mem w" using a(3) b(3) by auto
    have rom3: "holds_image rodata mem c"
      using holds_image_rom [OF c(2) bm] apart [of rwdata rodata] apart [of exceptions rodata] by (simp add: Int_Un_distrib Int_commute)
    have "holds_image rwdata mem b"
      by (rule holds_image_keep [OF a(2) rom2 b(3)]) (simp add: over)
    then have rw: "holds_image rwdata mem c"
      by (rule holds_image_keep [OF _ rom3 c(3)]) (simp add: over)
    have ex: "holds_image exceptions mem c"
      by (rule holds_image_keep [OF rom2 rom3 c(3)]) (simp add: over)
    have "\<forall>w. w \<notin> targets rwdata \<union> targets exceptions \<union> targets rodata \<longrightarrow> c w = mem w" using bm c(3) by auto
    then show ?thesis using True a(1) b(1) c(1) rw ex rom3 unfolding load by simp
  qed
qed

theorem alt_load_sections_witness:
  "\<exists>m. alt_load (0x100, 0x200, 0x208) (0, 0x20, 0x20) (0x300, 0x300, 0x340) (\<lambda>a. a) = Some m \<and>
     m 0x200 = 0x100 \<and> m 0x204 = 0x104 \<and> m 0x208 = 0x208"
proof -
  let ?rw = "(0x100, 0x200, 0x208) :: load_section" and ?ex = "(0, 0x20, 0x20) :: load_section"
    and ?ro = "(0x300, 0x300, 0x340) :: load_section"
  have n: "sec_len ?rw = 2" "sec_len ?ex = 0" "sec_len ?ro = 16" by (simp_all add: sec_len_def)
  have two: "{..<2} = {0, 1 :: nat}" by auto
  have s: "targets ?rw = {0x200, 0x204}" "sources ?rw = {0x100, 0x104}" "targets ?ex = {}" "sources ?ex = {}"
    "targets ?ro = {}" "sources ?ro = word_at 0x300 ` {..<16}"
    by (auto simp: targets_def sources_def n word_at_def two)
  have r: "{0x200, 0x204} \<inter> word_at 0x300 ` {..<16} = {}"
    by (auto simp: word_at_def lessThan_nat_numeral lessThan_Suc)
  have al: "sec_aligned ?rw" "sec_aligned ?ex" "sec_aligned ?ro" by (simp_all add: sec_aligned_def)
  have "targets x \<inter> sources y = {} \<and> (x \<noteq> y \<longrightarrow> targets x \<inter> word_at (fst (snd y)) ` {..<sec_len y} = {})"
    if "x \<in> {?rw, ?ex, ?ro}" "y \<in> {?rw, ?ex, ?ro}" for x y
    using that by (elim insertE emptyE; simp only: s n r fst_conv snd_conv; simp)
  from alt_load_sections [of ?rw ?ex ?ro "\<lambda>a. a", OF this] al obtain m where
    m: "alt_load ?rw ?ex ?ro (\<lambda>a. a) = Some m" "holds_image ?rw (\<lambda>a. a) m" "\<forall>a. a \<notin> {0x200, 0x204} \<longrightarrow> m a = a"
    by (auto simp: s)
  then show ?thesis by (simp add: holds_image_def n word_at_def less_2_cases_iff all_conj_distrib imp_disjL)
qed

section \<open>System calls without an implementation\<close>

definition alt_execve :: "int \<Rightarrow> int \<times> int" where
  "alt_execve errno = (- 1, ENOSYS)"

definition alt_fork :: "int \<Rightarrow> int \<times> int" where
  "alt_fork errno = (- 1, ENOSYS)"

definition alt_link :: "int \<Rightarrow> int \<times> int" where
  "alt_link errno = (- 1, ENOSYS)"

definition alt_unlink :: "int \<Rightarrow> int \<times> int" where
  "alt_unlink errno = (- 1, ENOSYS)"

definition alt_rename :: "int \<Rightarrow> int \<times> int" where
  "alt_rename errno = (- 1, ENOSYS)"

text \<open>\<open>wait\<close> also stores a status of 0.\<close>

definition alt_wait :: "int \<Rightarrow> int \<times> int \<times> int" where
  "alt_wait errno = (- 1, 0, ECHILD)"

definition alt_getpid :: int where
  "alt_getpid = 0"

section \<open>Signals\<close>

text \<open>
  \<open>kill\<close> either ends the program (\<open>None\<close>) or returns. The numbers are those of newlib's
  \<open>signal.h\<close>; the process is alone, so only \<open>pid <= 0\<close> reaches it.
\<close>

definition fatal_signals :: "int list" where
  "fatal_signals = [6, 14, 8, 4, 9, 13, 3, 11, 15, 30, 31, 10, 23, 27, 12, 5, 26, 24, 25]"

definition alt_kill :: "int \<Rightarrow> int \<Rightarrow> int \<Rightarrow> (int \<times> int) option" where
  "alt_kill pid sig errno =
     (if pid \<le> 0 \<and> sig \<in> set fatal_signals then None
      else (let status = (if pid \<le> 0 then (if sig = 0 \<or> sig = 20 \<or> sig = 16 then 0 else EINVAL) else ESRCH)
            in if status \<noteq> 0 then Some (- 1, status) else Some (0, errno)))"

section \<open>Exceptions\<close>

text \<open>The causes of \<open>sys/alt_exceptions.h\<close> whose bad address register is meaningful.\<close>

definition alt_exception_cause_generated_bad_addr :: "int \<Rightarrow> int" where
  "alt_exception_cause_generated_bad_addr cause =
     (if cause \<in> {6, 7, 11, 14, 15, 17, 21} then 1 else 0)"

text \<open>
  Handlers that a program can register (the code is there with
  \<open>ALT_INCLUDE_INSTRUCTION_RELATED_EXCEPTION_API\<close>): a null pointer is \<open>None\<close>. The entry is called
  with the address of the instruction; \<open>info\<close> are the exception and bad address registers, which
  a processor has only with extra exception information (this one has not). It yields
  whether it stopped in the debugger, and what it tells the assembly code: 0 to issue the
  instruction again, 1 to skip it.
\<close>

record 'w exceptions =
  alt_instruction_exception_handler :: "(alt_u32 \<Rightarrow> alt_u32 \<Rightarrow> alt_u32 \<Rightarrow> 'w \<Rightarrow> int \<times> 'w) option"
  alt_exception_ecc_fatal_handler :: alt_u32

definition alt_instruction_exception_register ::
    "(alt_u32 \<Rightarrow> alt_u32 \<Rightarrow> alt_u32 \<Rightarrow> 'w \<Rightarrow> int \<times> 'w) option \<Rightarrow> 'w exceptions \<Rightarrow> 'w exceptions" where
  "alt_instruction_exception_register exception_handler s =
     s\<lparr>alt_instruction_exception_handler := exception_handler\<rparr>"

definition alt_ecc_fatal_exception_register :: "alt_u32 \<Rightarrow> 'w exceptions \<Rightarrow> 'w exceptions" where
  "alt_ecc_fatal_exception_register h s = s\<lparr>alt_exception_ecc_fatal_handler := h\<rparr>"

abbreviation (input) NIOS2_EXCEPTION_CAUSE_NOT_PRESENT :: alt_u32 where "NIOS2_EXCEPTION_CAUSE_NOT_PRESENT \<equiv> - 1"
abbreviation (input) NIOS2_EXCEPTION_REG_CAUSE_MASK :: alt_u32 where "NIOS2_EXCEPTION_REG_CAUSE_MASK \<equiv> 0x7C"

definition alt_instruction_exception_entry ::
    "(alt_u32 \<times> alt_u32) option \<Rightarrow> alt_u32 \<Rightarrow> 'w exceptions \<Rightarrow> 'w \<Rightarrow> bool \<times> int \<times> 'w" where
  "alt_instruction_exception_entry info exception_pc s w =
     (let (cause, badaddr) = (case info of
            Some (exception, bad) \<Rightarrow> (drop_bit 2 (exception AND NIOS2_EXCEPTION_REG_CAUSE_MASK), bad)
          | None \<Rightarrow> (NIOS2_EXCEPTION_CAUSE_NOT_PRESENT, 0))
      in case alt_instruction_exception_handler s of
           Some h \<Rightarrow> (False, h cause exception_pc badaddr w)
         | None \<Rightarrow> (True, 0, w))"

text \<open>With the registers present, a handler gets one of 32 causes, which \<open>-1\<close> is not.\<close>

lemma exception_cause_range: "unat (drop_bit 2 (e AND NIOS2_EXCEPTION_REG_CAUSE_MASK)) < 32" for e :: alt_u32
proof -
  have "unat (e AND 0x7C) \<le> 0x7C" using word_and_le1 [of e "0x7C"] by (simp add: word_le_nat_alt)
  then have "drop_bit 2 (unat (e AND 0x7C)) < 32" by (simp add: drop_bit_eq_div)
  then show ?thesis by (simp only: unat_drop_bit_eq)
qed

section \<open>Bypassing the cache\<close>

text \<open>Without an MMU bit 31 of an address bypasses the data cache; flushing does nothing here.\<close>

abbreviation (input) BYPASS_DCACHE_MASK :: alt_u32 where "BYPASS_DCACHE_MASK \<equiv> 0x80000000"

definition alt_remap_cached :: "alt_u32 \<Rightarrow> alt_u32 \<Rightarrow> alt_u32" where
  "alt_remap_cached ptr len = ptr AND NOT BYPASS_DCACHE_MASK"

definition alt_remap_uncached :: "alt_u32 \<Rightarrow> alt_u32 \<Rightarrow> alt_u32" where
  "alt_remap_uncached ptr len = ptr OR BYPASS_DCACHE_MASK"

text \<open>\<open>malloc\<close> and \<open>free\<close> are the C library's: arguments of the model.\<close>

definition alt_uncached_malloc :: "(alt_u32 \<Rightarrow> 'm \<Rightarrow> alt_u32 \<times> 'm) \<Rightarrow> alt_u32 \<Rightarrow> 'm \<Rightarrow> alt_u32 \<times> 'm" where
  "alt_uncached_malloc malloc len m =
     (let (ptr, m) = malloc len m in (if ptr \<noteq> 0 then ptr OR BYPASS_DCACHE_MASK else 0, m))"

definition alt_uncached_free :: "(alt_u32 \<Rightarrow> 'm \<Rightarrow> 'm) \<Rightarrow> alt_u32 \<Rightarrow> 'm \<Rightarrow> 'm" where
  "alt_uncached_free free ptr m = free (ptr AND NOT BYPASS_DCACHE_MASK) m"

section \<open>The system identifier\<close>

definition alt_avalon_sysid_qsys_test :: "alt_u32 \<Rightarrow> alt_u32 \<Rightarrow> alt_u32 \<Rightarrow> alt_u32 \<Rightarrow> int" where
  "alt_avalon_sysid_qsys_test SYSID_ID SYSID_TIMESTAMP hardware_id hardware_timestamp =
     (if SYSID_TIMESTAMP = hardware_timestamp \<and> SYSID_ID = hardware_id then 0
      else if sint (hardware_timestamp - SYSID_TIMESTAMP) > 0 then 1 else - 1)"

section \<open>DMA channels and flash devices\<close>

text \<open>
  The heads of their lists are arguments; a channel or device is the address of its structure,
  \<open>None\<close> a null pointer. The functions of a structure are functions of its driver's state.
\<close>

record 'd txchan =
  tx_space :: "'d \<Rightarrow> int"
  tx_send :: "alt_u32 \<Rightarrow> alt_u32 \<Rightarrow> nat \<Rightarrow> nat \<Rightarrow> 'd \<Rightarrow> int \<times> 'd"
  tx_ioctl :: "int \<Rightarrow> nat \<Rightarrow> 'd \<Rightarrow> int \<times> 'd"

record 'd rxchan =
  rx_depth :: alt_u32
  rx_prepare :: "alt_u32 \<Rightarrow> alt_u32 \<Rightarrow> nat \<Rightarrow> nat \<Rightarrow> 'd \<Rightarrow> int \<times> 'd"
  rx_ioctl :: "int \<Rightarrow> nat \<Rightarrow> 'd \<Rightarrow> int \<times> 'd"

definition alt_dma_txchan_reg :: "nat \<Rightarrow> nat option \<Rightarrow> 'w hal \<Rightarrow> int \<times> 'w hal" where
  "alt_dma_txchan_reg alt_dma_txchan_list dev s = alt_dev_llist_insert dev alt_dma_txchan_list s"

definition alt_dma_rxchan_reg :: "nat \<Rightarrow> nat option \<Rightarrow> 'w hal \<Rightarrow> int \<times> 'w hal" where
  "alt_dma_rxchan_reg alt_dma_rxchan_list dev s = alt_dev_llist_insert dev alt_dma_rxchan_list s"

definition alt_dma_txchan_open :: "nat \<Rightarrow> string \<Rightarrow> 'w hal \<Rightarrow> (nat option \<times> 'w hal) c_res" where
  "alt_dma_txchan_open alt_dma_txchan_list name s =
     res_bind (alt_find_dev name alt_dma_txchan_list s) (\<lambda>dev.
       Inr (dev, if dev = None then s\<lparr>alt_errno := ENODEV\<rparr> else s))"

definition alt_dma_rxchan_open :: "nat \<Rightarrow> string \<Rightarrow> 'w hal \<Rightarrow> (nat option \<times> 'w hal) c_res" where
  "alt_dma_rxchan_open alt_dma_rxchan_list name s =
     res_bind (alt_find_dev name alt_dma_rxchan_list s) (\<lambda>dev.
       Inr (dev, if dev = None then s\<lparr>alt_errno := ENODEV\<rparr> else s))"

definition alt_dma_txchan_close :: "'d txchan option \<Rightarrow> int" where
  "alt_dma_txchan_close dma = 0"

definition alt_dma_txchan_send ::
    "'d txchan option \<Rightarrow> alt_u32 \<Rightarrow> alt_u32 \<Rightarrow> nat \<Rightarrow> nat \<Rightarrow> 'd \<Rightarrow> int \<times> 'd" where
  "alt_dma_txchan_send dma from len done_fn handle d =
     (case dma of Some c \<Rightarrow> tx_send c from len done_fn handle d | None \<Rightarrow> (- ENODEV, d))"

definition alt_dma_txchan_space :: "'d txchan option \<Rightarrow> 'd \<Rightarrow> int" where
  "alt_dma_txchan_space dma d = (case dma of Some c \<Rightarrow> tx_space c d | None \<Rightarrow> - ENODEV)"

definition alt_dma_txchan_ioctl :: "'d txchan option \<Rightarrow> int \<Rightarrow> nat \<Rightarrow> 'd \<Rightarrow> int \<times> 'd" where
  "alt_dma_txchan_ioctl dma req arg d =
     (case dma of Some c \<Rightarrow> tx_ioctl c req arg d | None \<Rightarrow> (- ENODEV, d))"

definition alt_dma_rxchan_close :: "'d rxchan option \<Rightarrow> int" where
  "alt_dma_rxchan_close dma = 0"

definition alt_dma_rxchan_prepare ::
    "'d rxchan option \<Rightarrow> alt_u32 \<Rightarrow> alt_u32 \<Rightarrow> nat \<Rightarrow> nat \<Rightarrow> 'd \<Rightarrow> int \<times> 'd" where
  "alt_dma_rxchan_prepare dma data len done_fn handle d =
     (case dma of Some c \<Rightarrow> rx_prepare c data len done_fn handle d | None \<Rightarrow> (- ENODEV, d))"

definition alt_dma_rxchan_ioctl :: "'d rxchan option \<Rightarrow> int \<Rightarrow> nat \<Rightarrow> 'd \<Rightarrow> int \<times> 'd" where
  "alt_dma_rxchan_ioctl dma req arg d =
     (case dma of Some c \<Rightarrow> rx_ioctl c req arg d | None \<Rightarrow> (- ENODEV, d))"

text \<open>The depth is read without a test.\<close>

definition alt_dma_rxchan_depth :: "'d rxchan option \<Rightarrow> alt_u32 c_res" where
  "alt_dma_rxchan_depth dma = (case dma of Some c \<Rightarrow> Inr (rx_depth c) | None \<Rightarrow> Inl NullDeref)"

record 'd flash_dev =
  fl_open :: "(nat \<Rightarrow> string \<Rightarrow> nat option) option"
  fl_close :: "(nat \<Rightarrow> 'd \<Rightarrow> int \<times> 'd) option"
  fl_write :: "int \<Rightarrow> alt_u8 list \<Rightarrow> int \<Rightarrow> 'd \<Rightarrow> int \<times> 'd"
  fl_read :: "int \<Rightarrow> int \<Rightarrow> 'd \<Rightarrow> int \<times> alt_u8 list"
  fl_get_info :: "'d \<Rightarrow> int \<times> nat \<times> int"
  fl_erase_block :: "int \<Rightarrow> 'd \<Rightarrow> int \<times> 'd"
  fl_write_block :: "int \<Rightarrow> int \<Rightarrow> alt_u8 list \<Rightarrow> int \<Rightarrow> 'd \<Rightarrow> int \<times> 'd"

definition alt_flash_device_register :: "nat \<Rightarrow> nat option \<Rightarrow> 'w hal \<Rightarrow> int \<times> 'w hal" where
  "alt_flash_device_register alt_flash_dev_list fd s = alt_dev_llist_insert fd alt_flash_dev_list s"

definition alt_flash_open_dev ::
    "nat \<Rightarrow> (nat \<Rightarrow> 'd flash_dev) \<Rightarrow> string \<Rightarrow> 'w hal \<Rightarrow> nat option c_res" where
  "alt_flash_open_dev alt_flash_dev_list devs name s =
     res_bind (alt_find_dev name alt_flash_dev_list s) (\<lambda>dev.
       case dev of
         Some d \<Rightarrow> (case fl_open (devs d) of Some f \<Rightarrow> Inr (f d name) | None \<Rightarrow> Inr dev)
       | None \<Rightarrow> Inr dev)"

definition alt_flash_close_dev :: "(nat \<Rightarrow> 'd flash_dev) \<Rightarrow> nat option \<Rightarrow> 'd \<Rightarrow> 'd" where
  "alt_flash_close_dev devs fd d =
     (case fd of
        None \<Rightarrow> d
      | Some f \<Rightarrow> (case fl_close (devs f) of Some c \<Rightarrow> snd (c f d) | None \<Rightarrow> d))"

definition alt_write_flash :: "'d flash_dev \<Rightarrow> int \<Rightarrow> alt_u8 list \<Rightarrow> int \<Rightarrow> 'd \<Rightarrow> int \<times> 'd" where
  "alt_write_flash fd offset src len d = fl_write fd offset src len d"

definition alt_read_flash :: "'d flash_dev \<Rightarrow> int \<Rightarrow> int \<Rightarrow> 'd \<Rightarrow> int \<times> alt_u8 list" where
  "alt_read_flash fd offset len d = fl_read fd offset len d"

definition alt_get_flash_info :: "'d flash_dev \<Rightarrow> 'd \<Rightarrow> int \<times> nat \<times> int" where
  "alt_get_flash_info fd d = fl_get_info fd d"

definition alt_erase_flash_block :: "'d flash_dev \<Rightarrow> int \<Rightarrow> int \<Rightarrow> 'd \<Rightarrow> int \<times> 'd" where
  "alt_erase_flash_block fd offset len d = fl_erase_block fd offset d"

definition alt_write_flash_block ::
    "'d flash_dev \<Rightarrow> int \<Rightarrow> int \<Rightarrow> alt_u8 list \<Rightarrow> int \<Rightarrow> 'd \<Rightarrow> int \<times> 'd" where
  "alt_write_flash_block fd block_offset data_offset bytes len d =
     fl_write_block fd block_offset data_offset bytes len d"

end
