(* ===== verification/Spec2Isabelle.thy ===== *)
theory Spec2Isabelle
  imports RSA_Software Llist Irq Fd_Table File_Ops Clock Ring Jtag_Uart Jtag_Driver Jtag_System Boot Program Printing Log_Printf Io_Module Hw_Driver Handshake Computing_Unit Arith_Units Product_Units Exp_Units Key_Units Transaction Coprocessor Key_Values Exchange Hw_Session Heap Gmon Caches Runtime
begin

text \<open>
  Verification library of the RSA coprocessor's software (SystemVerilogRSA): the application
  \<open>final_project_finished/software/rsa/rsa_intonly.c\<close>, the mailbox hardware it drives, and the
  board support package under \<open>software/rsa_bsp\<close> it is linked with.

  The program. \<open>main\<close> asks for an option and runs RSA either in software
  (\<open>software_encrypt\<close>) or on the coprocessor (\<open>hardware_encrypt\<close>), which it reaches through
  four parallel ports. Its \<open>printf\<close> and \<open>scanf\<close> end in the system calls of the board support
  package, these in the JTAG UART's driver, which shares two ring buffers with its interrupt
  handler. \<open>alt_tick\<close> drives the alarms, one of which times out a silent host; this board has
  no timer, so there an alarm is refused and the driver waits for the host without a limit.

  The theories, in the order of their imports:

  \<^item> \<open>HAL_Prelude\<close>: outcomes of C code (a sum of a fault and a value), C's \<open>int\<close> with its range
    checks, words and masks, constants of newlib.
  \<^item> \<open>Number_Facts\<close>, \<open>RSA_Software\<close>: primality, Fermat and the RSA exponents; \<open>prime_checker\<close>,
    \<open>e_checker\<close>, \<open>encrypt\<close>, \<open>decrypt\<close>, the search for the private key and the session of
    \<open>software_encrypt\<close>.
  \<^item> \<open>Io_Module\<close>: \<open>io_module.sv\<close>, one clock edge at a time. \<open>Hw_Driver\<close>: \<open>main\<close> and
    \<open>hardware_encrypt\<close> as statements over the board; \<open>Handshake\<close>: triples for such statements
    and the exchange that sends a number.
  \<^item> \<open>Computing_Unit\<close>: the contract of the coprocessor's units (the interface \<open>computing_unit\<close>).
    \<open>Arith_Units\<close>, \<open>Product_Units\<close>, \<open>Exp_Units\<close>, \<open>Key_Units\<close>: the units themselves, from
    \<open>multiplier_sm.sv\<close> to \<open>rsa_encrypt.sv\<close> and \<open>generate_d.sv\<close>, each proved to meet it, and the
    prime checker.
  \<^item> \<open>Transaction\<close>: the exchange that starts a unit and fetches its result (the interface
    \<open>transaction\<close>); \<open>Coprocessor\<close>: the wiring of \<open>final_project.sv\<close>, which meets it for all seven
    jobs; \<open>Key_Values\<close>: what the units compute, in integers, and where that differs from the
    software (exponents below 1 when encrypting, exponent 1 when searching the key); \<open>Exchange\<close>, \<open>Hw_Session\<close>: the driver
    on the coprocessor, statement by statement up to the whole session.
  \<^item> \<open>Llist\<close>: the pointer lists of \<open>sys/alt_llist.h\<close> and the interface \<open>registry\<close>.
  \<^item> \<open>Irq\<close>: the interrupt controller, registration and dispatch; the interface \<open>irq_source\<close>;
    all sequences of calls (\<open>irq_run\<close>) against a specification line by line.
  \<^item> \<open>Fd_Table\<close>, \<open>File_Ops\<close>: descriptors, device registries and the system calls on them.
  \<^item> \<open>Clock\<close>: system clock, alarms, time of day, delays.
  \<^item> \<open>Ring\<close>, \<open>Jtag_Uart\<close>, \<open>Jtag_Driver\<close>, \<open>Jtag_System\<close>: ring buffers (the interface
    \<open>byte_queue\<close>), the UART's registers and interrupt handler, the foreground calls, and the
    runs of all of them together.
  \<^item> \<open>Printing\<close>, \<open>Log_Printf\<close>: \<open>alt_printf\<close> and the logging of \<open>alt_log_printf.c\<close>, against the
    numeral of a number in a base (\<open>numeral_in\<close>).
  \<^item> \<open>Boot\<close>, \<open>Program\<close>: \<open>alt_main\<close> from reset to the endless loop after \<open>main\<close>. Start-up
    establishes what the theorems about descriptors, interrupts and the UART assume; any
    application's system calls keep it; and all output is delivered in the end.
  \<^item> \<open>Heap\<close>, \<open>Gmon\<close>, \<open>Caches\<close>, \<open>Runtime\<close>: \<open>sbrk\<close>, profiling, the flush loops, loading of
    sections, and the small rest of the library.

  Correspondence. A definition has the name of the C function it translates where Isabelle
  allows it; static loops and blocks have names of their own, and the manifest gives the
  lines. A struct is a record, shared memory an explicit part of the state, a pointer to an object of
  known kind an address or an index. Machine integers are words of their width; C's signed arithmetic
  is \<open>int\<close> with a range check whose failure is \<open>SignedOverflow\<close>. A null dereference, an index
  out of bounds, exhausted input and a call that never returns are faults or \<open>None\<close>.

  Time and concurrency. The UART's foreground calls run in an environment that acts at every
  point where the code can be interrupted: any sequence of interrupts, time-outs and actions
  of the host. The interrupt handler itself is not interrupted, because interrupts are
  disabled, but the host acts before each of its accesses to the device, as it likes
  (\<open>host_env\<close>); the same holds for the polling driver and the log's output. The application and the coprocessor run
  together: the hardware makes at least one clock step between two accesses, how many more is arbitrary.
  A register of the hardware is read before the edge and written by it, as the synthesised circuit does.

  Loops. A loop that ends is a \<open>function\<close> with its measure. One that need not end is a
  \<open>partial_function\<close> whose value \<open>None\<close> means that it does not; no fuel is used. The
  statements that such a loop ends are part of the properties (reading and writing, the
  dispatch of interrupts, the walks over lists, the waits for the coprocessor). A unit's run is
  the inductive \<open>until\<close>; how many edges it takes is not stated, only that they are finitely many.

  What the lemmas show. Each component has its invariant and the lemmas that every operation
  keeps it (\<open>fds_ok\<close>, \<open>irq_ok\<close>, \<open>uart_ok\<close>, the representation of lists); the contracts
  between components are the locales, interpreted on the definitions of the component that
  provides them; the properties C1 to C40 rest on both.

  Not modelled: the displays and modules the top level does not use, the generated parts (the
  SystemVerilog of the system interconnect, \<open>system.h\<close> beyond the constants used), assembly
  (\<open>crt0.S\<close>, exception entry), newlib itself (its \<open>exit\<close> is taken as documented: registered
  functions, then the streams), compilation and timing of the processor, the contents of
  caches (this processor has none), and \<open>rsa.c\<close> beside the application, an earlier draft that does not compile.
\<close>

end
